(* ===== verification/Prelude.thy ===== *)
theory Prelude
  imports Main
begin

text \<open>
  What every component shares: the failures of the C abstract machine as values, the result
  type of operations that may fail, the macros of \<^verbatim>\<open>include/utils.h\<close>, and generic
  lemmas on lists and arrays of pointers.
\<close>

named_theorems res_simps \<open>how results of fallible operations compose\<close>

section \<open>Failures and results\<close>

text \<open>
  A C function that dereferences \<open>NULL\<close> or freed memory, indexes past an array, reads memory that was never
  written, divides by zero, locks a non-recursive mutex it already holds, or loops forever has
  no result. Each is a value of \<open>c_error\<close>, so that every theorem about a result says the
  operation was safe.
\<close>

datatype c_error =
    NullDereference
  | InvalidPointer
  | OutOfBounds
  | UninitialisedRead
  | DivisionByZero
  | SignedOverflow
  | SelfDeadlock
  | NonTermination
  | ProcessExit

type_synonym 'a res = "c_error + 'a"

definition rbind :: "'a res \<Rightarrow> ('a \<Rightarrow> 'b res) \<Rightarrow> 'b res" where
  "rbind m f = (case m of Inl e \<Rightarrow> Inl e | Inr x \<Rightarrow> f x)"

lemma rbind_simps [simp, res_simps]:
  "rbind (Inl e) f = Inl e"
  "rbind (Inr x) f = f x"
  by (simp_all add: rbind_def)

lemma rbind_eq_Inr [res_simps]:
  "rbind m f = Inr y \<longleftrightarrow> (\<exists>x. m = Inr x \<and> f x = Inr y)"
  by (cases m) auto

lemma rbind_eq_Inl [res_simps]:
  "rbind m f = Inl e \<longleftrightarrow> m = Inl e \<or> (\<exists>x. m = Inr x \<and> f x = Inl e)"
  by (cases m) auto

text \<open>A loop over a list whose body may fail stops at the first failure.\<close>

fun rfold :: "('x \<Rightarrow> 's \<Rightarrow> 's res) \<Rightarrow> 'x list \<Rightarrow> 's \<Rightarrow> 's res" where
  "rfold f [] s = Inr s"
| "rfold f (x # xs) s = rbind (f x s) (rfold f xs)"

lemma rfold_append: "rfold f (xs @ ys) s = rbind (rfold f xs s) (rfold f ys)"
  by (induction xs arbitrary: s) (auto simp: rbind_def split: sum.splits)

lemma rfold_invariant:
  assumes "rfold f xs s = Inr s'" and "P s"
    and "\<And>x s s'. x \<in> set xs \<Longrightarrow> P s \<Longrightarrow> f x s = Inr s' \<Longrightarrow> P s'"
  shows "P s'"
  using assms by (induction xs arbitrary: s) (auto simp: res_simps)

text \<open>
  Total correctness of such a loop: if the body succeeds from every state that satisfies the
  invariant and keeps the invariant, so does the loop.
\<close>

lemma rfold_total:
  assumes "P s"
    and "\<And>x s. x \<in> set xs \<Longrightarrow> P s \<Longrightarrow> \<exists>s'. f x s = Inr s' \<and> P s'"
  shows "\<exists>s'. rfold f xs s = Inr s' \<and> P s'"
  using assms
proof (induction xs arbitrary: s)
  case Nil
  then show ?case by simp
next
  case (Cons x xs)
  from Cons.prems obtain s1 where "f x s = Inr s1" and "P s1" by auto
  with Cons.IH [of s1] Cons.prems(2) show ?case by auto
qed

section \<open>The macros of utils.h\<close>

definition ABS :: "int \<Rightarrow> int" where
  "ABS x = (if x < 0 then - x else x)"

definition MANHATTAN :: "int \<Rightarrow> int \<Rightarrow> int \<Rightarrow> int \<Rightarrow> int" where
  "MANHATTAN x1 y1 x2 y2 = ABS (x1 - x2) + ABS (y1 - y2)"

lemma ABS_abs [simp]: "ABS x = \<bar>x\<bar>"
  by (simp add: ABS_def)

lemma MANHATTAN_abs: "MANHATTAN x1 y1 x2 y2 = \<bar>x1 - x2\<bar> + \<bar>y1 - y2\<bar>"
  by (simp add: MANHATTAN_def)

lemma MANHATTAN_towards: "MANHATTAN x1 y1 x2 y2 = \<bar>x2 - x1\<bar> + \<bar>y2 - y1\<bar>"
  by (simp add: MANHATTAN_abs abs_minus_commute)

lemma MANHATTAN_nonneg [simp]: "0 \<le> MANHATTAN x1 y1 x2 y2"
  by (simp add: MANHATTAN_abs)

lemma MANHATTAN_commute: "MANHATTAN x1 y1 x2 y2 = MANHATTAN x2 y2 x1 y1"
  by (simp add: MANHATTAN_abs abs_minus_commute)

lemma MANHATTAN_eq_0: "MANHATTAN x1 y1 x2 y2 = 0 \<longleftrightarrow> x1 = x2 \<and> y1 = y2"
  by (auto simp: MANHATTAN_abs)

text \<open>
  The division of C truncates towards zero; on operands that are not negative it is
  \<open>div\<close>.
\<close>

definition c_div :: "int \<Rightarrow> int \<Rightarrow> int res" where
  "c_div a b = (if b = 0 then Inl DivisionByZero else Inr (sgn a * sgn b * (\<bar>a\<bar> div \<bar>b\<bar>)))"

lemma c_div_pos: "0 \<le> a \<Longrightarrow> 0 < b \<Longrightarrow> c_div a b = Inr (a div b)"
  by (cases "a = 0") (simp_all add: c_div_def)

text \<open>Division rounded up, \<open>(m + s - 1) div s\<close>, as a number of steps of size \<open>s\<close>.\<close>

lemma ceil_div: "0 < s \<Longrightarrow> (m + s - 1) div s = (m - 1) div s + (1::int)"
  using div_add_self2 [of s "m - 1"] by (simp add: algebra_simps)

lemma ceil_div_le_1: "0 < s \<Longrightarrow> (m + s - 1) div s \<le> 1 \<longleftrightarrow> m \<le> (s::int)"
  using pos_imp_zdiv_pos_iff [of s "m - 1"] by (auto simp: ceil_div)

lemma ceil_div_step: "0 < s \<Longrightarrow> (m - s + s - 1) div s = (m + s - 1) div s - (1::int)"
  by (simp add: ceil_div)

section \<open>Arrays of pointers that end in NULL\<close>

text \<open>
  An array of pointers is the list of its cells, with \<open>None\<close> for \<open>NULL\<close>. A loop
  \<^verbatim>\<open>for(i = 0; a[i] != NULL; i++)\<close> that finds no \<open>NULL\<close> runs past the array.
\<close>

fun scan_null_terminated :: "('a \<Rightarrow> bool) \<Rightarrow> 'a option list \<Rightarrow> 'a option res" where
  "scan_null_terminated P [] = Inl OutOfBounds"
| "scan_null_terminated P (None # cs) = Inr None"
| "scan_null_terminated P (Some a # cs) =
     (if P a then Inr (Some a) else scan_null_terminated P cs)"

lemma scan_null_terminated_Some:
  "scan_null_terminated P cs = Inr (Some a) \<Longrightarrow> Some a \<in> set cs \<and> P a"
  by (induction P cs rule: scan_null_terminated.induct) (auto split: if_splits)

lemma scan_null_terminated_safe:
  "None \<in> set cs \<Longrightarrow> \<exists>r. scan_null_terminated P cs = Inr r"
  by (induction P cs rule: scan_null_terminated.induct) auto

lemma scan_null_terminated_found:
  "\<exists>a. Some a \<in> set (takeWhile (\<lambda>c. c \<noteq> None) cs) \<and> P a \<Longrightarrow>
     \<exists>a. scan_null_terminated P cs = Inr (Some a)"
  by (induction P cs rule: scan_null_terminated.induct) auto

text \<open>Reading a pointer that may be \<open>NULL\<close>, and reading and writing an array cell.\<close>

definition deref :: "'a option \<Rightarrow> 'a res" where
  "deref p = (case p of None \<Rightarrow> Inl NullDereference | Some a \<Rightarrow> Inr a)"

lemma deref_simps [simp]: "deref None = Inl NullDereference" "deref (Some a) = Inr a"
  by (simp_all add: deref_def)

lemma deref_eq [res_simps]: "deref p = Inr a \<longleftrightarrow> p = Some a"
  by (auto simp: deref_def split: option.splits)

definition arr_get :: "'a list \<Rightarrow> int \<Rightarrow> 'a res" where
  "arr_get xs i = (if 0 \<le> i \<and> i < int (length xs) then Inr (xs ! nat i) else Inl OutOfBounds)"

definition arr_set :: "'a list \<Rightarrow> int \<Rightarrow> 'a \<Rightarrow> 'a list res" where
  "arr_set xs i v =
     (if 0 \<le> i \<and> i < int (length xs) then Inr (xs[nat i := v]) else Inl OutOfBounds)"

lemma arr_nth [simp]: "i < length xs \<Longrightarrow> arr_get xs (int i) = Inr (xs ! i)"
  by (simp add: arr_get_def)

lemma arr_set_nth [simp]: "i < length xs \<Longrightarrow> arr_set xs (int i) v = Inr (xs[i := v])"
  by (simp add: arr_set_def)

lemma arr_get_eq [res_simps]:
  "arr_get xs i = Inr v \<longleftrightarrow> 0 \<le> i \<and> nat i < length xs \<and> v = xs ! nat i"
  by (auto simp: arr_get_def)

lemma arr_set_eq [res_simps]:
  "arr_set xs i v = Inr ys \<longleftrightarrow> 0 \<le> i \<and> nat i < length xs \<and> ys = xs[nat i := v]"
  by (auto simp: arr_set_def)

text \<open>
  A loop \<^verbatim>\<open>for(i = 0; i < n; i++)\<close> over an array whose first \<open>n\<close> cells hold the values
  \<open>ys\<close> is a loop over \<open>ys\<close>.
\<close>

lemma rfold_cong:
  "(\<And>x s. x \<in> set xs \<Longrightarrow> f x s = g x s) \<Longrightarrow> rfold f xs s = rfold g xs s"
  by (induction xs arbitrary: s) (simp_all add: rbind_def split: sum.splits)

lemma rfold_map: "rfold f (map g xs) s = rfold (\<lambda>x. f (g x)) xs s"
  by (induction xs arbitrary: s) (simp_all add: rbind_def split: sum.splits)

lemma rfold_arr:
  assumes "map Some ys = take n xs" and "n \<le> length xs"
  shows "rfold (\<lambda>i s. rbind (arr_get xs (int i)) (\<lambda>c. f c s)) [0..<n] s = rfold (\<lambda>y. f (Some y)) ys s"
proof -
  have len: "length ys = n" using assms by (metis length_map length_take min.absorb2)
  have nth: "xs ! i = Some (ys ! i)" if "i < n" for i
    using assms that len by (metis nth_map nth_take)
  have "rfold (\<lambda>y. f (Some y)) (map ((!) ys) [0..<n]) s
      = rfold (\<lambda>i s. rbind (arr_get xs (int i)) (\<lambda>c. f c s)) [0..<n] s"
    unfolding rfold_map using nth assms(2) by (intro rfold_cong) simp
  moreover have "map ((!) ys) [0..<n] = ys" using len map_nth by blast
  ultimately show ?thesis by simp
qed

section \<open>Counting in lists\<close>

definition count_if :: "('a \<Rightarrow> bool) \<Rightarrow> 'a list \<Rightarrow> nat" where
  "count_if P xs = length (filter P xs)"

lemma count_if_simps [simp]:
  "count_if P [] = 0"
  "count_if P (x # xs) = (if P x then Suc (count_if P xs) else count_if P xs)"
  "count_if P (xs @ ys) = count_if P xs + count_if P ys"
  by (simp_all add: count_if_def)

lemma count_if_update:
  assumes "i < length xs"
  shows "count_if P (xs[i := v]) + (if P (xs ! i) then 1 else 0)
       = count_if P xs + (if P v then 1 else 0)"
  using assms
proof (induction xs arbitrary: i)
  case (Cons x xs)
  then show ?case by (cases i) fastforce+
qed simp

lemma count_if_cong: "(\<And>x. x \<in> set xs \<Longrightarrow> P x = Q x) \<Longrightarrow> count_if P xs = count_if Q xs"
  by (induction xs) auto

lemma count_if_0_iff: "count_if P xs = 0 \<longleftrightarrow> (\<forall>x \<in> set xs. \<not> P x)"
  by (induction xs) auto

lemma count_if_le_length: "count_if P xs \<le> length xs"
  by (simp add: count_if_def)

end
