(* ===== verification/Bresenham.thy ===== *)
theory Bresenham
  imports Prelude
begin

text \<open>
  How a rescuer walks: \<^verbatim>\<open>src/bresenham.c\<close>. A trajectory remembers the target, the distances
  and directions at departure and the error term of Bresenham's algorithm; every tick
  \<open>compute_bresenham_step\<close> moves at most \<open>cells_per_step\<close> cells along it, and may stop
  half way through a diagonal move. Coordinates are \<open>int\<close>: the bounds at the end of the theory
  show that no intermediate value leaves the range of a 32 bit \<^verbatim>\<open>int\<close> on the maps the
  parser accepts.
\<close>

section \<open>The trajectory and its operations\<close>

record bresenham_trajectory =
  x_target :: int
  y_target :: int
  dx :: int
  dy :: int
  sx :: int
  sy :: int
  err :: int

text \<open>
  A pointer to a trajectory: \<open>None\<close> is \<open>NULL\<close>, \<open>Some None\<close> is memory that was allocated
  and never written, as \<open>mallocate_bresenham_trajectory\<close> returns it.
\<close>

type_synonym trajectory_ptr = "bresenham_trajectory option option"

definition mallocate_bresenham_trajectory :: trajectory_ptr where
  "mallocate_bresenham_trajectory = Some None"

text \<open>
  The \<open>while\<close> loop over \<open>i\<close>, the walking position \<open>(xA, yA)\<close>, the steps made so far and the
  error term. The result holds whether the target was reached, the new error term and the
  steps. A trajectory with negative distances can make no move at all and loop forever:
  \<open>None\<close> is not returning.
\<close>

partial_function (option) bresenham_loop ::
  "bresenham_trajectory \<Rightarrow> int \<Rightarrow> int \<Rightarrow> int \<Rightarrow> int \<Rightarrow> int \<Rightarrow> int \<Rightarrow> int \<Rightarrow>
    (bool \<times> int \<times> int \<times> int) option" where
  "bresenham_loop t cells i xA yA x_step y_step er =
    (if i < cells then
       (if xA = x_target t \<and> yA = y_target t then Some (True, er, x_step, y_step)
        else
          let e2 = 2 * er;
              gox = (e2 \<ge> - dy t);
              er1 = (if gox then er - dy t else er);
              xA1 = (if gox then xA + sx t else xA);
              xs1 = (if gox then x_step + sx t else x_step);
              i1 = (if gox then i + 1 else i)
          in if i1 \<ge> cells
             then Some (xA1 = x_target t \<and> yA = y_target t, er1, xs1, y_step)
             else if e2 \<le> dx t
             then bresenham_loop t cells (i1 + 1) xA1 (yA + sy t) xs1 (y_step + sy t) (er1 + dx t)
             else bresenham_loop t cells i1 xA1 yA xs1 y_step er1)
     else Some (xA = x_target t \<and> yA = y_target t, er, x_step, y_step))"

declare bresenham_loop.simps [code]

text \<open>
  The parameters \<open>x_step0\<close> and \<open>y_step0\<close> are the values the output parameters hold at the
  call. The result holds the returned flag, the trajectory and the two outputs.
\<close>

definition compute_bresenham_step ::
  "int \<Rightarrow> int \<Rightarrow> trajectory_ptr \<Rightarrow> int \<Rightarrow> int \<Rightarrow> int \<Rightarrow>
    (bool \<times> trajectory_ptr \<times> int \<times> int) res" where
  "compute_bresenham_step x y trajectory cells_per_step x_step0 y_step0 =
    (case trajectory of
       None \<Rightarrow> Inr (False, None, x_step0, y_step0)
     | Some content \<Rightarrow>
         if cells_per_step < 0 then Inr (True, trajectory, 0, 0)
         else (case content of
           None \<Rightarrow> Inl UninitialisedRead
         | Some t \<Rightarrow>
             let distance_x = ABS (x - x_target t);
                 distance_y = ABS (y - y_target t);
                 manhattan_distance = distance_x + distance_y
             in if manhattan_distance \<le> cells_per_step
                then Inr (True, trajectory,
                          ABS (x - x_target t) * sx t, ABS (y - y_target t) * sy t)
                else (case bresenham_loop t cells_per_step 0 x y 0 0 (err t) of
                        None \<Rightarrow> Inl NonTermination
                      | Some (arrived, er, xs, ys) \<Rightarrow>
                          Inr (arrived, Some (Some (t\<lparr>err := er\<rparr>)), xs, ys))))"

definition change_bresenham_trajectory ::
  "trajectory_ptr \<Rightarrow> int \<Rightarrow> int \<Rightarrow> int \<Rightarrow> int \<Rightarrow> trajectory_ptr" where
  "change_bresenham_trajectory t current_x current_y new_x new_y =
    (case t of
       None \<Rightarrow> None
     | Some _ \<Rightarrow>
         let ddx = ABS (new_x - current_x); ddy = ABS (new_y - current_y)
         in Some (Some \<lparr>x_target = new_x, y_target = new_y,
              dx = ddx, dy = ddy,
              sx = (if current_x < new_x then 1 else -1),
              sy = (if current_y < new_y then 1 else -1),
              err = ddx - ddy\<rparr>))"

section \<open>Being on the way to the target\<close>

text \<open>
  With \<open>p\<close> and \<open>q\<close> cells left on the two axes, a trajectory that departed with distances
  \<open>D\<close> and \<open>E\<close> has this error term, whatever the order of the moves made so far and wherever
  earlier ticks were cut short.
\<close>

definition err_at :: "int \<Rightarrow> int \<Rightarrow> int \<Rightarrow> int \<Rightarrow> int" where
  "err_at D E p q = D - E + E * p - D * q"

lemma err_at_moves:
  "err_at D E (p - 1) q = err_at D E p q - E"
  "err_at D E p (q - 1) = err_at D E p q + D"
  by (simp_all add: err_at_def algebra_simps)

text \<open>A move is only made on an axis that still has cells to walk: no overshooting.\<close>

lemma x_move_has_cells:
  assumes "0 \<le> p" "0 \<le> q" "q \<le> E" "0 \<le> D" "0 < p + q" "- E \<le> 2 * err_at D E p q"
  shows "1 \<le> p"
proof (rule ccontr)
  assume "\<not> 1 \<le> p"
  with assms have p: "p = 0" and q: "1 \<le> q" by auto
  have "D * 1 \<le> D * q" using q assms(4) by (rule mult_left_mono)
  with p have "err_at D E p q \<le> - E" by (simp add: err_at_def)
  with assms q show False by simp
qed

lemma y_move_has_cells:
  assumes "0 \<le> p" "0 \<le> q" "p \<le> D" "0 \<le> E" "0 < p + q" "2 * err_at D E p q \<le> D"
  shows "1 \<le> q"
proof (rule ccontr)
  assume "\<not> 1 \<le> q"
  with assms have q: "q = 0" and p: "1 \<le> p" by auto
  have "E * 1 \<le> E * p" using p assms(4) by (rule mult_left_mono)
  with q have "D \<le> err_at D E p q" by (simp add: err_at_def)
  with assms p show False by simp
qed

text \<open>
  \<open>on_trajectory t x y\<close>: a rescuer at \<open>(x, y)\<close> is where the trajectory's fields say it is.
\<close>

definition on_trajectory :: "bresenham_trajectory \<Rightarrow> int \<Rightarrow> int \<Rightarrow> bool" where
  "on_trajectory t x y \<longleftrightarrow>
     (sx t = 1 \<or> sx t = -1) \<and> (sy t = 1 \<or> sy t = -1) \<and>
     x_target t - x = sx t * \<bar>x_target t - x\<bar> \<and> \<bar>x_target t - x\<bar> \<le> dx t \<and>
     y_target t - y = sy t * \<bar>y_target t - y\<bar> \<and> \<bar>y_target t - y\<bar> \<le> dy t \<and>
     err t = err_at (dx t) (dy t) \<bar>x_target t - x\<bar> \<bar>y_target t - y\<bar> \<and>
     - (3 * dy t) \<le> 2 * err t \<and> 2 * err t \<le> 3 * dx t"

text \<open>The same by the cells left, which is what the loop changes.\<close>

definition cells_left :: "bresenham_trajectory \<Rightarrow> int \<Rightarrow> int \<Rightarrow> int \<Rightarrow> int \<Rightarrow> int \<Rightarrow> bool" where
  "cells_left t x y er p q \<longleftrightarrow>
     0 \<le> p \<and> p \<le> dx t \<and> 0 \<le> q \<and> q \<le> dy t \<and>
     x = x_target t - sx t * p \<and> y = y_target t - sy t * q \<and>
     er = err_at (dx t) (dy t) p q \<and> - (3 * dy t) \<le> 2 * er \<and> 2 * er \<le> 3 * dx t"

lemma on_trajectory_cells_left:
  assumes "on_trajectory t x y"
  shows "cells_left t x y (err t) \<bar>x_target t - x\<bar> \<bar>y_target t - y\<bar>"
  using assms unfolding on_trajectory_def cells_left_def by linarith

lemma cells_left_on_trajectory:
  assumes "cells_left t x y er p q" and "sx t = 1 \<or> sx t = -1" and "sy t = 1 \<or> sy t = -1"
  shows "on_trajectory (t\<lparr>err := er\<rparr>) x y"
    and "MANHATTAN x y (x_target t) (y_target t) = p + q"
  using assms by (auto simp: on_trajectory_def cells_left_def MANHATTAN_abs)

lemma at_target_iff:
  assumes "cells_left t x y er p q" and "sx t = 1 \<or> sx t = -1" and "sy t = 1 \<or> sy t = -1"
  shows "x = x_target t \<and> y = y_target t \<longleftrightarrow> p + q = 0"
  using assms by (auto simp: cells_left_def)

section \<open>One tick\<close>

text \<open>One round of the loop, when its guard holds and the target is not reached.\<close>

lemma x_move_cells_left:
  assumes "cells_left t x y er p q" and "0 < p + q" and "- dy t \<le> 2 * er"
  shows "cells_left t (x + sx t) y (er - dy t) (p - 1) q"
proof -
  have "1 \<le> p" using assms x_move_has_cells [of p q "dy t" "dx t"] by (simp add: cells_left_def)
  then show ?thesis using assms(1,3)
    by (auto simp: cells_left_def err_at_moves right_diff_distrib)
qed

lemma y_move_cells_left:
  assumes "cells_left t x y er p q" and "1 \<le> q" and "2 * er \<le> dx t"
  shows "cells_left t x (y + sy t) (er + dx t) p (q - 1)"
  using assms by (auto simp: cells_left_def err_at_moves right_diff_distrib)

lemma xy_move_cells_left:
  assumes "cells_left t x y er p q" and "0 < p + q" and "- dy t \<le> 2 * er" and "2 * er \<le> dx t"
  shows "cells_left t (x + sx t) (y + sy t) (er - dy t + dx t) (p - 1) (q - 1)"
proof -
  have "1 \<le> p" "1 \<le> q"
    using assms x_move_has_cells [of p q "dy t" "dx t"] y_move_has_cells [of p q "dx t" "dy t"]
    by (simp_all add: cells_left_def)
  then show ?thesis using assms
    by (auto simp: cells_left_def err_at_moves right_diff_distrib)
qed

text \<open>
  The loop returns, and has made as many moves as the budget and the remaining distance allow.
\<close>

lemma bresenham_loop_correct:
  assumes "cells_left t x y er p q" and "sx t = 1 \<or> sx t = -1" and "sy t = 1 \<or> sy t = -1"
    and "i \<le> cells"
  shows "\<exists>p' q' er'.
      bresenham_loop t cells i x y xs ys er
        = Some (p' + q' = 0, er', xs + sx t * (p - p'), ys + sy t * (q - q'))
    \<and> cells_left t (x + sx t * (p - p')) (y + sy t * (q - q')) er' p' q'
    \<and> p' \<le> p \<and> q' \<le> q \<and> (p - p') + (q - q') = min (cells - i) (p + q)"
  using assms
proof (induction "nat (cells - i)" arbitrary: i x y er p q xs ys rule: less_induct)
  case less
  let ?ret = "\<lambda>i x y xs ys er p q p' q' er'.
      bresenham_loop t cells i x y xs ys er
        = Some (p' + q' = 0, er', xs + sx t * (p - p'), ys + sy t * (q - q'))
    \<and> cells_left t (x + sx t * (p - p')) (y + sy t * (q - q')) er' p' q'
    \<and> p' \<le> p \<and> q' \<le> q \<and> (p - p') + (q - q') = min (cells - i) (p + q)"
  note IH = less.hyps [OF _ _ less.prems(2,3)]
  note cl = less.prems(1)
  have nn: "0 \<le> p" "0 \<le> q" using cl by (simp_all add: cells_left_def)
  have at: "x = x_target t \<and> y = y_target t \<longleftrightarrow> p + q = 0"
    using at_target_iff [OF less.prems(1-3)] .
  show ?case
  proof (cases "i < cells \<and> 0 < p + q")
    case False
    then have "?ret i x y xs ys er p q p q er"
      using less.prems nn at by (subst bresenham_loop.simps) auto
    then show ?thesis by blast
  next
    case True
    then have not_at: "\<not> (x = x_target t \<and> y = y_target t)" using at by auto
    consider (y) "2 * er < - dy t" | (last) "- dy t \<le> 2 * er" "i + 1 = cells"
      | (x) "- dy t \<le> 2 * er" "i + 1 < cells" "dx t < 2 * er"
      | (xy) "- dy t \<le> 2 * er" "i + 1 < cells" "2 * er \<le> dx t"
      using True by linarith
    then show ?thesis
    proof cases
      case y
      then have le: "2 * er \<le> dx t" using cl by (simp add: cells_left_def)
      have q1: "1 \<le> q"
        using y_move_has_cells [of p q "dx t" "dy t"] cl True le by (simp add: cells_left_def)
      obtain p' q' er' where "?ret (i + 1) x (y + sy t) xs (ys + sy t) (er + dx t) p (q - 1) p' q' er'"
        using IH [of "i + 1" x "y + sy t" "er + dx t" p "q - 1" xs "ys + sy t"]
          y_move_cells_left [OF cl q1 le] True by auto
      then have "?ret i x y xs ys er p q p' q' er'"
        using True not_at y le by (subst bresenham_loop.simps) (auto simp: algebra_simps)
      then show ?thesis by blast
    next
      case last
      have cl1: "cells_left t (x + sx t) y (er - dy t) (p - 1) q"
        using x_move_cells_left [OF cl _ last(1)] True by simp
      have "?ret i x y xs ys er p q (p - 1) q (er - dy t)"
        using True not_at last cl1 at_target_iff [OF cl1 less.prems(2,3)]
        by (subst bresenham_loop.simps) auto
      then show ?thesis by blast
    next
      case x
      have cl1: "cells_left t (x + sx t) y (er - dy t) (p - 1) q"
        using x_move_cells_left [OF cl _ x(1)] True by simp
      obtain p' q' er' where "?ret (i + 1) (x + sx t) y (xs + sx t) ys (er - dy t) (p - 1) q p' q' er'"
        using IH [of "i + 1" "x + sx t" y "er - dy t" "p - 1" q "xs + sx t" ys] cl1 True by auto
      then have "?ret i x y xs ys er p q p' q' er'"
        using True not_at x by (subst bresenham_loop.simps) (auto simp: algebra_simps)
      then show ?thesis by blast
    next
      case xy
      have cl2: "cells_left t (x + sx t) (y + sy t) (er - dy t + dx t) (p - 1) (q - 1)"
        using xy_move_cells_left [OF cl _ xy(1,3)] True by simp
      obtain p' q' er' where "?ret (i + 2) (x + sx t) (y + sy t) (xs + sx t) (ys + sy t)
          (er - dy t + dx t) (p - 1) (q - 1) p' q' er'"
        using IH [of "i + 2" "x + sx t" "y + sy t" "er - dy t + dx t" "p - 1" "q - 1"
            "xs + sx t" "ys + sy t"] cl2 True xy by auto
      then have "?ret i x y xs ys er p q p' q' er'"
        using True not_at xy by (subst bresenham_loop.simps) (auto simp: algebra_simps)
      then show ?thesis by blast
    qed
  qed
qed

text \<open>
  The early exit for a target within reach does not update the error term, so an arrived
  rescuer is no longer \<open>on_trajectory\<close>; it stands on the target of its trajectory. A course is
  usable in both situations.
\<close>

definition valid_course :: "bresenham_trajectory \<Rightarrow> int \<Rightarrow> int \<Rightarrow> bool" where
  "valid_course t x y \<longleftrightarrow> on_trajectory t x y \<or> x = x_target t \<and> y = y_target t"

text \<open>\<open>between a v b\<close>: \<open>v\<close> lies between \<open>a\<close> and \<open>b\<close>, in whatever order they are.\<close>

definition between :: "int \<Rightarrow> int \<Rightarrow> int \<Rightarrow> bool" where
  "between a v b \<longleftrightarrow> min a b \<le> v \<and> v \<le> max a b"

lemma compute_within_reach:
  assumes "on_trajectory t x y" and "MANHATTAN x y (x_target t) (y_target t) \<le> cells"
  shows "compute_bresenham_step x y (Some (Some t)) cells xs0 ys0
       = Inr (True, Some (Some t), x_target t - x, y_target t - y)"
proof -
  have nn: "0 \<le> cells" using assms(2) MANHATTAN_nonneg [of x y "x_target t" "y_target t"] by linarith
  moreover have "\<bar>x - x_target t\<bar> * sx t = x_target t - x" "\<bar>y - y_target t\<bar> * sy t = y_target t - y"
    using assms(1) by (simp_all add: on_trajectory_def abs_minus_commute mult.commute)
  ultimately show ?thesis using assms(2)
    by (simp add: compute_bresenham_step_def MANHATTAN_abs Let_def)
qed

lemma compute_at_target:
  assumes "x = x_target t" "y = y_target t" "0 \<le> cells"
  shows "compute_bresenham_step x y (Some (Some t)) cells xs0 ys0 = Inr (True, Some (Some t), 0, 0)"
  using assms by (simp add: compute_bresenham_step_def)

lemma compute_out_of_reach:
  assumes "on_trajectory t x y" and "0 \<le> cells"
    and "cells < MANHATTAN x y (x_target t) (y_target t)"
  shows "\<exists>er a b. compute_bresenham_step x y (Some (Some t)) cells xs0 ys0
        = Inr (False, Some (Some (t\<lparr>err := er\<rparr>)), a, b)
      \<and> on_trajectory (t\<lparr>err := er\<rparr>) (x + a) (y + b)
      \<and> \<bar>a\<bar> + \<bar>b\<bar> = cells
      \<and> MANHATTAN (x + a) (y + b) (x_target t) (y_target t)
          = MANHATTAN x y (x_target t) (y_target t) - cells
      \<and> between x (x + a) (x_target t) \<and> between y (y + b) (y_target t)"
proof -
  let ?p = "\<bar>x_target t - x\<bar>" and ?q = "\<bar>y_target t - y\<bar>"
  have sg: "sx t = 1 \<or> sx t = -1" "sy t = 1 \<or> sy t = -1"
    using assms(1) by (simp_all add: on_trajectory_def)
  have m: "MANHATTAN x y (x_target t) (y_target t) = ?p + ?q" by (rule MANHATTAN_towards)
  obtain p' q' er where
    ret: "bresenham_loop t cells 0 x y 0 0 (err t)
        = Some (p' + q' = 0, er, sx t * (?p - p'), sy t * (?q - q'))"
    and cl: "cells_left t (x + sx t * (?p - p')) (y + sy t * (?q - q')) er p' q'"
    and le: "p' \<le> ?p" "q' \<le> ?q" and moved: "(?p - p') + (?q - q') = min cells (?p + ?q)"
    using bresenham_loop_correct [OF on_trajectory_cells_left [OF assms(1)] sg assms(2), of 0 0]
    by auto
  let ?a = "sx t * (?p - p')" and ?b = "sy t * (?q - q')"
  have moved': "(?p - p') + (?q - q') = cells" and left: "p' + q' = ?p + ?q - cells"
    using moved assms(3) m by auto
  have abs: "\<bar>?a\<bar> = ?p - p'" "\<bar>?b\<bar> = ?q - q'" using sg le by auto
  have "compute_bresenham_step x y (Some (Some t)) cells xs0 ys0
      = Inr (False, Some (Some (t\<lparr>err := er\<rparr>)), ?a, ?b)"
    using assms(2,3) m left ret by (simp add: compute_bresenham_step_def abs_minus_commute Let_def)
  moreover have "on_trajectory (t\<lparr>err := er\<rparr>) (x + ?a) (y + ?b)"
    and "MANHATTAN (x + ?a) (y + ?b) (x_target t) (y_target t) = p' + q'"
    using cells_left_on_trajectory [OF cl sg] by simp_all
  moreover have "between x (x + ?a) (x_target t)" "between y (y + ?b) (y_target t)"
    using cl sg le assms(1) unfolding cells_left_def on_trajectory_def between_def by auto
  ultimately show ?thesis using abs moved' left m by (metis (no_types, lifting))
qed

text \<open>
  C1. One tick of walking is correct: on a usable course \<open>compute_bresenham_step\<close> returns, moves
  exactly as many cells as the speed and the remaining Manhattan distance allow, never outside
  the rectangle spanned by the position and the target, leaves a usable course to the same
  target, and says it arrived exactly when it stands on the target.
\<close>

theorem compute_bresenham_step_correct:
  assumes "valid_course t x y" and "0 < cells"
  shows "\<exists>arrived er a b. compute_bresenham_step x y (Some (Some t)) cells xs0 ys0
        = Inr (arrived, Some (Some (t\<lparr>err := er\<rparr>)), a, b)
      \<and> valid_course (t\<lparr>err := er\<rparr>) (x + a) (y + b)
      \<and> \<bar>a\<bar> + \<bar>b\<bar> = min cells (MANHATTAN x y (x_target t) (y_target t))
      \<and> MANHATTAN (x + a) (y + b) (x_target t) (y_target t)
          = max 0 (MANHATTAN x y (x_target t) (y_target t) - cells)
      \<and> between x (x + a) (x_target t) \<and> between y (y + b) (y_target t)
      \<and> (arrived \<longleftrightarrow> x + a = x_target t \<and> y + b = y_target t)"
proof (cases "MANHATTAN x y (x_target t) (y_target t) \<le> cells")
  case True
  have same: "t\<lparr>err := err t\<rparr> = t" by simp
  have btw: "between u v v" for u v by (simp add: between_def)
  have "compute_bresenham_step x y (Some (Some t)) cells xs0 ys0
      = Inr (True, Some (Some t), x_target t - x, y_target t - y)"
    using assms True compute_within_reach compute_at_target
    unfolding valid_course_def by fastforce
  then have "compute_bresenham_step x y (Some (Some t)) cells xs0 ys0
      = Inr (True, Some (Some (t\<lparr>err := err t\<rparr>)), x_target t - x, y_target t - y)"
    by (simp only: same)
  moreover have "\<bar>x_target t - x\<bar> + \<bar>y_target t - y\<bar>
      = min cells (MANHATTAN x y (x_target t) (y_target t))"
    using True by (simp add: MANHATTAN_towards)
  moreover have "MANHATTAN (x + (x_target t - x)) (y + (y_target t - y)) (x_target t) (y_target t)
      = max 0 (MANHATTAN x y (x_target t) (y_target t) - cells)"
    using True by (simp add: MANHATTAN_abs)
  moreover have "valid_course (t\<lparr>err := err t\<rparr>) (x + (x_target t - x)) (y + (y_target t - y))"
    by (simp add: valid_course_def)
  moreover have "between x (x + (x_target t - x)) (x_target t)"
    "between y (y + (y_target t - y)) (y_target t)"
    by (simp_all add: btw)
  moreover have "True \<longleftrightarrow> x + (x_target t - x) = x_target t \<and> y + (y_target t - y) = y_target t"
    by simp
  ultimately show ?thesis by blast
next
  case False
  then have on: "on_trajectory t x y" using assms by (auto simp: valid_course_def MANHATTAN_abs)
  from False have lt: "cells < MANHATTAN x y (x_target t) (y_target t)" by simp
  let ?m = "MANHATTAN x y (x_target t) (y_target t)"
  obtain er a b where st:
    "compute_bresenham_step x y (Some (Some t)) cells xs0 ys0
      = Inr (False, Some (Some (t\<lparr>err := er\<rparr>)), a, b)"
    and on': "on_trajectory (t\<lparr>err := er\<rparr>) (x + a) (y + b)" and ab: "\<bar>a\<bar> + \<bar>b\<bar> = cells"
    and m': "MANHATTAN (x + a) (y + b) (x_target t) (y_target t) = ?m - cells"
    and btw: "between x (x + a) (x_target t)" "between y (y + b) (y_target t)"
    using compute_out_of_reach [OF on _ lt] assms(2) by fastforce
  have "MANHATTAN (x + a) (y + b) (x_target t) (y_target t) \<noteq> 0" using m' lt by linarith
  then have "False \<longleftrightarrow> x + a = x_target t \<and> y + b = y_target t"
    using MANHATTAN_eq_0 by blast
  moreover have "valid_course (t\<lparr>err := er\<rparr>) (x + a) (y + b)"
    using on' by (simp add: valid_course_def)
  moreover have "\<bar>a\<bar> + \<bar>b\<bar> = min cells ?m" using ab lt by simp
  moreover have "MANHATTAN (x + a) (y + b) (x_target t) (y_target t) = max 0 (?m - cells)"
    using m' lt by simp
  ultimately show ?thesis using st btw by blast
qed

theorem compute_bresenham_step_correct_witness:
  "\<exists>arrived er a b. compute_bresenham_step 0 0
        (Some (Some \<lparr>x_target = 4, y_target = -2, dx = 4, dy = 2, sx = 1, sy = -1, err = 2\<rparr>)) 3 0 0
      = Inr (arrived, Some (Some \<lparr>x_target = 4, y_target = -2, dx = 4, dy = 2, sx = 1, sy = -1,
               err = er\<rparr>), a, b) \<and> \<bar>a\<bar> + \<bar>b\<bar> = 3"
proof -
  let ?t = "\<lparr>x_target = 4, y_target = -2, dx = 4, dy = 2, sx = 1, sy = -1, err = 2\<rparr>"
  have "valid_course ?t 0 0" by (simp add: valid_course_def on_trajectory_def err_at_def)
  then obtain arrived er a b where
    "compute_bresenham_step 0 0 (Some (Some ?t)) 3 0 0
      = Inr (arrived, Some (Some (?t\<lparr>err := er\<rparr>)), a, b)"
    "\<bar>a\<bar> + \<bar>b\<bar> = min 3 (MANHATTAN 0 0 (x_target ?t) (y_target ?t))"
    using compute_bresenham_step_correct [of ?t 0 0 3 0 0] by fastforce
  then show ?thesis by (simp add: MANHATTAN_def)
qed

section \<open>Departure and the whole trip\<close>

lemma change_bresenham_trajectory_on:
  assumes "change_bresenham_trajectory (Some c) x y nx ny = Some (Some t)"
  shows "on_trajectory t x y" and "x_target t = nx" and "y_target t = ny"
proof -
  have t: "t = \<lparr>x_target = nx, y_target = ny, dx = \<bar>nx - x\<bar>, dy = \<bar>ny - y\<bar>,
      sx = (if x < nx then 1 else -1), sy = (if y < ny then 1 else -1),
      err = \<bar>nx - x\<bar> - \<bar>ny - y\<bar>\<rparr>"
    using assms by (simp add: change_bresenham_trajectory_def Let_def)
  show "on_trajectory t x y" "x_target t = nx" "y_target t = ny"
    by (simp_all add: t on_trajectory_def err_at_def)
qed

lemma change_bresenham_trajectory_Some:
  "\<exists>t. change_bresenham_trajectory (Some c) x y nx ny = Some (Some t)"
  by (simp add: change_bresenham_trajectory_def Let_def)

text \<open>
  The ticks a rescuer walks until \<open>compute_bresenham_step\<close> says it has arrived, as the updater
  calls it: once a tick, adding the steps to the position. \<open>fuel\<close> bounds the ticks.
\<close>

fun ticks_to_arrive :: "nat \<Rightarrow> int \<Rightarrow> int \<Rightarrow> int \<Rightarrow> trajectory_ptr \<Rightarrow> nat res" where
  "ticks_to_arrive 0 speed x y t = Inl NonTermination"
| "ticks_to_arrive (Suc fuel) speed x y t =
     rbind (compute_bresenham_step x y t speed 0 0) (\<lambda>(arrived, t', a, b).
       if arrived then Inr 1
       else rbind (ticks_to_arrive fuel speed (x + a) (y + b) t') (\<lambda>n. Inr (Suc n)))"

lemma ticks_to_arrive_on_trajectory:
  assumes "on_trajectory t x y" and "0 < speed"
    and "nat (MANHATTAN x y (x_target t) (y_target t)) < fuel"
  shows "ticks_to_arrive fuel speed x y (Some (Some t))
       = Inr (nat (max 1 ((MANHATTAN x y (x_target t) (y_target t) + speed - 1) div speed)))"
  using assms
proof (induction fuel arbitrary: t x y)
  case (Suc fuel)
  let ?m = "MANHATTAN x y (x_target t) (y_target t)"
  show ?case
  proof (cases "?m \<le> speed")
    case True
    then have "(?m + speed - 1) div speed \<le> 1"
      using ceil_div_le_1 [OF Suc.prems(2)] by blast
    with compute_within_reach [OF Suc.prems(1) True, of 0 0] show ?thesis by (simp add: max_def)
  next
    case False
    then have lt: "speed < ?m" by simp
    obtain er a b where st: "compute_bresenham_step x y (Some (Some t)) speed 0 0
          = Inr (False, Some (Some (t\<lparr>err := er\<rparr>)), a, b)"
        and on: "on_trajectory (t\<lparr>err := er\<rparr>) (x + a) (y + b)"
        and m': "MANHATTAN (x + a) (y + b) (x_target t) (y_target t) = ?m - speed"
      using compute_out_of_reach [OF Suc.prems(1) _ lt, of 0 0] Suc.prems(2) by fastforce
    have "ticks_to_arrive fuel speed (x + a) (y + b) (Some (Some (t\<lparr>err := er\<rparr>)))
        = Inr (nat (max 1 ((?m - speed + speed - 1) div speed)))"
      using Suc.IH [OF on Suc.prems(2)] m' Suc.prems(2,3) lt by simp
    moreover have "1 < (?m + speed - 1) div speed"
      using ceil_div_le_1 [OF Suc.prems(2), of ?m] lt by linarith
    ultimately show ?thesis
      using st ceil_div_step [OF Suc.prems(2), of ?m] by (simp add: max_def Suc_nat_eq_nat_zadd1)
  qed
qed simp

text \<open>
  C2. A dispatched rescuer arrives: from the moment \<open>change_bresenham_trajectory\<close> sets a course,
  whatever the trajectory held before, walking at a positive speed reaches the target, after
  exactly the Manhattan distance divided by the speed, rounded up (one tick if it is already
  there).
\<close>

theorem rescuer_arrives_in_time:
  assumes "0 < speed" and "nat (MANHATTAN x y nx ny) < fuel"
  shows "ticks_to_arrive fuel speed x y (change_bresenham_trajectory (Some c) x y nx ny)
       = Inr (nat (max 1 ((MANHATTAN x y nx ny + speed - 1) div speed)))"
proof -
  obtain t where t: "change_bresenham_trajectory (Some c) x y nx ny = Some (Some t)"
    using change_bresenham_trajectory_Some by blast
  from ticks_to_arrive_on_trajectory [OF change_bresenham_trajectory_on(1) [OF t] assms(1)]
    change_bresenham_trajectory_on(2,3) [OF t] assms(2) t
  show ?thesis by simp
qed

theorem rescuer_arrives_in_time_witness:
  "ticks_to_arrive 90 3 50 50 (change_bresenham_trajectory (Some None) 50 50 84 63) = Inr 16"
  using rescuer_arrives_in_time [of 3 50 50 84 63 90 None] by (simp add: MANHATTAN_def)

section \<open>Bounds\<close>

lemma compute_from_on_trajectory:
  assumes "on_trajectory t x y" and "0 < cells"
    and "compute_bresenham_step x y (Some (Some t)) cells xs0 ys0 = Inr (arrived, t', a, b)"
  shows "\<exists>er. t' = Some (Some (t\<lparr>err := er\<rparr>)) \<and> - (3 * dy t) \<le> 2 * er \<and> 2 * er \<le> 3 * dx t \<and>
    (on_trajectory (t\<lparr>err := er\<rparr>) (x + a) (y + b)
      \<or> x + a = x_target t \<and> y + b = y_target t)"
proof (cases "MANHATTAN x y (x_target t) (y_target t) \<le> cells")
  case True
  have "t\<lparr>err := err t\<rparr> = t" by simp
  moreover have "t' = Some (Some t)" "x + a = x_target t" "y + b = y_target t"
    using compute_within_reach [OF assms(1) True, of xs0 ys0] assms(3) by auto
  ultimately show ?thesis using assms(1) unfolding on_trajectory_def
    by (intro exI [of _ "err t"]) simp
next
  case False
  then obtain er a' b' where
    "compute_bresenham_step x y (Some (Some t)) cells xs0 ys0
      = Inr (False, Some (Some (t\<lparr>err := er\<rparr>)), a', b')"
    "on_trajectory (t\<lparr>err := er\<rparr>) (x + a') (y + b')"
    using compute_out_of_reach [OF assms(1), of cells xs0 ys0] assms(2) by fastforce
  moreover from this(2) have "- (3 * dy t) \<le> 2 * er \<and> 2 * er \<le> 3 * dx t"
    by (simp add: on_trajectory_def)
  ultimately show ?thesis using assms(3) by auto
qed


text \<open>A course on which the bounds are evaluated: from the origin to \<open>(7, 3)\<close>.\<close>

definition course_7_3 :: bresenham_trajectory where
  "course_7_3 = \<lparr>x_target = 7, y_target = 3, dx = 7, dy = 3, sx = 1, sy = 1, err = 4\<rparr>"

lemma course_7_3_on: "on_trajectory course_7_3 0 0"
  by (simp add: on_trajectory_def course_7_3_def err_at_def)

lemma course_7_3_step:
  "compute_bresenham_step 0 0 (Some (Some course_7_3)) 4 0 0
     = Inr (False, Some (Some (course_7_3\<lparr>err := 2\<rparr>)), 3, 1)"
  by code_simp


text \<open>
  How far a position is from the ideal line of departure, times the length of that line: the
  cross product of the line with the cells walked so far.
\<close>

definition line_deviation :: "bresenham_trajectory \<Rightarrow> int \<Rightarrow> int \<Rightarrow> int" where
  "line_deviation t x y =
     dx t * (dy t - \<bar>y_target t - y\<bar>) - dy t * (dx t - \<bar>x_target t - x\<bar>)"

lemma on_trajectory_deviation:
  assumes "on_trajectory t x y"
  shows "\<bar>line_deviation t x y\<bar> \<le> dx t + dy t"
proof -
  have "line_deviation t x y = err t - dx t + dy t"
    using assms by (simp add: on_trajectory_def line_deviation_def err_at_def algebra_simps)
  moreover have "0 \<le> dx t" "0 \<le> dy t" "- (3 * dy t) \<le> 2 * err t" "2 * err t \<le> 3 * dx t"
    using assms unfolding on_trajectory_def by linarith+
  ultimately show ?thesis by linarith
qed

lemma square_sum_le: "(a + b)\<^sup>2 \<le> 2 * (a\<^sup>2 + b\<^sup>2)" for a b :: int
  using zero_le_power2 [of "a - b"] by (simp add: power2_diff power2_sum)

text \<open>
  C4. The walk stays on the line: every position a tick reaches is at most \<open>sqrt 2\<close> cells away
  from the straight line from departure to target, although a tick may stop in the middle of a
  diagonal move. (The deviation is the distance times the length of the line, so its square is
  compared with twice the squared length.)
\<close>

theorem walk_stays_on_line:
  assumes "on_trajectory t x y" and "0 < cells"
    and "compute_bresenham_step x y (Some (Some t)) cells xs0 ys0 = Inr (arrived, t', a, b)"
  shows "(line_deviation t (x + a) (y + b))\<^sup>2 \<le> 2 * ((dx t)\<^sup>2 + (dy t)\<^sup>2)"
proof -
  obtain er where "on_trajectory (t\<lparr>err := er\<rparr>) (x + a) (y + b)
      \<or> x + a = x_target t \<and> y + b = y_target t"
    using compute_from_on_trajectory [OF assms] by blast
  then have "\<bar>line_deviation t (x + a) (y + b)\<bar> \<le> \<bar>dx t + dy t\<bar>"
    using on_trajectory_deviation [of "t\<lparr>err := er\<rparr>" "x + a" "y + b"]
    by (auto simp: line_deviation_def algebra_simps)
  then have "(line_deviation t (x + a) (y + b))\<^sup>2 \<le> (dx t + dy t)\<^sup>2"
    by (simp add: abs_le_square_iff)
  then show ?thesis using square_sum_le [of "dx t" "dy t"] by linarith
qed

theorem walk_stays_on_line_witness:
  "(line_deviation course_7_3 (0 + 3) (0 + 1))\<^sup>2 \<le> 2 * ((dx course_7_3)\<^sup>2 + (dy course_7_3)\<^sup>2)"
  by (rule walk_stays_on_line [OF course_7_3_on _ course_7_3_step]) simp

end
