(* ===== verification/Linked_List.thy ===== *)
theory Linked_List
  imports Prelude
begin

text \<open>
  The doubly linked lists under the priority queue: \<^verbatim>\<open>list_remove_node\<close>,
  \<^verbatim>\<open>list_push_back\<close> and \<^verbatim>\<open>list_pop_front\<close> of \<^verbatim>\<open>src/priority_queue.c\<close> on a heap of
  nodes, and what they do to the sequence of nodes a list holds. Nodes are allocated and freed
  by the callers, in \<^verbatim>\<open>Priority_Queue\<close>.
\<close>

section \<open>Nodes and the heap\<close>

type_synonym addr = nat

record 'a node =
  prev :: "addr option"
  nxt :: "addr option"
  item :: 'a

record dlist =
  head :: "addr option"
  tail :: "addr option"
  lcount :: int

text \<open>A heap maps the allocated addresses to their nodes; every other access is an error.\<close>

type_synonym 'a heap = "addr \<rightharpoonup> 'a node"

definition load :: "'a heap \<Rightarrow> addr \<Rightarrow> 'a node res" where
  "load h a = (case h a of None \<Rightarrow> Inl InvalidPointer | Some n \<Rightarrow> Inr n)"

definition set_next :: "addr \<Rightarrow> addr option \<Rightarrow> 'a heap \<Rightarrow> 'a heap res" where
  "set_next a v h = rbind (load h a) (\<lambda>n. Inr (h(a \<mapsto> n\<lparr>nxt := v\<rparr>)))"

definition set_prev :: "addr \<Rightarrow> addr option \<Rightarrow> 'a heap \<Rightarrow> 'a heap res" where
  "set_prev a v h = rbind (load h a) (\<lambda>n. Inr (h(a \<mapsto> n\<lparr>prev := v\<rparr>)))"

lemma load_Some [simp]: "h a = Some n \<Longrightarrow> load h a = Inr n"
  by (simp add: load_def)

lemma set_next_Some [simp]: "h a = Some n \<Longrightarrow> set_next a v h = Inr (h(a \<mapsto> n\<lparr>nxt := v\<rparr>))"
  by (simp add: set_next_def)

lemma set_prev_Some [simp]: "h a = Some n \<Longrightarrow> set_prev a v h = Inr (h(a \<mapsto> n\<lparr>prev := v\<rparr>))"
  by (simp add: set_prev_def)

section \<open>The operations\<close>

definition list_remove_node :: "'a heap \<Rightarrow> dlist \<Rightarrow> addr option \<Rightarrow> ('a heap \<times> dlist) res" where
  "list_remove_node h l n =
    (case n of
       None \<Rightarrow> Inr (h, l)
     | Some a \<Rightarrow>
         rbind (load h a) (\<lambda>nd.
         rbind (case prev nd of
                  Some p \<Rightarrow> rbind (set_next p (nxt nd) h) (\<lambda>h1. Inr (h1, l))
                | None \<Rightarrow> Inr (h, l\<lparr>head := nxt nd\<rparr>)) (\<lambda>(h1, l1).
         rbind (load h1 a) (\<lambda>nd1.
         rbind (case nxt nd1 of
                  Some q \<Rightarrow> rbind (set_prev q (prev nd1) h1) (\<lambda>h2. Inr (h2, l1))
                | None \<Rightarrow> Inr (h1, l1\<lparr>tail := prev nd1\<rparr>)) (\<lambda>(h2, l2).
         Inr (h2, l2\<lparr>lcount := lcount l2 - 1\<rparr>))))))"

definition list_push_back :: "'a heap \<Rightarrow> dlist \<Rightarrow> addr \<Rightarrow> ('a heap \<times> dlist) res" where
  "list_push_back h l n =
     rbind (set_prev n (tail l) h) (\<lambda>h1.
     rbind (set_next n None h1) (\<lambda>h2.
     rbind (case tail l of
              Some t \<Rightarrow> rbind (set_next t (Some n) h2) (\<lambda>h3. Inr (h3, l))
            | None \<Rightarrow> Inr (h2, l\<lparr>head := Some n\<rparr>)) (\<lambda>(h3, l1).
     Inr (h3, l1\<lparr>tail := Some n, lcount := lcount l1 + 1\<rparr>))))"

definition list_pop_front :: "'a heap \<Rightarrow> dlist \<Rightarrow> (addr option \<times> 'a heap \<times> dlist) res" where
  "list_pop_front h l =
    (case head l of
       None \<Rightarrow> Inr (None, h, l)
     | Some n \<Rightarrow>
         rbind (load h n) (\<lambda>nd.
         let l1 = l\<lparr>head := nxt nd\<rparr> in
         rbind (case head l1 of
                  Some a \<Rightarrow> rbind (set_prev a None h) (\<lambda>h1. Inr (h1, l1))
                | None \<Rightarrow> Inr (h, l1\<lparr>tail := None\<rparr>)) (\<lambda>(h1, l2).
         Inr (Some n, h1, l2\<lparr>lcount := lcount l2 - 1\<rparr>))))"

section \<open>The sequence of nodes\<close>

text \<open>
  \<open>dpath h p x as y l\<close>: from the link \<open>x\<close>, with \<open>p\<close> as predecessor, the \<open>next\<close> fields lead
  through the nodes \<open>as\<close> to the link \<open>y\<close>, the \<open>prev\<close> fields lead back, and \<open>l\<close> is the last node
  passed.
\<close>

fun dpath :: "'a heap \<Rightarrow> addr option \<Rightarrow> addr option \<Rightarrow> addr list \<Rightarrow> addr option \<Rightarrow> addr option \<Rightarrow> bool"
where
  "dpath h p x [] y l \<longleftrightarrow> x = y \<and> p = l"
| "dpath h p x (a # as) y l \<longleftrightarrow>
     x = Some a \<and>
     (case h a of None \<Rightarrow> False | Some n \<Rightarrow> prev n = p \<and> dpath h (Some a) (nxt n) as y l)"

definition is_dlist :: "'a heap \<Rightarrow> dlist \<Rightarrow> addr list \<Rightarrow> bool" where
  "is_dlist h l as \<longleftrightarrow>
     dpath h None (head l) as None (tail l) \<and> distinct as \<and> lcount l = int (length as)"

definition items :: "'a heap \<Rightarrow> addr list \<Rightarrow> 'a list" where
  "items h as = map (\<lambda>a. item (the (h a))) as"

lemma items_simps [simp]:
  "items h [] = []"
  "items h (a # as) = item (the (h a)) # items h as"
  "items h (as @ bs) = items h as @ items h bs"
  "length (items h as) = length as"
  by (simp_all add: items_def)

lemma dpath_append:
  "dpath h p x (as @ bs) y l \<longleftrightarrow> (\<exists>z m. dpath h p x as z m \<and> dpath h m z bs y l)"
  by (induction as arbitrary: p x) (auto split: option.splits)

lemma dpath_frame: "a \<notin> set as \<Longrightarrow> dpath (h(a := v)) p x as y l = dpath h p x as y l"
  by (induction as arbitrary: p x) (auto split: option.splits)

lemma items_frame: "a \<notin> set as \<Longrightarrow> items (h(a := v)) as = items h as"
  by (auto simp: items_def)

lemma dpath_dom: "dpath h p x as y l \<Longrightarrow> set as \<subseteq> dom h"
  by (induction as arbitrary: p x) (auto split: option.splits)

lemma dpath_snoc:
  "dpath h p x (as @ [a]) y l \<longleftrightarrow>
     l = Some a \<and> (\<exists>n. h a = Some n \<and> nxt n = y \<and> dpath h p x as (Some a) (prev n))"
  by (auto simp: dpath_append split: option.splits)

text \<open>Changing the two links at the borders of a path.\<close>

lemma dpath_new_end:
  assumes "dpath h p x (as @ [a]) y l" and "a \<notin> set as" and "h a = Some n"
  shows "dpath (h(a \<mapsto> n\<lparr>nxt := z\<rparr>)) p x (as @ [a]) z l"
  using assms by (auto simp: dpath_snoc dpath_frame)

lemma dpath_new_start:
  assumes "dpath h p x (a # as) y l" and "a \<notin> set as" and "h a = Some n"
  shows "dpath (h(a \<mapsto> n\<lparr>prev := q\<rparr>)) q x (a # as) y l"
  using assms by (auto simp: dpath_frame)

lemma items_link_update:
  "h a = Some n \<Longrightarrow> item m = item n \<Longrightarrow> items (h(a \<mapsto> m)) as = items h as"
  by (auto simp: items_def)

section \<open>What the operations do to the sequence\<close>

text \<open>The operations only change links, and only inside the list: the frame of their lemmas.\<close>

definition links_only :: "addr set \<Rightarrow> 'a heap \<Rightarrow> 'a heap \<Rightarrow> bool" where
  "links_only S h h' \<longleftrightarrow>
     (\<forall>a. map_option item (h' a) = map_option item (h a)) \<and> (\<forall>a. a \<notin> S \<longrightarrow> h' a = h a)"

lemma links_only_refl [simp]: "links_only S h h"
  by (simp add: links_only_def)

lemma links_only_update:
  assumes "links_only S h h'" and "h' a = Some n" and "a \<in> S" and "item m = item n"
  shows "links_only S h (h'(a \<mapsto> m))"
  using assms unfolding links_only_def by (metis fun_upd_apply option.simps(9))

lemma links_only_dom: "links_only S h h' \<Longrightarrow> dom h' = dom h"
  unfolding links_only_def dom_def by (metis (no_types) option.map_disc_iff)

lemma links_only_item:
  assumes "links_only S h h'" and "a \<in> dom h"
  shows "item (the (h' a)) = item (the (h a))"
proof -
  have "map_option item (h' a) = map_option item (h a)" using assms(1) by (simp add: links_only_def)
  then show ?thesis using assms(2) by (cases "h' a"; cases "h a") auto
qed

lemma links_only_items:
  "links_only S h h' \<Longrightarrow> set as \<subseteq> dom h \<Longrightarrow> items h' as = items h as"
  unfolding items_def by (auto simp: subset_iff intro: links_only_item)

lemma links_only_path:
  assumes "links_only S h h'" and "set as \<inter> S = {}"
  shows "dpath h' p x as y l = dpath h p x as y l"
  using assms(2)
proof (induction as arbitrary: p x)
  case (Cons a as)
  then have "h' a = h a" using assms(1) by (auto simp: links_only_def)
  with Cons show ?case by (auto split: option.splits)
qed simp

lemma links_only_mono: "links_only S h h' \<Longrightarrow> S \<subseteq> T \<Longrightarrow> links_only T h h'"
  unfolding links_only_def by blast

lemma links_only_dlist:
  "links_only S h h' \<Longrightarrow> set as \<inter> S = {} \<Longrightarrow> is_dlist h' l as = is_dlist h l as"
  by (simp add: is_dlist_def links_only_path)

text \<open>Appending a node that is not in the list yet.\<close>

lemma list_push_back_correct:
  assumes "is_dlist h l as" and "h n = Some nd" and "n \<notin> set as"
  shows "\<exists>h' l'. list_push_back h l n = Inr (h', l') \<and> is_dlist h' l' (as @ [n])
    \<and> links_only (insert n (set as)) h h'"
proof (cases as rule: rev_cases)
  case Nil
  let ?h = "h(n \<mapsto> nd\<lparr>prev := None, nxt := None\<rparr>)"
  from assms Nil have "tail l = None" "head l = None" "lcount l = 0" by (auto simp: is_dlist_def)
  then have "list_push_back h l n = Inr (?h, \<lparr>head = Some n, tail = Some n, lcount = 1\<rparr>)"
    using assms(2) by (simp add: list_push_back_def)
  moreover have "links_only {n} h ?h" using assms(2) by (auto intro: links_only_update)
  ultimately show ?thesis using Nil by (auto simp: is_dlist_def)
next
  case (snoc bs t)
  from assms(1) snoc obtain tn where t: "tail l = Some t" "h t = Some tn" and lc: "lcount l = int (length as)"
    and path: "dpath h None (head l) (bs @ [t]) None (Some t)" and dist: "distinct (bs @ [t])"
    by (auto simp: is_dlist_def dpath_snoc)
  let ?h1 = "h(n \<mapsto> nd\<lparr>prev := Some t, nxt := None\<rparr>)"
  let ?h = "?h1(t \<mapsto> tn\<lparr>nxt := Some n\<rparr>)"
  have nt: "n \<noteq> t" "n \<notin> set bs" "t \<notin> set bs" using assms(3) snoc dist by auto
  have "list_push_back h l n = Inr (?h, l\<lparr>tail := Some n, lcount := lcount l + 1\<rparr>)"
    using assms(2) t nt by (simp add: list_push_back_def)
  moreover have "dpath ?h None (head l) ((bs @ [t]) @ [n]) None (Some n)"
    using path nt t by (simp add: dpath_snoc dpath_frame del: append_assoc)
  moreover have "links_only (insert n (set as)) h ?h"
    using assms(2) t nt snoc by (auto intro!: links_only_update)
  ultimately show ?thesis using dist nt snoc lc by (auto simp: is_dlist_def)
qed

text \<open>Taking the first node: \<open>NULL\<close> exactly on the empty list.\<close>

lemma list_pop_front_Nil:
  "is_dlist h l [] \<Longrightarrow> list_pop_front h l = Inr (None, h, l)"
  by (auto simp: is_dlist_def list_pop_front_def)

lemma list_pop_front_Cons:
  assumes "is_dlist h l (a # as)"
  shows "\<exists>h' l'. list_pop_front h l = Inr (Some a, h', l') \<and> is_dlist h' l' as
    \<and> links_only (set as) h h'"
proof -
  from assms obtain n where a: "head l = Some a" "h a = Some n"
    and rest: "dpath h (Some a) (nxt n) as None (tail l)" and dist: "a \<notin> set as" "distinct as"
    and lc: "lcount l = int (length as) + 1"
    by (auto simp: is_dlist_def split: option.splits)
  show ?thesis
  proof (cases as)
    case Nil
    have last: "nxt n = None" "tail l = Some a" using rest Nil by simp_all
    have "list_pop_front h l = Inr (Some a, h, l\<lparr>head := None, tail := None, lcount := lcount l - 1\<rparr>)"
      using last by (simp add: list_pop_front_def a)
    then show ?thesis using Nil lc by (auto simp: is_dlist_def)
  next
    case (Cons b bs)
    with rest obtain m where b: "nxt n = Some b" "h b = Some m" by (auto split: option.splits)
    let ?h = "h(b \<mapsto> m\<lparr>prev := None\<rparr>)"
    have "list_pop_front h l = Inr (Some a, ?h, l\<lparr>head := nxt n, lcount := lcount l - 1\<rparr>)"
      using a b by (simp add: list_pop_front_def)
    moreover have "dpath ?h None (nxt n) as None (tail l)"
      using dpath_new_start [of h "Some a" "nxt n" b bs None "tail l" m None] rest b dist Cons by simp
    moreover have "links_only (set as) h ?h" using b Cons by (auto intro: links_only_update)
    ultimately show ?thesis using dist lc by (auto simp: is_dlist_def)
  qed
qed

text \<open>Unlinking a node: first the link that leads to it, then the link that leads back to it.\<close>

lemma unlink_before:
  assumes "dpath h None (head l) xs (Some a) (prev nd)" and "distinct xs" and "a \<notin> set xs"
  shows "\<exists>h1 l1. (case prev nd of
                  Some p \<Rightarrow> rbind (set_next p (nxt nd) h) (\<lambda>h1. Inr (h1, l))
                | None \<Rightarrow> Inr (h, l\<lparr>head := nxt nd\<rparr>)) = Inr (h1, l1)
    \<and> dpath h1 None (head l1) xs (nxt nd) (prev nd) \<and> tail l1 = tail l \<and> lcount l1 = lcount l
    \<and> links_only (set xs) h h1"
proof (cases xs rule: rev_cases)
  case Nil
  with assms show ?thesis by (cases "prev nd") auto
next
  case (snoc us p)
  with assms obtain pn where p: "prev nd = Some p" "h p = Some pn" by (auto simp: dpath_snoc)
  have "dpath (h(p \<mapsto> pn\<lparr>nxt := nxt nd\<rparr>)) None (head l) xs (nxt nd) (prev nd)"
    using dpath_new_end [of h None "head l" us p "Some a" "prev nd" pn "nxt nd"] assms p snoc by simp
  then show ?thesis using p snoc by (auto intro: links_only_update)
qed

lemma unlink_after:
  assumes "dpath h (Some a) (nxt nd) ys None (tail l)" and "distinct ys" and "a \<notin> set ys"
  shows "\<exists>h2 l2. (case nxt nd of
                  Some q \<Rightarrow> rbind (set_prev q (prev nd) h) (\<lambda>h2. Inr (h2, l))
                | None \<Rightarrow> Inr (h, l\<lparr>tail := prev nd\<rparr>)) = Inr (h2, l2)
    \<and> dpath h2 (prev nd) (nxt nd) ys None (tail l2) \<and> head l2 = head l \<and> lcount l2 = lcount l
    \<and> links_only (set ys) h h2"
proof (cases ys)
  case Nil
  with assms show ?thesis by (cases "nxt nd") auto
next
  case (Cons q vs)
  with assms obtain qn where q: "nxt nd = Some q" "h q = Some qn" by (auto split: option.splits)
  have "dpath (h(q \<mapsto> qn\<lparr>prev := prev nd\<rparr>)) (prev nd) (nxt nd) ys None (tail l)"
    using dpath_new_start [of h "Some a" "nxt nd" q vs None "tail l" qn "prev nd"] assms q Cons by simp
  then show ?thesis using q Cons by (auto intro: links_only_update)
qed

lemma list_remove_node_correct:
  assumes "is_dlist h l (xs @ a # ys)"
  shows "\<exists>h' l'. list_remove_node h l (Some a) = Inr (h', l') \<and> is_dlist h' l' (xs @ ys)
    \<and> links_only (set xs \<union> set ys) h h' \<and> h' a = h a"
proof -
  from assms obtain nd where a: "h a = Some nd" and before: "dpath h None (head l) xs (Some a) (prev nd)"
    and after: "dpath h (Some a) (nxt nd) ys None (tail l)"
    by (auto simp: is_dlist_def dpath_append split: option.splits)
  from assms have dist: "distinct xs" "distinct ys" "a \<notin> set xs" "a \<notin> set ys" "set xs \<inter> set ys = {}"
    and lc: "lcount l = int (length (xs @ ys)) + 1"
    by (auto simp: is_dlist_def)
  obtain h1 l1 where s1: "(case prev nd of
                  Some p \<Rightarrow> rbind (set_next p (nxt nd) h) (\<lambda>h1. Inr (h1, l))
                | None \<Rightarrow> Inr (h, l\<lparr>head := nxt nd\<rparr>)) = Inr (h1, l1)"
    and p1: "dpath h1 None (head l1) xs (nxt nd) (prev nd)" and l1: "tail l1 = tail l" "lcount l1 = lcount l"
    and f1: "links_only (set xs) h h1"
    using unlink_before [OF before dist(1,3)] by blast
  have a1: "h1 a = Some nd" using f1 a dist by (simp add: links_only_def)
  have "dpath h1 (Some a) (nxt nd) ys None (tail l1)"
    using after l1 links_only_path [OF f1, of ys] dist by (simp add: Int_commute)
  from unlink_after [OF this dist(2,4)] obtain h2 l2 where s2: "(case nxt nd of
                  Some q \<Rightarrow> rbind (set_prev q (prev nd) h1) (\<lambda>h2. Inr (h2, l1))
                | None \<Rightarrow> Inr (h1, l1\<lparr>tail := prev nd\<rparr>)) = Inr (h2, l2)"
    and p2: "dpath h2 (prev nd) (nxt nd) ys None (tail l2)" and l2: "head l2 = head l1" "lcount l2 = lcount l1"
    and f2: "links_only (set ys) h1 h2"
    by blast
  have "list_remove_node h l (Some a) = Inr (h2, l2\<lparr>lcount := lcount l2 - 1\<rparr>)"
    using a a1 s1 s2 by (simp add: list_remove_node_def cong: option.case_cong)
  moreover have "dpath h2 None (head l2) xs (nxt nd) (prev nd)"
    using p1 l2 links_only_path [OF f2, of xs] dist by simp
  then have "is_dlist h2 (l2\<lparr>lcount := lcount l2 - 1\<rparr>) (xs @ ys)"
    using p2 dist lc l1 l2 by (auto simp: is_dlist_def dpath_append)
  moreover have "links_only (set xs \<union> set ys) h h2"
    using f1 f2 by (auto simp: links_only_def)
  moreover have "h2 a = h a" using f2 a a1 dist by (simp add: links_only_def)
  ultimately show ?thesis by blast
qed

end
