(* ===== verification/Queue_Interface.thy ===== *)
theory Queue_Interface
  imports Prelude
begin

text \<open>
  What the clients of the priority queue rely on: the contents of a queue as one list per
  level, the laws of its operations as a locale, the facts clients use proved once from the
  laws, and the queue of lists that the server model uses. The heap implementation of
  \<^verbatim>\<open>src/priority_queue.c\<close> satisfies the same laws in \<^verbatim>\<open>Priority_Queue\<close>.
\<close>

section \<open>Levels\<close>

text \<open>The order in which a queue is emptied: the highest level first, each level in order.\<close>

definition drain :: "'a list list \<Rightarrow> 'a list" where
  "drain ls = concat (rev ls)"

text \<open>Priorities outside the levels go to the nearest level.\<close>

definition clamp_level :: "int \<Rightarrow> nat \<Rightarrow> nat" where
  "clamp_level prio n = (if prio < 0 then 0 else if int n \<le> prio then n - 1 else nat prio)"

definition push_level :: "'a \<Rightarrow> int \<Rightarrow> 'a list list \<Rightarrow> 'a list list" where
  "push_level x prio ls =
     (let i = clamp_level prio (length ls) in ls[i := ls ! i @ [x]])"

fun top_level :: "('l \<Rightarrow> bool) \<Rightarrow> nat \<Rightarrow> 'l list \<Rightarrow> nat option" where
  "top_level Q 0 ls = None"
| "top_level Q (Suc i) ls = (if Q (ls ! i) then Some i else top_level Q i ls)"

fun remove_first :: "('a \<Rightarrow> bool) \<Rightarrow> 'a list \<Rightarrow> 'a list" where
  "remove_first P [] = []"
| "remove_first P (x # xs) = (if P x then xs else x # remove_first P xs)"

definition holds_some :: "('a \<Rightarrow> bool) \<Rightarrow> 'a list \<Rightarrow> bool" where
  "holds_some P xs = list_ex P xs"

definition extract_level :: "('a \<Rightarrow> bool) \<Rightarrow> 'a list list \<Rightarrow> ('a \<times> 'a list list) option" where
  "extract_level P ls =
     (case top_level (holds_some P) (length ls) ls of
        None \<Rightarrow> None
      | Some k \<Rightarrow> Some (hd (filter P (ls ! k)), ls[k := remove_first P (ls ! k)]))"

lemma clamp_level_less: "0 < n \<Longrightarrow> clamp_level p n < n"
  by (auto simp: clamp_level_def)

lemma length_push_level [simp]: "length (push_level x p ls) = length ls"
  by (simp add: push_level_def Let_def)

lemma top_level_Some:
  "top_level Q n ls = Some k \<longleftrightarrow> k < n \<and> Q (ls ! k) \<and> (\<forall>j. k < j \<and> j < n \<longrightarrow> \<not> Q (ls ! j))"
  by (induction n) (auto simp: less_Suc_eq)

lemma top_level_None: "top_level Q n ls = None \<longleftrightarrow> (\<forall>j < n. \<not> Q (ls ! j))"
  by (induction n) (auto simp: less_Suc_eq)

lemma holds_some_iff: "holds_some P xs \<longleftrightarrow> (\<exists>x \<in> set xs. P x)"
  by (simp add: holds_some_def list_ex_iff)

lemma not_holds_some: "\<not> holds_some P xs \<longleftrightarrow> filter P xs = []"
  by (auto simp: holds_some_iff filter_empty_conv)

lemma set_drain [simp]: "set (drain ls) = \<Union> (set ` set ls)"
  by (simp add: drain_def)

lemma drain_at_level:
  assumes "k < length ls"
  shows "drain (ls[k := l]) = drain (drop (Suc k) ls) @ l @ drain (take k ls)"
  using assms by (simp add: drain_def upd_conv_take_nth_drop)

lemma drain_split:
  "k < length ls \<Longrightarrow> drain ls = drain (drop (Suc k) ls) @ ls ! k @ drain (take k ls)"
  using drain_at_level [of k ls "ls ! k"] by simp

lemma remove_first_append:
  "remove_first P (xs @ ys) = (if holds_some P xs then remove_first P xs @ ys else xs @ remove_first P ys)"
  by (induction xs) (auto simp: holds_some_def)

lemma remove_first_filter:
  "filter P (remove_first P xs) = tl (filter P xs)"
  "filter (\<lambda>x. \<not> P x) (remove_first P xs) = filter (\<lambda>x. \<not> P x) xs"
  by (induction xs) auto

lemma length_remove_first:
  "holds_some P xs \<Longrightarrow> Suc (length (remove_first P xs)) = length xs"
  by (induction xs) (auto simp: holds_some_def)

lemma set_remove_first: "set (remove_first P xs) \<subseteq> set xs"
  by (induction xs) auto

lemma remove_first_in_set: "x \<in> set xs \<Longrightarrow> \<not> P x \<Longrightarrow> x \<in> set (remove_first P xs)"
  by (induction xs) auto

text \<open>In draining order, extraction takes the first element that satisfies the predicate.\<close>

lemma extract_level_None: "extract_level P ls = None \<longleftrightarrow> filter P (drain ls) = []"
proof -
  have "extract_level P ls = None \<longleftrightarrow> top_level (holds_some P) (length ls) ls = None"
    by (simp add: extract_level_def split: option.split)
  then have "extract_level P ls = None \<longleftrightarrow> (\<forall>l \<in> set ls. \<not> holds_some P l)"
    by (simp add: top_level_None all_set_conv_all_nth)
  then show ?thesis by (auto simp: holds_some_iff filter_empty_conv)
qed

lemma extract_level_Some:
  assumes "extract_level P ls = Some (x, ls')"
  shows "x = hd (filter P (drain ls))" and "P x" and "x \<in> set (drain ls)"
    and "drain ls' = remove_first P (drain ls)" and "length ls' = length ls"
proof -
  from assms obtain k where k: "k < length ls" "holds_some P (ls ! k)"
    "\<forall>j. k < j \<and> j < length ls \<longrightarrow> \<not> holds_some P (ls ! j)"
    and x: "x = hd (filter P (ls ! k))" and ls': "ls' = ls[k := remove_first P (ls ! k)]"
    by (auto simp: extract_level_def top_level_Some split: option.splits)
  have "\<not> holds_some P l" if "l \<in> set (drop (Suc k) ls)" for l
  proof -
    from that obtain j where "Suc k + j < length ls" "l = ls ! (Suc k + j)"
      unfolding in_set_conv_nth by (metis add.commute k(1) less_diff_conv length_drop nth_drop
          Suc_leI)
    then show ?thesis using k(3) by simp
  qed
  then have above: "\<not> holds_some P (drain (drop (Suc k) ls))" by (auto simp: holds_some_iff)
  have ne: "filter P (ls ! k) \<noteq> []" using k(2) not_holds_some by blast
  show "x = hd (filter P (drain ls))"
    using x ne above not_holds_some [of P "drain (drop (Suc k) ls)"]
    by (subst drain_split [OF k(1)]) simp
  show "P x" using ne x hd_in_set [OF ne] by auto
  have "x \<in> set (ls ! k)" using ne x hd_in_set [OF ne] by auto
  then show "x \<in> set (drain ls)" using k(1) by auto
  show "drain ls' = remove_first P (drain ls)"
    using k(2) above
    by (simp add: ls' drain_at_level [OF k(1)] drain_split [OF k(1)] remove_first_append)
  show "length ls' = length ls" by (simp add: ls')
qed

text \<open>Pushing adds one element behind those of its level and changes no other level.\<close>

lemma drain_push_level:
  assumes "0 < length ls"
  shows "\<exists>us vs. drain ls = us @ vs \<and> drain (push_level x p ls) = us @ x # vs"
proof -
  let ?k = "clamp_level p (length ls)"
  have k: "?k < length ls" using assms by (rule clamp_level_less)
  have "drain ls = (drain (drop (Suc ?k) ls) @ ls ! ?k) @ drain (take ?k ls)"
    using drain_split [OF k] by simp
  moreover have "drain (push_level x p ls)
      = (drain (drop (Suc ?k) ls) @ ls ! ?k) @ x # drain (take ?k ls)"
    by (simp add: push_level_def Let_def drain_at_level [OF k])
  ultimately show ?thesis by blast
qed

lemma set_drain_push:
  assumes "0 < length ls"
  shows "set (drain (push_level x p ls)) = insert x (set (drain ls))"
    and "length (drain (push_level x p ls)) = Suc (length (drain ls))"
  using drain_push_level [OF assms, of x p] by (auto simp del: set_drain)

section \<open>Loops over a queue\<close>

text \<open>
  The shape of the updater's loops, \<^verbatim>\<open>while ((e = pq_extract_first(q, pred)))\<close>, for an
  extraction \<open>ex\<close>: the elements taken, in order, and the queue that remains.
\<close>

fun extract_loop ::
  "('q \<Rightarrow> ('a \<Rightarrow> bool) \<Rightarrow> ('a option \<times> 'q) res) \<Rightarrow> nat \<Rightarrow> ('a \<Rightarrow> bool) \<Rightarrow> 'q \<Rightarrow> ('a list \<times> 'q) res"
where
  "extract_loop ex 0 P q = Inl NonTermination"
| "extract_loop ex (Suc fuel) P q =
     rbind (ex q P) (\<lambda>(r, q'). case r of
       None \<Rightarrow> Inr ([], q')
     | Some x \<Rightarrow> rbind (extract_loop ex fuel P q') (\<lambda>(xs, q''). Inr (x # xs, q'')))"

text \<open>Emptying a queue by blocking pops, up to \<open>fuel\<close> of them, until a pop would wait.\<close>

fun pop_loop :: "('q \<Rightarrow> ('a option \<times> 'q) option res) \<Rightarrow> nat \<Rightarrow> 'q \<Rightarrow> ('a list \<times> 'q) res" where
  "pop_loop pop 0 q = Inr ([], q)"
| "pop_loop pop (Suc fuel) q =
     rbind (pop q) (\<lambda>r. case r of
       Some (Some x, q') \<Rightarrow> rbind (pop_loop pop fuel q') (\<lambda>(xs, q''). Inr (x # xs, q''))
     | _ \<Rightarrow> Inr ([], q))"

section \<open>The interface\<close>

text \<open>
  A queue as its clients see it: an invariant, the contents, whether it is closed, and the
  operations that change it.
\<close>

locale prio_queue =
  fixes inv :: "'q \<Rightarrow> bool"
    and contents :: "'q \<Rightarrow> 'a list list"
    and is_closed :: "'q \<Rightarrow> bool"
    and push :: "'q \<Rightarrow> 'a \<Rightarrow> int \<Rightarrow> 'q res"
    and extract_first :: "'q \<Rightarrow> ('a \<Rightarrow> bool) \<Rightarrow> ('a option \<times> 'q) res"
  assumes levels_pos: "inv q \<Longrightarrow> 0 < length (contents q)"
    and push_closed: "inv q \<Longrightarrow> is_closed q \<Longrightarrow>
      \<exists>q'. push q x p = Inr q' \<and> inv q' \<and> is_closed q' \<and> contents q' = contents q"
    and push_open: "inv q \<Longrightarrow> \<not> is_closed q \<Longrightarrow>
      \<exists>q'. push q x p = Inr q' \<and> inv q' \<and> \<not> is_closed q' \<and> contents q' = push_level x p (contents q)"
    and extract_none: "inv q \<Longrightarrow> extract_level P (contents q) = None \<Longrightarrow>
      extract_first q P = Inr (None, q)"
    and extract_some: "inv q \<Longrightarrow> extract_level P (contents q) = Some (x, ls) \<Longrightarrow>
      \<exists>q'. extract_first q P = Inr (Some x, q') \<and> inv q' \<and> is_closed q' = is_closed q \<and> contents q' = ls"
begin

lemma extract_total:
  assumes "inv q"
  shows "\<exists>r q'. extract_first q P = Inr (r, q') \<and> inv q' \<and> is_closed q' = is_closed q
    \<and> r = (if filter P (drain (contents q)) = [] then None else Some (hd (filter P (drain (contents q)))))
    \<and> drain (contents q') = remove_first P (drain (contents q))"
proof (cases "extract_level P (contents q)")
  case None
  then have "filter P (drain (contents q)) = []" by (simp add: extract_level_None)
  moreover have "remove_first P xs = xs" if "filter P xs = []" for xs
    using that by (induction xs) (auto split: if_splits)
  ultimately show ?thesis using extract_none [OF assms None] assms by auto
next
  case (Some r)
  obtain x ls where r: "r = (x, ls)" by (cases r)
  from Some r have "filter P (drain (contents q)) \<noteq> []" by (metis extract_level_None option.discI)
  then show ?thesis
    using extract_some [OF assms, of P x ls] extract_level_Some(1,4) [of P "contents q" x ls] Some r
    by fastforce
qed

text \<open>An element just pushed on an open queue is in it, and nothing else is lost or gained.\<close>

lemma push_set:
  assumes "inv q" and "\<not> is_closed q"
  shows "\<exists>q'. push q x p = Inr q' \<and> inv q' \<and> set (drain (contents q')) = insert x (set (drain (contents q)))
    \<and> length (drain (contents q')) = Suc (length (drain (contents q)))"
  using push_open [OF assms, of x p] set_drain_push [OF levels_pos [OF assms(1)], of x p] by fastforce

text \<open>A loop of extractions ends and takes exactly the elements that satisfy the predicate.\<close>

lemma extract_loop_correct:
  assumes "inv q" and "length (filter P (drain (contents q))) < fuel"
  shows "\<exists>q'. extract_loop extract_first fuel P q = Inr (filter P (drain (contents q)), q') \<and> inv q'
    \<and> is_closed q' = is_closed q \<and> drain (contents q') = filter (\<lambda>x. \<not> P x) (drain (contents q))"
  using assms
proof (induction fuel arbitrary: q)
  case (Suc fuel)
  let ?xs = "drain (contents q)"
  obtain q1 where ex: "extract_first q P
      = Inr (if filter P ?xs = [] then None else Some (hd (filter P ?xs)), q1)"
    and q1: "inv q1" "is_closed q1 = is_closed q" "drain (contents q1) = remove_first P ?xs"
    using extract_total [OF Suc.prems(1), of P] by auto
  show ?case
  proof (cases "filter P ?xs")
    case Nil
    then have "filter (\<lambda>x. \<not> P x) ?xs = ?xs" by (simp add: filter_empty_conv)
    moreover have "remove_first P ?xs = ?xs"
      using remove_first_filter(2) [of P ?xs] calculation
      by (metis Nil append_Nil2 holds_some_iff not_holds_some remove_first_append remove_first.simps(1))
    ultimately show ?thesis using ex q1 Nil by simp
  next
    case (Cons x ys)
    then have "length (filter P (drain (contents q1))) < fuel"
      using Suc.prems(2) q1(3) by (simp add: remove_first_filter)
    from Suc.IH [OF q1(1) this] show ?thesis
      using ex q1 Cons by (auto simp: remove_first_filter)
  qed
qed simp

end

text \<open>A queue with the blocking pop: \<open>None\<close> is a pop that waits for a push or for the closing.\<close>

locale prio_queue_pop = prio_queue inv contents is_closed push extract_first
  for inv :: "'q \<Rightarrow> bool"
    and contents :: "'q \<Rightarrow> 'a list list"
    and is_closed :: "'q \<Rightarrow> bool"
    and push :: "'q \<Rightarrow> 'a \<Rightarrow> int \<Rightarrow> 'q res"
    and extract_first :: "'q \<Rightarrow> ('a \<Rightarrow> bool) \<Rightarrow> ('a option \<times> 'q) res" +
  fixes pop :: "'q \<Rightarrow> ('a option \<times> 'q) option res"
  assumes pop_waits: "inv q \<Longrightarrow> drain (contents q) = [] \<Longrightarrow> \<not> is_closed q \<Longrightarrow> pop q = Inr None"
    and pop_closed: "inv q \<Longrightarrow> drain (contents q) = [] \<Longrightarrow> is_closed q \<Longrightarrow> pop q = Inr (Some (None, q))"
    and pop_some: "inv q \<Longrightarrow> extract_level (\<lambda>_. True) (contents q) = Some (x, ls) \<Longrightarrow>
      \<exists>q'. pop q = Inr (Some (Some x, q')) \<and> inv q' \<and> is_closed q' = is_closed q \<and> contents q' = ls"
begin

lemma pop_head:
  assumes "inv q" and "drain (contents q) = x # xs"
  shows "\<exists>q'. pop q = Inr (Some (Some x, q')) \<and> inv q' \<and> is_closed q' = is_closed q
    \<and> drain (contents q') = xs"
proof -
  have "extract_level (\<lambda>_. True) (contents q) \<noteq> None"
    using assms(2) by (simp add: extract_level_None)
  then obtain y ls where y: "extract_level (\<lambda>_. True) (contents q) = Some (y, ls)" by auto
  from extract_level_Some(1,4) [OF y] assms(2) have "y = x" "drain ls = xs" by simp_all
  with pop_some [OF assms(1) y] show ?thesis by auto
qed

text \<open>
  Repeated pops return the contents from the highest level down, each level first in first out.
\<close>

lemma pop_loop_drains:
  assumes "inv q" and "length (drain (contents q)) \<le> fuel"
  shows "\<exists>q'. pop_loop pop fuel q = Inr (drain (contents q), q') \<and> inv q' \<and> drain (contents q') = []
    \<and> is_closed q' = is_closed q"
  using assms
proof (induction fuel arbitrary: q)
  case (Suc fuel)
  show ?case
  proof (cases "drain (contents q)")
    case Nil
    then show ?thesis using Suc.prems(1) pop_waits pop_closed by (cases "is_closed q") auto
  next
    case (Cons x xs)
    from pop_head [OF Suc.prems(1) this] obtain q1 where
      "pop q = Inr (Some (Some x, q1))" "inv q1" "drain (contents q1) = xs"
      "is_closed q1 = is_closed q" by blast
    with Suc.IH [of q1] Suc.prems(2) Cons show ?thesis by auto
  qed
qed auto

end

section \<open>The queue of lists\<close>

text \<open>
  The queue the server model uses: the levels as lists. Its operations are total and keep the
  number of levels.
\<close>

record 'a lqueue =
  lq_levels :: "'a list list"
  lq_closed :: bool

definition lq_create :: "nat \<Rightarrow> 'a lqueue" where
  "lq_create n = \<lparr>lq_levels = replicate n [], lq_closed = False\<rparr>"

definition lq_close :: "'a lqueue \<Rightarrow> 'a lqueue" where
  "lq_close q = q\<lparr>lq_closed := True\<rparr>"

definition lq_push :: "'a lqueue \<Rightarrow> 'a \<Rightarrow> int \<Rightarrow> 'a lqueue" where
  "lq_push q x prio =
     (if lq_closed q then q else q\<lparr>lq_levels := push_level x prio (lq_levels q)\<rparr>)"

definition lq_extract :: "'a lqueue \<Rightarrow> ('a \<Rightarrow> bool) \<Rightarrow> 'a option \<times> 'a lqueue" where
  "lq_extract q P =
     (case extract_level P (lq_levels q) of
        None \<Rightarrow> (None, q)
      | Some (x, ls) \<Rightarrow> (Some x, q\<lparr>lq_levels := ls\<rparr>))"

definition lq_pop :: "'a lqueue \<Rightarrow> ('a option \<times> 'a lqueue) option" where
  "lq_pop q =
     (case extract_level (\<lambda>_. True) (lq_levels q) of
        Some (x, ls) \<Rightarrow> Some (Some x, q\<lparr>lq_levels := ls\<rparr>)
      | None \<Rightarrow> if lq_closed q then Some (None, q) else None)"

abbreviation lq_items :: "'a lqueue \<Rightarrow> 'a list" where
  "lq_items q \<equiv> drain (lq_levels q)"

definition lq_inv :: "'a lqueue \<Rightarrow> bool" where
  "lq_inv q \<longleftrightarrow> lq_levels q \<noteq> []"

interpretation lq: prio_queue_pop lq_inv lq_levels lq_closed
  "\<lambda>q x p. Inr (lq_push q x p)" "\<lambda>q P. Inr (lq_extract q P)" "\<lambda>q. Inr (lq_pop q)"
proof unfold_locales
  show "\<exists>q'. Inr (lq_extract q P) = Inr (Some x, q') \<and> lq_inv q' \<and> lq_closed q' = lq_closed q
      \<and> lq_levels q' = ls"
    if "lq_inv q" "extract_level P (lq_levels q) = Some (x, ls)" for q P x ls
    using that extract_level_Some(5) [OF that(2)] by (auto simp: lq_inv_def lq_extract_def)
  show "\<exists>q'. Inr (lq_pop q) = Inr (Some (Some x, q')) \<and> lq_inv q' \<and> lq_closed q' = lq_closed q
      \<and> lq_levels q' = ls"
    if "lq_inv q" "extract_level (\<lambda>_. True) (lq_levels q) = Some (x, ls)" for q x ls
    using that extract_level_Some(5) [OF that(2)] by (auto simp: lq_inv_def lq_pop_def)
qed (auto simp: lq_inv_def lq_push_def lq_extract_def lq_pop_def push_level_def Let_def
      split: option.splits dest: extract_level_Some(3) simp flip: length_greater_0_conv)

end
