(* ===== verification/Priority_Queue.thy ===== *)
theory Priority_Queue
  imports Linked_List Queue_Interface
begin

text \<open>
  The priority queue of \<^verbatim>\<open>src/priority_queue.c\<close>: an array of doubly linked lists, one per
  level, whose nodes live on a heap. Every operation follows the code; the representation
  invariant says that the levels hold disjoint, well-linked lists, that the heap holds exactly
  their nodes (nothing leaks) and that \<open>size\<close> counts them. The theory ends with the
  interpretation of the queue interface on these operations.

  A call runs between the lock and the unlock of the queue's own mutex, so it is one step; a
  pop that would wait on \<^verbatim>\<open>not_empty\<close> is the result \<open>None\<close>. The field \<open>wakeups\<close> counts the
  signals and broadcasts sent on that condition.
\<close>

section \<open>State and operations\<close>

record 'a pq =
  nodes :: "'a heap"
  brk :: addr
  levels :: int
  lists :: "dlist list"
  pq_size :: int
  closed :: bool
  wakeups :: nat

text \<open>
  \<^verbatim>\<open>malloc\<close> returns an address that is not in use: \<open>brk\<close> is above every address ever handed
  out. The number of levels is an \<^verbatim>\<open>int\<close>; a negative one becomes a huge \<^verbatim>\<open>size_t\<close>, the
  \<^verbatim>\<open>calloc\<close> fails and the process exits.
\<close>

definition pq_create :: "int \<Rightarrow> 'a pq option res" where
  "pq_create lvls =
    (if lvls = 0 then Inr None
     else if lvls < 0 then Inl ProcessExit
     else Inr (Some \<lparr>nodes = Map.empty, brk = 0, levels = lvls,
       lists = replicate (nat lvls) \<lparr>head = None, tail = None, lcount = 0\<rparr>,
       pq_size = 0, closed = False, wakeups = 0\<rparr>))"

definition pq_close :: "'a pq option \<Rightarrow> 'a pq option" where
  "pq_close q = map_option (\<lambda>q. q\<lparr>closed := True, wakeups := wakeups q + 1\<rparr>) q"

definition nth_list :: "dlist list \<Rightarrow> int \<Rightarrow> dlist res" where
  "nth_list ls i = (if 0 \<le> i \<and> i < int (length ls) then Inr (ls ! nat i) else Inl OutOfBounds)"

definition pq_push :: "'a pq option \<Rightarrow> 'a \<Rightarrow> int \<Rightarrow> 'a pq option res" where
  "pq_push qp x prio =
    (case qp of
       None \<Rightarrow> Inr None
     | Some q \<Rightarrow>
         let n = brk q;
             h = (nodes q)(n \<mapsto> \<lparr>prev = None, nxt = None, item = x\<rparr>)
         in if closed q
            then Inr (Some (q\<lparr>nodes := h(n := None), brk := n + 1\<rparr>))
            else
              let prio1 = (if prio \<ge> levels q then levels q - 1 else prio);
                  prio2 = (if prio1 < 0 then 0 else prio1)
              in rbind (nth_list (lists q) prio2) (\<lambda>l.
                 rbind (list_push_back h l n) (\<lambda>(h1, l1).
                 Inr (Some (q\<lparr>nodes := h1, brk := n + 1, lists := (lists q)[nat prio2 := l1],
                   pq_size := pq_size q + 1, wakeups := wakeups q + 1\<rparr>)))))"

text \<open>The loop \<^verbatim>\<open>for(int i = q->levels - 1; i >= 0; --i)\<close> of the two pops, from level \<open>i - 1\<close> down.\<close>

fun pop_from_top :: "nat \<Rightarrow> 'a heap \<Rightarrow> dlist list \<Rightarrow> (addr option \<times> 'a heap \<times> dlist list) res" where
  "pop_from_top 0 h ls = Inr (None, h, ls)"
| "pop_from_top (Suc i) h ls =
     rbind (nth_list ls (int i)) (\<lambda>l.
     rbind (list_pop_front h l) (\<lambda>(n, h1, l1).
       case n of
         None \<Rightarrow> pop_from_top i h1 (ls[i := l1])
       | Some a \<Rightarrow> Inr (Some a, h1, ls[i := l1])))"

text \<open>What both pops do once the queue is known to hold something.\<close>

definition pq_take :: "'a pq \<Rightarrow> ('a \<times> 'a pq) res" where
  "pq_take q =
     rbind (pop_from_top (nat (levels q)) (nodes q) (lists q)) (\<lambda>(n, h, ls).
       case n of
         None \<Rightarrow> Inl NullDereference
       | Some a \<Rightarrow> rbind (load h a) (\<lambda>nd.
           Inr (item nd, q\<lparr>nodes := h(a := None), lists := ls, pq_size := pq_size q - 1\<rparr>)))"

definition pq_pop :: "'a pq option \<Rightarrow> ('a option \<times> 'a pq option) option res" where
  "pq_pop qp =
    (case qp of
       None \<Rightarrow> Inr (Some (None, None))
     | Some q \<Rightarrow>
         if pq_size q = 0 \<and> \<not> closed q then Inr None
         else if pq_size q = 0 \<and> closed q then Inr (Some (None, Some q))
         else rbind (pq_take q) (\<lambda>(x, q'). Inr (Some (Some x, Some q'))))"

definition pq_try_pop :: "'a pq option \<Rightarrow> ('a option \<times> 'a pq option) res" where
  "pq_try_pop qp =
    (case qp of
       None \<Rightarrow> Inr (None, None)
     | Some q \<Rightarrow>
         if pq_size q = 0 then Inr (None, Some q)
         else rbind (pq_take q) (\<lambda>(x, q'). Inr (Some x, Some q')))"

text \<open>
  The walk \<^verbatim>\<open>for(node_t* n = q->lists[i].head; n; n = n->next)\<close> to the first node whose item
  satisfies the predicate; on a cyclic list it would not end.
\<close>

partial_function (option) find_node ::
  "('a \<Rightarrow> bool) \<Rightarrow> 'a heap \<Rightarrow> addr option \<Rightarrow> addr option res option" where
  "find_node P h x =
     (case x of
        None \<Rightarrow> Some (Inr None)
      | Some a \<Rightarrow>
          (case h a of
             None \<Rightarrow> Some (Inl InvalidPointer)
           | Some n \<Rightarrow> if P (item n) then Some (Inr (Some a)) else find_node P h (nxt n)))"

declare find_node.simps [code]

definition or_diverges :: "'a res option \<Rightarrow> 'a res" where
  "or_diverges r = (case r of None \<Rightarrow> Inl NonTermination | Some x \<Rightarrow> x)"

fun extract_from_top ::
  "('a \<Rightarrow> bool) \<Rightarrow> nat \<Rightarrow> 'a pq \<Rightarrow> ('a option \<times> 'a pq) res" where
  "extract_from_top P 0 q = Inr (None, q)"
| "extract_from_top P (Suc i) q =
     rbind (nth_list (lists q) (int i)) (\<lambda>l.
     rbind (or_diverges (find_node P (nodes q) (head l))) (\<lambda>n.
       case n of
         None \<Rightarrow> extract_from_top P i q
       | Some a \<Rightarrow>
           rbind (load (nodes q) a) (\<lambda>nd.
           rbind (list_remove_node (nodes q) l (Some a)) (\<lambda>(h1, l1).
           Inr (Some (item nd), q\<lparr>nodes := h1(a := None), lists := (lists q)[i := l1],
             pq_size := pq_size q - 1\<rparr>)))))"

definition pq_extract_first ::
  "'a pq option \<Rightarrow> ('a \<Rightarrow> bool) option \<Rightarrow> ('a option \<times> 'a pq option) res" where
  "pq_extract_first qp pred =
    (case (qp, pred) of
       (Some q, Some P) \<Rightarrow>
         rbind (extract_from_top P (nat (levels q)) q) (\<lambda>(r, q'). Inr (r, Some q'))
     | _ \<Rightarrow> Inr (None, qp))"

text \<open>
  \<open>pq_map\<close> calls its function on every item, lowest level first; the function's effect is a
  state transformer on whatever it changes.
\<close>

partial_function (option) map_nodes ::
  "('a \<Rightarrow> 's \<Rightarrow> 's) \<Rightarrow> 'a heap \<Rightarrow> addr option \<Rightarrow> 's \<Rightarrow> 's res option" where
  "map_nodes fn h x s =
     (case x of
        None \<Rightarrow> Some (Inr s)
      | Some a \<Rightarrow>
          (case h a of
             None \<Rightarrow> Some (Inl InvalidPointer)
           | Some n \<Rightarrow> map_nodes fn h (nxt n) (fn (item n) s)))"

declare map_nodes.simps [code]

definition pq_map :: "'a pq option \<Rightarrow> ('a \<Rightarrow> 's \<Rightarrow> 's) option \<Rightarrow> 's \<Rightarrow> 's res" where
  "pq_map qp fn s =
    (case (qp, fn) of
       (Some q, Some f) \<Rightarrow>
         rfold (\<lambda>i s. rbind (nth_list (lists q) (int i)) (\<lambda>l.
             or_diverges (map_nodes f (nodes q) (head l) s))) [0..<nat (levels q)] s
     | _ \<Rightarrow> Inr s)"

text \<open>\<open>pq_destroy\<close> frees every node of every level; the heap that remains is the result.\<close>

partial_function (option) free_nodes :: "'a heap \<Rightarrow> addr option \<Rightarrow> 'a heap res option" where
  "free_nodes h x =
     (case x of
        None \<Rightarrow> Some (Inr h)
      | Some a \<Rightarrow>
          (case h a of
             None \<Rightarrow> Some (Inl InvalidPointer)
           | Some n \<Rightarrow> free_nodes (h(a := None)) (nxt n)))"

declare free_nodes.simps [code]

definition pq_destroy :: "'a pq option \<Rightarrow> 'a heap option res" where
  "pq_destroy qp =
    (case qp of
       None \<Rightarrow> Inr None
     | Some q \<Rightarrow>
         rbind (rfold (\<lambda>i h. rbind (nth_list (lists q) (int i)) (\<lambda>l.
             or_diverges (free_nodes h (head l)))) [0..<nat (levels q)] (nodes q))
           (\<lambda>h. Inr (Some h)))"

section \<open>The representation invariant\<close>

text \<open>\<open>pq_rep q ass\<close>: level \<open>i\<close> of \<open>q\<close> is the list of the nodes \<open>ass ! i\<close>.\<close>

definition pq_rep :: "'a pq \<Rightarrow> addr list list \<Rightarrow> bool" where
  "pq_rep q ass \<longleftrightarrow>
     levels q = int (length (lists q)) \<and> length ass = length (lists q) \<and> 0 < length ass \<and>
     (\<forall>i < length ass. is_dlist (nodes q) (lists q ! i) (ass ! i)) \<and>
     (\<forall>i < length ass. \<forall>j < length ass. i \<noteq> j \<longrightarrow> set (ass ! i) \<inter> set (ass ! j) = {}) \<and>
     dom (nodes q) = (\<Union>i < length ass. set (ass ! i)) \<and>
     (\<forall>a \<in> dom (nodes q). a < brk q) \<and>
     pq_size q = int (sum_list (map length ass))"

text \<open>The nodes of a level, read off the heap by following \<open>next\<close> as often as \<open>count\<close> says.\<close>

fun level_nodes :: "'a heap \<Rightarrow> nat \<Rightarrow> addr option \<Rightarrow> addr list" where
  "level_nodes h 0 x = []"
| "level_nodes h (Suc k) None = []"
| "level_nodes h (Suc k) (Some a) =
     a # level_nodes h k (case h a of None \<Rightarrow> None | Some n \<Rightarrow> nxt n)"

definition pq_nodes :: "'a pq \<Rightarrow> addr list list" where
  "pq_nodes q = map (\<lambda>l. level_nodes (nodes q) (nat (lcount l)) (head l)) (lists q)"

definition pq_inv :: "'a pq option \<Rightarrow> bool" where
  "pq_inv qp \<longleftrightarrow> (case qp of None \<Rightarrow> False | Some q \<Rightarrow> pq_rep q (pq_nodes q))"

text \<open>The abstraction: the items of the levels.\<close>

definition pq_contents :: "'a pq option \<Rightarrow> 'a list list" where
  "pq_contents qp = (case qp of None \<Rightarrow> [] | Some q \<Rightarrow> map (items (nodes q)) (pq_nodes q))"

definition pq_closed :: "'a pq option \<Rightarrow> bool" where
  "pq_closed qp \<longleftrightarrow> (case qp of None \<Rightarrow> False | Some q \<Rightarrow> closed q)"

lemma level_nodes_path:
  "dpath h p x as None l \<Longrightarrow> level_nodes h (length as) x = as"
  by (induction as arbitrary: p x) (auto split: option.splits)

lemma pq_rep_nodes: "pq_rep q ass \<Longrightarrow> pq_nodes q = ass"
  by (rule nth_equalityI) (auto simp: pq_nodes_def pq_rep_def is_dlist_def intro: level_nodes_path)

lemma pq_inv_Some: "pq_inv (Some q) \<longleftrightarrow> (\<exists>ass. pq_rep q ass)"
  by (auto simp: pq_inv_def dest: pq_rep_nodes)

lemma pq_contents_rep: "pq_rep q ass \<Longrightarrow> pq_contents (Some q) = map (items (nodes q)) ass"
  by (simp add: pq_contents_def pq_rep_nodes)

section \<open>Changing one level\<close>

lemma pq_repD:
  assumes "pq_rep q ass"
  shows "levels q = int (length (lists q))" "length ass = length (lists q)" "0 < length ass"
    and "\<And>i. i < length ass \<Longrightarrow> is_dlist (nodes q) (lists q ! i) (ass ! i)"
    and "\<And>i j. i < length ass \<Longrightarrow> j < length ass \<Longrightarrow> i \<noteq> j \<Longrightarrow> set (ass ! i) \<inter> set (ass ! j) = {}"
    and "dom (nodes q) = (\<Union>i < length ass. set (ass ! i))"
    and "\<And>a. a \<in> dom (nodes q) \<Longrightarrow> a < brk q"
    and "pq_size q = int (sum_list (map length ass))"
  using assms unfolding pq_rep_def by blast+

lemma pq_rep_level_dom: "pq_rep q ass \<Longrightarrow> i < length ass \<Longrightarrow> set (ass ! i) \<subseteq> dom (nodes q)"
  by (auto simp: pq_repD(6))

text \<open>
  An operation that replaces the nodes \<open>ass ! i\<close> of one level by \<open>bs\<close>, taking new nodes from
  free addresses and touching no other level, keeps the representation.
\<close>

lemma pq_rep_update:
  assumes rep: "pq_rep q ass" and i: "i < length ass"
    and d: "is_dlist (nodes q') l' bs"
    and frame: "\<And>a. a \<notin> set (ass ! i) \<Longrightarrow> a \<notin> set bs \<Longrightarrow> nodes q' a = nodes q a"
    and dom': "dom (nodes q') = dom (nodes q) - set (ass ! i) \<union> set bs"
    and new: "\<And>a. a \<in> set bs \<Longrightarrow> a \<in> set (ass ! i) \<or> a \<notin> dom (nodes q)"
    and brk': "brk q \<le> brk q'" "\<And>a. a \<in> set bs \<Longrightarrow> a < brk q'"
    and fields: "levels q' = levels q" "lists q' = (lists q)[i := l']"
      "pq_size q' + int (length (ass ! i)) = pq_size q + int (length bs)"
  shows "pq_rep q' (ass[i := bs]) \<and> map (items (nodes q')) (ass[i := bs])
       = (map (items (nodes q)) ass)[i := items (nodes q') bs]"
proof
  note r = pq_repD [OF rep]
  have other: "nodes q' a = nodes q a" if "a \<in> set (ass ! j)" "j < length ass" "j \<noteq> i" for a j
  proof -
    have "a \<notin> set (ass ! i)" using r(5) [OF that(2) i that(3)] that(1) by blast
    moreover have "a \<in> dom (nodes q)" using that pq_rep_level_dom [OF rep] by blast
    ultimately show ?thesis using new frame by blast
  qed
  have path: "is_dlist (nodes q') (lists q ! j) (ass ! j)" if "j < length ass" "j \<noteq> i" for j
  proof -
    have "dpath (nodes q') p x cs y l = dpath (nodes q) p x cs y l"
      if "\<And>a. a \<in> set cs \<Longrightarrow> nodes q' a = nodes q a" for p x cs y l
      using that by (induction cs arbitrary: p x) (auto split: option.splits)
    then show ?thesis using other [OF _ that] r(4) [OF that(1)] unfolding is_dlist_def by metis
  qed
  have disj: "set (ass[i := bs] ! j) \<inter> set (ass[i := bs] ! k) = {}"
    if "j < length ass" "k < length ass" "j \<noteq> k" for j k
  proof -
    have "set bs \<inter> set (ass ! m) = {}" if "m < length ass" "m \<noteq> i" for m
      using new r(5) [OF i that(1)] that pq_rep_level_dom [OF rep that(1)] by blast
    then show ?thesis using that r(5) [OF that] by (cases "j = i"; cases "k = i") auto
  qed
  have "dom (nodes q') = (\<Union>j < length ass. set (ass[i := bs] ! j))" (is "_ = ?U")
  proof -
    have "?U = set bs \<union> (\<Union>j \<in> {..<length ass} - {i}. set (ass ! j))"
      using i by (auto simp: nth_list_update split: if_splits)
    moreover have "(\<Union>j \<in> {..<length ass} - {i}. set (ass ! j)) = dom (nodes q) - set (ass ! i)"
    proof (intro equalityI subsetI)
      fix a assume "a \<in> (\<Union>j \<in> {..<length ass} - {i}. set (ass ! j))"
      then obtain j where "j < length ass" "j \<noteq> i" "a \<in> set (ass ! j)" by auto
      then show "a \<in> dom (nodes q) - set (ass ! i)"
        using r(5) [of j i] i pq_rep_level_dom [OF rep, of j] by blast
    next
      fix a assume "a \<in> dom (nodes q) - set (ass ! i)"
      then show "a \<in> (\<Union>j \<in> {..<length ass} - {i}. set (ass ! j))"
        by (auto simp: r(6))
    qed
    ultimately show ?thesis using dom' by (simp add: Un_commute)
  qed
  moreover have "\<forall>a \<in> dom (nodes q'). a < brk q'"
    using dom' r(7) brk' by (auto intro: less_le_trans)
  moreover have "pq_size q' = int (sum_list (map length (ass[i := bs])))"
  proof -
    have "sum_list (map length (ass[i := bs])) + length (ass ! i) = sum_list (map length ass) + length bs"
      using i elem_le_sum_list [of i "map length ass"] by (simp add: map_update sum_list_update)
    then show ?thesis using fields(3) r(8) by linarith
  qed
  moreover have "is_dlist (nodes q') (lists q' ! j) (ass[i := bs] ! j)" if "j < length ass" for j
    using that d path r(2) fields(2) by (cases "j = i") auto
  ultimately show "pq_rep q' (ass[i := bs])"
    using r(1-3) fields disj by (simp add: pq_rep_def)
  show "map (items (nodes q')) (ass[i := bs]) = (map (items (nodes q)) ass)[i := items (nodes q') bs]"
  proof (rule nth_equalityI)
    fix j assume "j < length (map (items (nodes q')) (ass[i := bs]))"
    then have j: "j < length ass" by simp
    have "items (nodes q') (ass ! j) = items (nodes q) (ass ! j)" if "j \<noteq> i"
      using other [OF _ j that] by (simp add: items_def)
    then show "map (items (nodes q')) (ass[i := bs]) ! j
        = (map (items (nodes q)) ass)[i := items (nodes q') bs] ! j"
      using j i by (cases "j = i") auto
  qed simp
qed

section \<open>Every operation implements its abstract counterpart\<close>

lemma nth_list_in: "i < length ls \<Longrightarrow> nth_list ls (int i) = Inr (ls ! i)"
  by (simp add: nth_list_def)

lemma clamped_prio:
  assumes "0 < n"
  shows "(let prio1 = (if prio \<ge> int n then int n - 1 else prio);
              prio2 = (if prio1 < 0 then 0 else prio1) in prio2) = int (clamp_level prio n)"
  using assms by (auto simp: clamp_level_def Let_def)

lemma pq_push_closed:
  assumes "pq_rep q ass" and "closed q"
  shows "\<exists>q'. pq_push (Some q) x prio = Inr (Some q') \<and> pq_rep q' ass \<and> closed q'
    \<and> nodes q' = nodes q \<and> wakeups q' = wakeups q"
proof -
  let ?q = "q\<lparr>nodes := (nodes q)(brk q := None), brk := brk q + 1\<rparr>"
  have "brk q \<notin> dom (nodes q)" using pq_repD(7) [OF assms(1)] by blast
  then have "(nodes q)(brk q := None) = nodes q" by (auto simp: fun_eq_iff)
  then have "pq_rep ?q ass" using assms(1) by (auto simp: pq_rep_def intro: less_SucI)
  then show ?thesis
    using assms(2) \<open>(nodes q)(brk q := None) = nodes q\<close> by (simp add: pq_push_def Let_def)
qed

lemma pq_push_open:
  assumes rep: "pq_rep q ass" and "\<not> closed q"
  shows "\<exists>q' ass'. pq_push (Some q) x prio = Inr (Some q') \<and> pq_rep q' ass' \<and> \<not> closed q'
    \<and> map (items (nodes q')) ass' = push_level x prio (map (items (nodes q)) ass)
    \<and> wakeups q' = wakeups q + 1 \<and> pq_size q' = pq_size q + 1"
proof -
  note r = pq_repD [OF rep]
  let ?k = "clamp_level prio (length ass)" and ?n = "brk q"
  let ?h = "(nodes q)(?n \<mapsto> \<lparr>prev = None, nxt = None, item = x\<rparr>)"
  have k: "?k < length ass" using clamp_level_less [OF r(3)] .
  have fresh: "?n \<notin> dom (nodes q)" using r(7) by blast
  have nk: "?n \<notin> set (ass ! ?k)" using fresh pq_rep_level_dom [OF rep k] by blast
  have "is_dlist ?h (lists q ! ?k) (ass ! ?k)"
    using r(4) [OF k] nk by (simp add: is_dlist_def dpath_frame)
  from list_push_back_correct [OF this _ nk] obtain h1 l1 where
    push: "list_push_back ?h (lists q ! ?k) ?n = Inr (h1, l1)" and d: "is_dlist h1 l1 (ass ! ?k @ [?n])"
    and lo: "links_only (insert ?n (set (ass ! ?k))) ?h h1" by auto
  let ?q = "q\<lparr>nodes := h1, brk := ?n + 1, lists := (lists q)[?k := l1],
      pq_size := pq_size q + 1, wakeups := wakeups q + 1\<rparr>"
  have lv: "levels q = int (length ass)" using r(1,2) by simp
  have cl: "(if (if levels q \<le> prio then levels q - 1 else prio) < 0 then 0
      else if levels q \<le> prio then levels q - 1 else prio) = int ?k"
    using clamped_prio [OF r(3), of prio] unfolding lv Let_def .
  have ret: "pq_push (Some q) x prio = Inr (Some ?q)"
    using assms(2) push k r(2) unfolding pq_push_def Let_def option.case cl
    by (simp add: nth_list_in)
  have dom: "dom h1 = insert ?n (dom (nodes q))" using links_only_dom [OF lo] by simp
  have upd: "pq_rep ?q (ass[?k := ass ! ?k @ [?n]])
    \<and> map (items (nodes ?q)) (ass[?k := ass ! ?k @ [?n]])
      = (map (items (nodes q)) ass)[?k := items (nodes ?q) (ass ! ?k @ [?n])]"
  proof (rule pq_rep_update [OF rep k])
    show "is_dlist (nodes ?q) l1 (ass ! ?k @ [?n])" using d by simp
  qed (use lo dom fresh pq_rep_level_dom [OF rep k] r(7) in
      \<open>auto simp: links_only_def less_Suc_eq subset_iff\<close>)
  have "items h1 (ass ! ?k @ [?n]) = items ?h (ass ! ?k @ [?n])"
    by (rule links_only_items [OF lo]) (use pq_rep_level_dom [OF rep k] in auto)
  also have "\<dots> = items (nodes q) (ass ! ?k) @ [x]" using nk by (simp add: items_frame)
  finally have "map (items (nodes ?q)) (ass[?k := ass ! ?k @ [?n]])
      = push_level x prio (map (items (nodes q)) ass)"
    using upd k by (simp add: push_level_def Let_def)
  then show ?thesis using ret upd assms(2) by (intro exI [of _ ?q] exI) auto
qed

text \<open>Taking one node out of level \<open>k\<close>, which the pops and the extraction have in common.\<close>

lemma pq_rep_take:
  assumes rep: "pq_rep q ass" and k: "k < length ass" and split: "ass ! k = xs @ a # ys"
    and d: "is_dlist h l (xs @ ys)" and lo: "links_only (set (ass ! k)) (nodes q) h"
    and ha: "a \<notin> set (xs @ ys)"
    and q': "q' = q\<lparr>nodes := h(a := None), lists := (lists q)[k := l], pq_size := pq_size q - 1\<rparr>"
  shows "pq_rep q' (ass[k := xs @ ys])"
    and "map (items (nodes q')) (ass[k := xs @ ys])
       = (map (items (nodes q)) ass)[k := items (nodes q) xs @ items (nodes q) ys]"
proof -
  have sub: "set (ass ! k) \<subseteq> dom (nodes q)" by (rule pq_rep_level_dom [OF rep k])
  have d': "is_dlist (nodes q') l (xs @ ys)"
    using d ha q' by (simp add: is_dlist_def dpath_frame)
  have dom: "dom h = dom (nodes q)" by (rule links_only_dom [OF lo])
  have eq: "set (ass ! k) = insert a (set (xs @ ys))" using split by auto
  have upd: "pq_rep q' (ass[k := xs @ ys]) \<and> map (items (nodes q')) (ass[k := xs @ ys])
      = (map (items (nodes q)) ass)[k := items (nodes q') (xs @ ys)]"
  proof (rule pq_rep_update [OF rep k d'])
    show "nodes q' b = nodes q b" if "b \<notin> set (ass ! k)" for b
      using lo that q' eq by (auto simp: links_only_def)
    show "b < brk q'" if "b \<in> set (xs @ ys)" for b
    proof -
      have "b \<in> dom (nodes q)" using that eq sub by auto
      then show ?thesis using pq_repD(7) [OF rep] q' by simp
    qed
  qed (use dom ha eq sub q' split in auto)
  have "items (nodes q') (xs @ ys) = items h (xs @ ys)" using ha q' by (simp add: items_frame)
  also have "\<dots> = items (nodes q) (xs @ ys)"
    by (rule links_only_items [OF lo]) (use eq sub in auto)
  finally show "map (items (nodes q')) (ass[k := xs @ ys])
       = (map (items (nodes q)) ass)[k := items (nodes q) xs @ items (nodes q) ys]"
    using upd by simp
  show "pq_rep q' (ass[k := xs @ ys])" using upd by simp
qed

lemma pop_from_top_correct:
  assumes rep: "pq_rep q ass" and "i \<le> length ass"
  shows "case top_level (\<lambda>l. l \<noteq> []) i ass of
      None \<Rightarrow> pop_from_top i (nodes q) (lists q) = Inr (None, nodes q, lists q)
    | Some k \<Rightarrow> \<exists>a as h l. ass ! k = a # as
        \<and> pop_from_top i (nodes q) (lists q) = Inr (Some a, h, (lists q)[k := l])
        \<and> is_dlist h l as \<and> links_only (set as) (nodes q) h"
  using assms(2)
proof (induction i)
  case (Suc i)
  then have i: "i < length ass" "i < length (lists q)" using pq_repD(2) [OF rep] by auto
  note d = pq_repD(4) [OF rep i(1)]
  show ?case
  proof (cases "ass ! i")
    case Nil
    then have "list_pop_front (nodes q) (lists q ! i) = Inr (None, nodes q, lists q ! i)"
      using d list_pop_front_Nil by simp
    then have step: "pop_from_top (Suc i) (nodes q) (lists q) = pop_from_top i (nodes q) (lists q)"
      using i by (simp add: nth_list_in)
    have top: "top_level (\<lambda>l. l \<noteq> []) (Suc i) ass = top_level (\<lambda>l. l \<noteq> []) i ass"
      using Nil by simp
    show ?thesis unfolding step top using Suc.IH i(1) by simp
  next
    case (Cons a as)
    from list_pop_front_Cons [of "nodes q" "lists q ! i" a as] d Cons obtain h l where
      "list_pop_front (nodes q) (lists q ! i) = Inr (Some a, h, l)" "is_dlist h l as"
      "links_only (set as) (nodes q) h" by auto
    then show ?thesis using i Cons by (auto simp: nth_list_in)
  qed
qed simp

lemma pq_take_correct:
  assumes rep: "pq_rep q ass" and ne: "top_level (\<lambda>l. l \<noteq> []) (length ass) ass = Some k"
  shows "\<exists>q' ass'. pq_take q = Inr (hd (items (nodes q) (ass ! k)), q') \<and> pq_rep q' ass'
    \<and> closed q' = closed q \<and> wakeups q' = wakeups q \<and> pq_size q' = pq_size q - 1
    \<and> map (items (nodes q')) ass' = (map (items (nodes q)) ass)[k := tl (items (nodes q) (ass ! k))]"
proof -
  have k: "k < length ass" using ne by (simp add: top_level_Some)
  from pop_from_top_correct [OF rep order_refl] ne obtain a as h l where
    split: "ass ! k = a # as"
    and pop: "pop_from_top (length ass) (nodes q) (lists q) = Inr (Some a, h, (lists q)[k := l])"
    and d: "is_dlist h l as" and lo: "links_only (set as) (nodes q) h" by auto
  have dist: "a \<notin> set as" using pq_repD(4) [OF rep k] split by (simp add: is_dlist_def)
  have a: "a \<in> dom (nodes q)" using pq_rep_level_dom [OF rep k] split by auto
  have ha: "h a = nodes q a" using lo dist by (simp add: links_only_def)
  let ?q = "q\<lparr>nodes := h(a := None), lists := (lists q)[k := l], pq_size := pq_size q - 1\<rparr>"
  have lo': "links_only (set (ass ! k)) (nodes q) h"
    by (rule links_only_mono [OF lo]) (use split in auto)
  have "pq_take q = Inr (hd (items (nodes q) (ass ! k)), ?q)"
    using pop a ha split pq_repD(1,2) [OF rep] by (auto simp: pq_take_def)
  moreover note pq_rep_take [OF rep k, of "[]" a as h l ?q]
  ultimately show ?thesis using split d lo' dist
    by (intro exI [of _ ?q] exI [of _ "ass[k := as]"]) auto
qed

text \<open>The walk over one level ends and finds the first node with a suitable item.\<close>

lemma find_node_path:
  assumes "dpath h p x as None l"
  shows "find_node P h x = Some (Inr (find (\<lambda>a. P (item (the (h a)))) as))"
  using assms
proof (induction as arbitrary: p x)
  case Nil
  then show ?case by (simp add: find_node.simps)
next
  case (Cons a as)
  then obtain n where "x = Some a" "h a = Some n" "dpath h (Some a) (nxt n) as None l"
    by (auto split: option.splits)
  then show ?case using Cons.IH by (subst find_node.simps) simp
qed

lemma find_split:
  "find f as = Some a \<Longrightarrow> \<exists>xs ys. as = xs @ a # ys \<and> f a \<and> (\<forall>x \<in> set xs. \<not> f x)"
  by (induction as) (auto split: if_splits intro: exI [of _ "[]"], metis Cons_eq_appendI set_ConsD)

lemma find_holds_some:
  "find (\<lambda>a. P (item (the (h a)))) as = None \<longleftrightarrow> \<not> holds_some P (items h as)"
  by (auto simp: find_None_iff holds_some_iff items_def)

lemma first_item_split:
  assumes "\<forall>x \<in> set xs. \<not> P (item (the (h x)))" and "P (item (the (h a)))"
  shows "hd (filter P (items h (xs @ a # ys))) = item (the (h a))"
    and "remove_first P (items h (xs @ a # ys)) = items h xs @ items h ys"
  using assms by (induction xs) auto

lemma extract_from_top_correct:
  assumes rep: "pq_rep q ass" and "i \<le> length ass"
  shows "case top_level (holds_some P) i (map (items (nodes q)) ass) of
      None \<Rightarrow> extract_from_top P i q = Inr (None, q)
    | Some k \<Rightarrow> \<exists>q' ass'.
        extract_from_top P i q = Inr (Some (hd (filter P (items (nodes q) (ass ! k)))), q')
        \<and> pq_rep q' ass' \<and> closed q' = closed q \<and> wakeups q' = wakeups q
        \<and> map (items (nodes q')) ass'
            = (map (items (nodes q)) ass)[k := remove_first P (items (nodes q) (ass ! k))]"
  using assms(2)
proof (induction i)
  case (Suc i)
  then have i: "i < length ass" "i < length (lists q)" using pq_repD(2) [OF rep] by auto
  note d = pq_repD(4) [OF rep i(1)]
  have fn: "find_node P (nodes q) (head (lists q ! i))
      = Some (Inr (find (\<lambda>a. P (item (the (nodes q a)))) (ass ! i)))"
    using d find_node_path unfolding is_dlist_def by blast
  show ?case
  proof (cases "find (\<lambda>a. P (item (the (nodes q a)))) (ass ! i)")
    case None
    then have step: "extract_from_top P (Suc i) q = extract_from_top P i q"
      using i fn by (simp add: nth_list_in or_diverges_def)
    have top: "top_level (holds_some P) (Suc i) (map (items (nodes q)) ass)
        = top_level (holds_some P) i (map (items (nodes q)) ass)"
    proof -
      have "\<not> holds_some P (items (nodes q) (ass ! i))" using None find_holds_some by blast
      then show ?thesis using i(1) by simp
    qed
    show ?thesis unfolding step top using Suc.IH i(1) by simp
  next
    case (Some a)
    then have hs: "holds_some P (items (nodes q) (ass ! i))"
      using find_holds_some by (metis option.distinct(1))
    from find_split [OF Some] obtain xs ys where split: "ass ! i = xs @ a # ys"
      and P: "P (item (the (nodes q a)))" "\<forall>x \<in> set xs. \<not> P (item (the (nodes q x)))" by blast
    from list_remove_node_correct [of "nodes q" "lists q ! i" xs a ys] d split obtain h l where
      rm: "list_remove_node (nodes q) (lists q ! i) (Some a) = Inr (h, l)" "is_dlist h l (xs @ ys)"
      and lo: "links_only (set xs \<union> set ys) (nodes q) h" by auto
    have lo': "links_only (set (ass ! i)) (nodes q) h"
      by (rule links_only_mono [OF lo]) (use split in auto)
    have dist: "a \<notin> set (xs @ ys)" using d split by (auto simp: is_dlist_def)
    obtain nd where nd: "nodes q a = Some nd"
      using pq_rep_level_dom [OF rep i(1)] split by auto
    let ?q = "q\<lparr>nodes := h(a := None), lists := (lists q)[i := l], pq_size := pq_size q - 1\<rparr>"
    note taken = pq_rep_take [OF rep i(1) split rm(2) lo' dist, of ?q]
    have "extract_from_top P (Suc i) q = Inr (Some (item nd), ?q)"
      using i fn Some rm(1) nd by (simp add: nth_list_in or_diverges_def)
    moreover have "item nd = hd (filter P (items (nodes q) (ass ! i)))"
      using first_item_split(1) [OF P(2,1)] split nd by simp
    moreover have "items (nodes q) xs @ items (nodes q) ys = remove_first P (items (nodes q) (ass ! i))"
      using first_item_split(2) [OF P(2,1)] split by simp
    ultimately show ?thesis using taken i hs by auto
  qed
qed simp

text \<open>\<open>pq_map\<close> is a fold over the items, lowest level first, and never fails.\<close>

lemma map_nodes_path:
  assumes "dpath h p x as None l"
  shows "map_nodes f h x s = Some (Inr (fold f (items h as) s))"
  using assms
proof (induction as arbitrary: p x s)
  case Nil
  then show ?case by (simp add: map_nodes.simps)
next
  case (Cons a as)
  then obtain n where "x = Some a" "h a = Some n" "dpath h (Some a) (nxt n) as None l"
    by (auto split: option.splits)
  then show ?case using Cons.IH by (subst map_nodes.simps) simp
qed

lemma rfold_levels:
  assumes "\<And>i s. i < n \<Longrightarrow> g i s = Inr (fold f (xss ! i) s)" and "length xss = n"
  shows "rfold g [0..<n] s = Inr (fold f (concat xss) s)"
  using assms
proof (induction n arbitrary: xss)
  case (Suc n)
  then obtain ys y where xss: "xss = ys @ [y]" by (cases xss rule: rev_cases) auto
  with Suc.prems have "rfold g [0..<n] s = Inr (fold f (concat ys) s)"
    by (intro Suc.IH) (auto simp: nth_append)
  then show ?case using Suc.prems(1) [of n "fold f (concat ys) s"] Suc.prems(2) xss
    by (simp add: rfold_append nth_append)
qed simp

lemma pq_map_rep:
  assumes rep: "pq_rep q ass"
  shows "pq_map (Some q) (Some f) s = Inr (fold f (concat (map (items (nodes q)) ass)) s)"
proof -
  have "rfold (\<lambda>i s. rbind (nth_list (lists q) (int i)) (\<lambda>l.
      or_diverges (map_nodes f (nodes q) (head l) s))) [0..<length ass] s
      = Inr (fold f (concat (map (items (nodes q)) ass)) s)"
  proof (rule rfold_levels)
    fix i s assume i: "i < length ass"
    have "map_nodes f (nodes q) (head (lists q ! i)) s = Some (Inr (fold f (items (nodes q) (ass ! i)) s))"
    proof -
      have "dpath (nodes q) None (head (lists q ! i)) (ass ! i) None (tail (lists q ! i))"
        using pq_repD(4) [OF rep i] by (simp add: is_dlist_def)
      then show ?thesis by (rule map_nodes_path)
    qed
    then show "rbind (nth_list (lists q) (int i)) (\<lambda>l. or_diverges (map_nodes f (nodes q) (head l) s))
        = Inr (fold f (map (items (nodes q)) ass ! i) s)"
      using i pq_repD(2) [OF rep] by (simp add: nth_list_in or_diverges_def)
  qed simp
  then show ?thesis using pq_repD(1,2) [OF rep] by (simp add: pq_map_def)
qed

text \<open>\<open>pq_destroy\<close> frees each node exactly once and leaves no node behind.\<close>

lemma free_nodes_path:
  assumes "dpath h p x as None l" and "distinct as"
  shows "free_nodes h x = Some (Inr (h |` (- set as)))"
  using assms
proof (induction as arbitrary: h p x)
  case Nil
  then show ?case by (simp add: free_nodes.simps)
next
  case (Cons a as)
  then obtain n where a: "x = Some a" "h a = Some n" "dpath h (Some a) (nxt n) as None l"
    by (auto split: option.splits)
  have na: "a \<notin> set as" and "distinct as" using Cons.prems(2) by simp_all
  have "dpath (h(a := None)) (Some a) (nxt n) as None l"
    unfolding dpath_frame [OF na] by (rule a(3))
  then have "free_nodes (h(a := None)) (nxt n) = Some (Inr (h(a := None) |` (- set as)))"
    by (rule Cons.IH) fact
  moreover have "h(a := None) |` (- set as) = h |` (- set (a # as))"
    by (auto simp: restrict_map_def fun_eq_iff)
  ultimately show ?case using a by (subst free_nodes.simps) simp
qed

lemma pq_destroy_rep:
  assumes rep: "pq_rep q ass"
  shows "pq_destroy (Some q) = Inr (Some Map.empty)"
proof -
  let ?body = "\<lambda>i h. rbind (nth_list (lists q) (int i)) (\<lambda>l. or_diverges (free_nodes h (head l)))"
  have "rfold ?body [0..<n] (nodes q) = Inr (nodes q |` (- (\<Union>i < n. set (ass ! i))))"
    if "n \<le> length ass" for n
    using that
  proof (induction n)
    case (Suc n)
    let ?h = "nodes q |` (- (\<Union>i < n. set (ass ! i)))"
    have n: "n < length ass" using Suc.prems by simp
    have d: "dpath (nodes q) None (head (lists q ! n)) (ass ! n) None (tail (lists q ! n))"
      "distinct (ass ! n)" using pq_repD(4) [OF rep n] by (simp_all add: is_dlist_def)
    have same: "?h a = nodes q a" if "a \<in> set (ass ! n)" for a
    proof -
      have "a \<notin> set (ass ! i)" if "i < n" for i
        using pq_repD(5) [OF rep n, of i] that n \<open>a \<in> set (ass ! n)\<close> by auto
      then show ?thesis by (simp add: restrict_map_def)
    qed
    have "dpath ?h None (head (lists q ! n)) (ass ! n) None (tail (lists q ! n))"
    proof -
      have "dpath ?h p x cs y l = dpath (nodes q) p x cs y l"
        if "\<And>a. a \<in> set cs \<Longrightarrow> ?h a = nodes q a" for p x cs y l
        using that by (induction cs arbitrary: p x) (auto split: option.splits)
      then show ?thesis using same d(1) by blast
    qed
    from free_nodes_path [OF this d(2)]
    have "?body n ?h = Inr (?h |` (- set (ass ! n)))"
      using n pq_repD(2) [OF rep] by (simp add: nth_list_in or_diverges_def)
    moreover have "?h |` (- set (ass ! n)) = nodes q |` (- (\<Union>i < Suc n. set (ass ! i)))"
      by (auto simp: restrict_map_def fun_eq_iff less_Suc_eq)
    ultimately show ?case using Suc.IH n by (simp add: rfold_append)
  qed (simp add: restrict_map_def)
  from this [OF order_refl] have "rfold ?body [0..<length ass] (nodes q)
      = Inr (nodes q |` (- dom (nodes q)))" by (simp only: pq_repD(6) [OF rep])
  moreover have "nodes q |` (- dom (nodes q)) = Map.empty"
    by (auto simp: restrict_map_def fun_eq_iff)
  ultimately show ?thesis using pq_repD(1,2) [OF rep] by (simp add: pq_destroy_def)
qed

section \<open>The queue satisfies its interface\<close>

lemma length_drain: "length (drain ls) = sum_list (map length ls)"
  by (induction ls) (auto simp: drain_def)

lemma pq_size_drain:
  "pq_rep q ass \<Longrightarrow> pq_size q = int (length (drain (map (items (nodes q)) ass)))"
  by (simp add: pq_repD(8) length_drain o_def)

lemma top_level_map: "n \<le> length ls \<Longrightarrow> top_level Q n (map f ls) = top_level (\<lambda>l. Q (f l)) n ls"
  by (induction n) auto

lemma holds_some_True: "holds_some (\<lambda>_. True) = (\<lambda>xs. xs \<noteq> [])"
  by (auto simp: holds_some_iff fun_eq_iff) (metis all_not_in_conv set_empty)

lemma remove_first_True: "remove_first (\<lambda>_. True) xs = tl xs"
  by (cases xs) auto

lemma pq_take_level:
  assumes rep: "pq_rep q ass"
    and ex: "extract_level (\<lambda>_. True) (map (items (nodes q)) ass) = Some (x, ls)"
  shows "\<exists>q' ass'. pq_take q = Inr (x, q') \<and> pq_rep q' ass' \<and> closed q' = closed q
    \<and> wakeups q' = wakeups q \<and> pq_size q' = pq_size q - 1 \<and> map (items (nodes q')) ass' = ls"
proof -
  let ?Q = "\<lambda>l. items (nodes q) l \<noteq> []"
  from ex obtain k where k: "top_level ?Q (length ass) ass = Some k"
    and x: "x = hd (map (items (nodes q)) ass ! k)"
    and ls: "ls = (map (items (nodes q)) ass)[k := tl (map (items (nodes q)) ass ! k)]"
    by (auto simp: extract_level_def holds_some_True remove_first_True top_level_map
        split: option.splits)
  have "?Q = (\<lambda>l. l \<noteq> [])" by (auto simp: items_def fun_eq_iff)
  with k have "top_level (\<lambda>l. l \<noteq> []) (length ass) ass = Some k" by simp
  moreover from this have "k < length ass" by (simp add: top_level_Some)
  ultimately show ?thesis using pq_take_correct [OF rep, of k] x ls by simp
qed

lemma pq_extract_level:
  assumes rep: "pq_rep q ass"
  shows "case extract_level P (map (items (nodes q)) ass) of
      None \<Rightarrow> pq_extract_first (Some q) (Some P) = Inr (None, Some q)
    | Some (x, ls) \<Rightarrow> \<exists>q' ass'. pq_extract_first (Some q) (Some P) = Inr (Some x, Some q')
        \<and> pq_rep q' ass' \<and> closed q' = closed q \<and> wakeups q' = wakeups q
        \<and> map (items (nodes q')) ass' = ls"
proof (cases "top_level (holds_some P) (length ass) (map (items (nodes q)) ass)")
  case None
  then show ?thesis using extract_from_top_correct [OF rep order_refl, of P] pq_repD(1,2) [OF rep]
    by (simp add: extract_level_def pq_extract_first_def)
next
  case (Some k)
  then have "k < length ass" by (simp add: top_level_Some)
  then show ?thesis
    using Some extract_from_top_correct [OF rep order_refl, of P] pq_repD(1,2) [OF rep]
    by (auto simp: extract_level_def pq_extract_first_def)
qed

interpretation hq: prio_queue_pop pq_inv pq_contents pq_closed pq_push
  "\<lambda>q P. pq_extract_first q (Some P)" pq_pop
proof unfold_locales
  fix qp :: "'a pq option" and x :: 'a and p and P :: "'a \<Rightarrow> bool" and ls
  assume inv: "pq_inv qp"
  then obtain q ass where q: "qp = Some q" and rep: "pq_rep q ass"
    by (cases qp) (auto simp: pq_inv_Some, simp add: pq_inv_def)
  have con: "pq_contents qp = map (items (nodes q)) ass" unfolding q by (rule pq_contents_rep [OF rep])
  have size: "pq_size q = int (length (drain (pq_contents qp)))"
    unfolding con by (rule pq_size_drain [OF rep])
  show "0 < length (pq_contents qp)" using pq_repD(3) [OF rep] by (simp add: con)
  have abs: "pq_inv (Some q') \<and> pq_contents (Some q') = map (items (nodes q')) as
      \<and> pq_closed (Some q') = closed q'" if "pq_rep q' as" for q' :: "'a pq" and as
    using that pq_contents_rep [OF that] by (auto simp: pq_inv_Some pq_closed_def)
  note [simp] = q
  show "\<exists>q'. pq_push qp x p = Inr q' \<and> pq_inv q' \<and> pq_closed q' \<and> pq_contents q' = pq_contents qp"
    if "pq_closed qp"
  proof -
    from that have "closed q" by (simp add: pq_closed_def)
    from pq_push_closed [OF rep this, of x p] obtain q' where
      "pq_push (Some q) x p = Inr (Some q')" "pq_rep q' ass" "closed q'" "nodes q' = nodes q" by blast
    then show ?thesis using abs [of q' ass] con by simp
  qed
  show "\<exists>q'. pq_push qp x p = Inr q' \<and> pq_inv q' \<and> \<not> pq_closed q'
      \<and> pq_contents q' = push_level x p (pq_contents qp)" if "\<not> pq_closed qp"
  proof -
    from that have "\<not> closed q" by (simp add: pq_closed_def)
    from pq_push_open [OF rep this, of x p] obtain q' ass' where
      "pq_push (Some q) x p = Inr (Some q')" "pq_rep q' ass'" "\<not> closed q'"
      "map (items (nodes q')) ass' = push_level x p (map (items (nodes q)) ass)" by blast
    then show ?thesis using abs [of q' ass'] con by simp
  qed
  show "pq_extract_first qp (Some P) = Inr (None, qp)" if "extract_level P (pq_contents qp) = None"
    using pq_extract_level [OF rep, of P] that q con by simp
  show "\<exists>q'. pq_extract_first qp (Some P) = Inr (Some x, q') \<and> pq_inv q'
      \<and> pq_closed q' = pq_closed qp \<and> pq_contents q' = ls"
    if "extract_level P (pq_contents qp) = Some (x, ls)"
  proof -
    from pq_extract_level [OF rep, of P] that con obtain q' ass' where
      "pq_extract_first (Some q) (Some P) = Inr (Some x, Some q')" "pq_rep q' ass'"
      "closed q' = closed q" "map (items (nodes q')) ass' = ls" by auto
    then show ?thesis using abs [of q' ass'] by (simp add: pq_closed_def)
  qed
  show "pq_pop qp = Inr None" if "drain (pq_contents qp) = []" "\<not> pq_closed qp"
    using that q size by (simp add: pq_pop_def pq_closed_def)
  show "pq_pop qp = Inr (Some (None, qp))" if "drain (pq_contents qp) = []" "pq_closed qp"
    using that q size by (simp add: pq_pop_def pq_closed_def)
  show "\<exists>q'. pq_pop qp = Inr (Some (Some x, q')) \<and> pq_inv q'
      \<and> pq_closed q' = pq_closed qp \<and> pq_contents q' = ls"
    if ex: "extract_level (\<lambda>_. True) (pq_contents qp) = Some (x, ls)"
  proof -
    have "drain (pq_contents qp) \<noteq> []"
      using extract_level_Some(3) [OF ex] by (metis empty_iff list.set(1))
    then have "pq_size q \<noteq> 0" by (simp add: size)
    moreover obtain q' ass' where "pq_take q = Inr (x, q')" "pq_rep q' ass'" "closed q' = closed q"
      "map (items (nodes q')) ass' = ls"
      using pq_take_level [OF rep] ex con by auto
    ultimately show ?thesis using abs [of q' ass'] by (simp add: pq_pop_def pq_closed_def)
  qed
qed

section \<open>Waiting threads\<close>

text \<open>
  The queue with the threads blocked in \<^verbatim>\<open>cnd_wait\<close> and those that were woken and have
  not yet taken the mutex again. A signal wakes one waiting thread if there is one, a broadcast
  all of them; a thread may also wake without a signal. A thread that arrives or comes back
  runs the test of \<open>pq_pop\<close> and then either waits or leaves with the result.
\<close>

record 'a pq_monitor =
  mq :: "'a pq option"
  waiting :: nat
  woken :: nat

definition sent :: "'a pq option \<Rightarrow> 'a pq option \<Rightarrow> nat" where
  "sent q q' = (case (q, q') of (Some a, Some b) \<Rightarrow> wakeups b - wakeups a | _ \<Rightarrow> 0)"

definition wake :: "nat \<Rightarrow> 'a pq_monitor \<Rightarrow> 'a pq_monitor" where
  "wake k m = m\<lparr>waiting := waiting m - min k (waiting m), woken := woken m + min k (waiting m)\<rparr>"

definition monitor_push :: "'a \<Rightarrow> int \<Rightarrow> 'a pq_monitor \<Rightarrow> 'a pq_monitor res" where
  "monitor_push x prio m =
     rbind (pq_push (mq m) x prio) (\<lambda>q. Inr (wake (sent (mq m) q) (m\<lparr>mq := q\<rparr>)))"

definition monitor_close :: "'a pq_monitor \<Rightarrow> 'a pq_monitor" where
  "monitor_close m = wake (sent (mq m) (pq_close (mq m)) * waiting m) (m\<lparr>mq := pq_close (mq m)\<rparr>)"

definition monitor_pop :: "'a pq_monitor \<Rightarrow> 'a pq_monitor res" where
  "monitor_pop m =
     rbind (pq_pop (mq m)) (\<lambda>r. case r of
       None \<Rightarrow> Inr (m\<lparr>waiting := waiting m + 1\<rparr>)
     | Some (x, q) \<Rightarrow> Inr (m\<lparr>mq := q\<rparr>))"

inductive monitor_step :: "'a pq_monitor \<Rightarrow> 'a pq_monitor \<Rightarrow> bool" where
  arrive_push: "monitor_push x prio m = Inr m' \<Longrightarrow> monitor_step m m'"
| arrive_close: "monitor_step m (monitor_close m)"
| arrive_pop: "monitor_pop m = Inr m' \<Longrightarrow> monitor_step m m'"
| resume_pop: "0 < woken m \<Longrightarrow> monitor_pop (m\<lparr>woken := woken m - 1\<rparr>) = Inr m' \<Longrightarrow> monitor_step m m'"
| spurious_wake: "0 < waiting m \<Longrightarrow> monitor_step m (wake 1 m)"
| extract_step: "pq_extract_first (mq m) (Some P) = Inr (r, q) \<Longrightarrow> monitor_step m (m\<lparr>mq := q\<rparr>)"

inductive_cases monitor_stepE: "monitor_step m m'"

inductive monitor_reachable :: "int \<Rightarrow> 'a pq_monitor \<Rightarrow> bool" for lvls where
  created: "pq_create lvls = Inr (Some q) \<Longrightarrow> monitor_reachable lvls \<lparr>mq = Some q, waiting = 0, woken = 0\<rparr>"
| stepped: "monitor_reachable lvls m \<Longrightarrow> monitor_step m m' \<Longrightarrow> monitor_reachable lvls m'"

text \<open>
  While a thread waits, the queue is open and every element in it has a woken thread on its
  way to take it.
\<close>

definition monitor_inv :: "'a pq_monitor \<Rightarrow> bool" where
  "monitor_inv m \<longleftrightarrow> pq_inv (mq m) \<and>
     (0 < waiting m \<longrightarrow> \<not> pq_closed (mq m) \<and> length (drain (pq_contents (mq m))) \<le> woken m)"

lemma pq_create_inv:
  assumes "pq_create lvls = Inr (Some q)"
  shows "pq_rep q (replicate (nat lvls) [])"
  using assms
  by (auto simp: pq_create_def pq_rep_def is_dlist_def sum_list_replicate split: if_splits)

lemma pq_inv_obtain:
  assumes "pq_inv qp"
  obtains q ass where "qp = Some q" and "pq_rep q ass"
  using assms by (cases qp) (auto simp: pq_inv_Some, simp add: pq_inv_def)

lemma push_sends:
  assumes "pq_inv qp" and "pq_push qp x prio = Inr qp'"
  shows "pq_inv qp' \<and> pq_closed qp' = pq_closed qp
    \<and> length (drain (pq_contents qp')) = length (drain (pq_contents qp)) + sent qp qp'
    \<and> sent qp qp' = (if pq_closed qp then 0 else 1)"
proof -
  from assms(1) obtain q ass where q: "qp = Some q" and rep: "pq_rep q ass" by (rule pq_inv_obtain)
  show ?thesis
  proof (cases "closed q")
    case True
    from pq_push_closed [OF rep this, of x prio] obtain q' where
      q': "pq_push (Some q) x prio = Inr (Some q')" "pq_rep q' ass" "closed q'" "nodes q' = nodes q"
        "wakeups q' = wakeups q" by blast
    then show ?thesis using assms(2) True q rep
      by (auto simp: sent_def pq_closed_def pq_inv_Some pq_contents_rep)
  next
    case False
    from pq_push_open [OF rep this, of x prio] obtain q' ass' where
      q': "pq_push (Some q) x prio = Inr (Some q')" "pq_rep q' ass'" "\<not> closed q'"
        "map (items (nodes q')) ass' = push_level x prio (map (items (nodes q)) ass)"
        "wakeups q' = wakeups q + 1" by blast
    have "qp' = Some q'" using assms(2) q q'(1) by simp
    moreover have "length (drain (pq_contents (Some q')))
        = Suc (length (drain (pq_contents (Some q))))"
      using pq_repD(3) [OF rep] q'(4) set_drain_push(2) [of "map (items (nodes q)) ass"]
      by (simp add: pq_contents_rep [OF rep] pq_contents_rep [OF q'(2)])
    ultimately show ?thesis using False q q'
      by (auto simp: sent_def pq_closed_def pq_inv_Some)
  qed
qed

lemma monitor_pop_inv:
  assumes inv: "pq_inv (mq m)" and step: "monitor_pop m = Inr m'"
    and cover: "0 < waiting m \<longrightarrow> \<not> pq_closed (mq m) \<and> length (drain (pq_contents (mq m))) \<le> woken m + 1"
  shows "pq_inv (mq m') \<and> woken m' = woken m \<and>
    (0 < waiting m' \<longrightarrow> \<not> pq_closed (mq m') \<and> length (drain (pq_contents (mq m'))) \<le> woken m')"
proof (cases "drain (pq_contents (mq m))")
  case Nil
  show ?thesis
  proof (cases "pq_closed (mq m)")
    case True
    then show ?thesis using hq.pop_closed [OF inv Nil True] step inv cover
      by (auto simp: monitor_pop_def)
  next
    case False
    then show ?thesis using hq.pop_waits [OF inv Nil False] step inv Nil
      by (auto simp: monitor_pop_def)
  qed
next
  case (Cons x xs)
  from hq.pop_head [OF inv this] obtain q where
    "pq_pop (mq m) = Inr (Some (Some x, q))" "pq_inv q" "pq_closed q = pq_closed (mq m)"
    "drain (pq_contents q) = xs" by blast
  then show ?thesis using step cover Cons by (auto simp: monitor_pop_def)
qed

lemma monitor_step_inv:
  assumes "monitor_step m m'" and "monitor_inv m"
  shows "monitor_inv m'"
  using assms(1)
proof cases
  case (arrive_push x prio)
  then obtain q where q: "pq_push (mq m) x prio = Inr q"
    and m': "m' = wake (sent (mq m) q) (m\<lparr>mq := q\<rparr>)"
    by (auto simp: monitor_push_def res_simps)
  show ?thesis using push_sends [OF _ q] assms(2) m'
    by (auto simp: monitor_inv_def wake_def split: if_splits)
next
  case arrive_close
  obtain q ass where q: "mq m = Some q" "pq_rep q ass"
    using assms(2) pq_inv_obtain by (auto simp: monitor_inv_def)
  have "pq_rep (q\<lparr>closed := True, wakeups := wakeups q + 1\<rparr>) ass = pq_rep q ass"
    unfolding pq_rep_def by simp
  then show ?thesis using arrive_close q
    by (auto simp: monitor_inv_def monitor_close_def wake_def pq_close_def sent_def pq_inv_Some)
next
  case arrive_pop
  then show ?thesis using monitor_pop_inv [of m m'] assms(2) by (auto simp: monitor_inv_def)
next
  case resume_pop
  then show ?thesis using monitor_pop_inv [of "m\<lparr>woken := woken m - 1\<rparr>" m'] assms(2)
    by (auto simp: monitor_inv_def)
next
  case spurious_wake
  then show ?thesis using assms(2) by (auto simp: monitor_inv_def wake_def)
next
  case (extract_step P r q)
  have "pq_inv (mq m)" using assms(2) by (simp add: monitor_inv_def)
  from hq.extract_total [OF this, of P] extract_step have
    "pq_inv q" "pq_closed q = pq_closed (mq m)"
    "drain (pq_contents q) = remove_first P (drain (pq_contents (mq m)))" by auto
  moreover have "length (remove_first P xs) \<le> length xs" for xs :: "'a list"
    by (induction xs) auto
  ultimately show ?thesis using assms(2) extract_step
    by (fastforce simp: monitor_inv_def intro: order_trans)
qed

lemma monitor_reachable_inv: "monitor_reachable lvls m \<Longrightarrow> monitor_inv m"
proof (induction rule: monitor_reachable.induct)
  case (created q)
  then show ?case using pq_create_inv by (auto simp: monitor_inv_def pq_inv_Some)
qed (rule monitor_step_inv)

section \<open>Properties\<close>

text \<open>What pushing a sequence of elements with their priorities puts on each level.\<close>

definition sorted_by_level :: "nat \<Rightarrow> ('a \<times> int) list \<Rightarrow> 'a list" where
  "sorted_by_level n xps =
     concat (map (\<lambda>k. map fst (filter (\<lambda>(x, p). clamp_level p n = k) xps)) (rev [0..<n]))"

lemma pushes_fill_levels:
  assumes "0 < n"
  shows "fold (\<lambda>(x, p). push_level x p) xps (replicate n [])
    = map (\<lambda>k. map fst (filter (\<lambda>(x, p). clamp_level p n = k) xps)) [0..<n]"
proof (induction xps rule: rev_induct)
  case Nil
  then show ?case by (simp add: map_replicate_const)
next
  case (snoc xp xps)
  obtain x p where xp: "xp = (x, p)" by (cases xp)
  show ?case
    by (rule nth_equalityI)
      (use snoc clamp_level_less [OF assms, of p] in
        \<open>auto simp: xp push_level_def Let_def nth_list_update\<close>)
qed

lemma pushes_on_open:
  assumes "pq_inv q" and "\<not> pq_closed q"
  shows "\<exists>q'. rfold (\<lambda>(x, p) q. pq_push q x p) xps q = Inr q' \<and> pq_inv q' \<and> \<not> pq_closed q'
    \<and> pq_contents q' = fold (\<lambda>(x, p). push_level x p) xps (pq_contents q)"
  using assms
proof (induction xps arbitrary: q)
  case (Cons xp xps)
  obtain x p where xp: "xp = (x, p)" by (cases xp)
  from hq.push_open [OF Cons.prems, of x p] obtain q1 where
    "pq_push q x p = Inr q1" "pq_inv q1" "\<not> pq_closed q1" "pq_contents q1 = push_level x p (pq_contents q)"
    by blast
  with Cons.IH [of q1] show ?case by (simp add: xp)
qed simp

lemma created_queue:
  assumes "0 < lvls"
  shows "\<exists>q :: 'a pq. pq_create lvls = Inr (Some q) \<and> pq_inv (Some q) \<and> \<not> pq_closed (Some q)
    \<and> pq_contents (Some q) = replicate (nat lvls) []"
proof -
  from assms obtain q :: "'a pq" where q: "pq_create lvls = Inr (Some q)" "\<not> closed q"
    by (simp add: pq_create_def)
  then show ?thesis using pq_contents_rep [OF pq_create_inv [OF q(1)]] pq_create_inv [OF q(1)]
    by (intro exI [of _ q]) (auto simp: pq_inv_Some pq_closed_def items_def)
qed

text \<open>
  C5. Whatever is pushed on a fresh queue, with whatever priorities, blocking pops return it
  from the highest level to the lowest, each level first in first out, priorities outside the
  levels counting as the nearest level. None of the calls fails: no node is used after it was
  freed, no level outside the array is read.
\<close>

theorem pq_pops_in_priority_order:
  assumes "0 < lvls"
  shows "\<exists>q0 q q'. pq_create lvls = Inr q0 \<and> rfold (\<lambda>(x, p) q. pq_push q x p) xps q0 = Inr q
    \<and> pop_loop pq_pop (length xps) q = Inr (sorted_by_level (nat lvls) xps, q')
    \<and> pq_pop q' = Inr None"
proof -
  obtain q0 :: "'a pq" where q0: "pq_create lvls = Inr (Some q0)" "pq_inv (Some q0)" "\<not> pq_closed (Some q0)"
    "pq_contents (Some q0) = replicate (nat lvls) []" using created_queue [OF assms] by blast
  obtain q where q: "rfold (\<lambda>(x, p) q. pq_push q x p) xps (Some q0) = Inr q" "pq_inv q"
    "\<not> pq_closed q" "pq_contents q = fold (\<lambda>(x, p). push_level x p) xps (replicate (nat lvls) [])"
    using pushes_on_open [OF q0(2,3), of xps] q0(4) by auto
  have d: "drain (pq_contents q) = sorted_by_level (nat lvls) xps"
    using assms by (simp add: q(4) pushes_fill_levels drain_def sorted_by_level_def rev_map)
  have "length (drain (fold (\<lambda>(x, p). push_level x p) xps ls)) = length (drain ls) + length xps"
    if "0 < length ls" for ls :: "'a list list"
    using that
  proof (induction xps arbitrary: ls)
    case (Cons xp xps)
    then show ?case
      using Cons.IH [of "push_level (fst xp) (snd xp) ls"] set_drain_push(2) [OF Cons.prems]
      by (simp add: case_prod_unfold)
  qed simp
  from this [of "replicate (nat lvls) []"] have "length (drain (pq_contents q)) = length xps"
    using assms by (simp add: q(4) length_drain sum_list_replicate)
  from hq.pop_loop_drains [OF q(2) eq_refl [OF this]] obtain q' where
    q': "pop_loop pq_pop (length xps) q = Inr (drain (pq_contents q), q')" "pq_inv q'"
      "drain (pq_contents q') = []" "\<not> pq_closed q'" using q(3) by auto
  then show ?thesis using q0(1) q(1) d hq.pop_waits [OF q'(2-4)] by auto
qed

theorem pq_pops_in_priority_order_witness:
  "\<exists>q0 q q'. pq_create 3 = Inr q0
    \<and> rfold (\<lambda>(x, p) q. pq_push q x p) [(10::int, 0), (20, 7), (30, 1), (40, -3)] q0 = Inr q
    \<and> pop_loop pq_pop 4 q = Inr ([20, 30, 10, 40], q')"
proof -
  have "(0::int) < 3" by simp
  from pq_pops_in_priority_order [OF this, of "[(10::int, 0), (20, 7), (30, 1), (40, -3)]"]
  moreover have "sorted_by_level (nat 3) [(10::int, 0), (20, 7), (30, 1), (40, -3)] = [20, 30, 10, 40]"
    by (simp add: sorted_by_level_def clamp_level_def upt_rec)
  moreover have "length [(10::int, 0::int), (20, 7), (30, 1), (40, -3)] = 4" by simp
  ultimately show ?thesis by metis
qed

text \<open>
  C6. The heap queue refines the queue of lists: a push on a valid queue succeeds and either
  appends the element to its level, or, once the queue is closed, leaves the contents alone.
\<close>

theorem pq_push_refines:
  assumes "pq_inv q"
  shows "\<exists>q'. pq_push q x prio = Inr q' \<and> pq_inv q' \<and> pq_closed q' = pq_closed q
    \<and> pq_contents q' = (if pq_closed q then pq_contents q else push_level x prio (pq_contents q))"
  using hq.push_closed [OF assms, of x prio] hq.push_open [OF assms, of x prio]
  by (cases "pq_closed q") auto

text \<open>A queue of two levels with three elements, built by the operations themselves.\<close>

definition sample_queue :: "int pq option" where
  "sample_queue = (case rbind (pq_create 2) (rfold (\<lambda>(x, p) q. pq_push q x p) [(7, 1), (8, 0), (9, 1)]) of
     Inr q \<Rightarrow> q | Inl _ \<Rightarrow> None)"

lemma sample_queue: "pq_inv sample_queue" "\<not> pq_closed sample_queue"
  "pq_contents sample_queue = [[8], [7, 9]]"
proof -
  obtain q0 :: "int pq" where q0: "pq_create 2 = Inr (Some q0)" "pq_inv (Some q0)" "\<not> pq_closed (Some q0)"
    "pq_contents (Some q0) = replicate (nat 2) []" using created_queue [of 2] by auto
  from pushes_on_open [OF q0(2,3), of "[(7, 1), (8, 0), (9, 1)]"] obtain q where
    q: "rfold (\<lambda>(x, p) q. pq_push q x p) [(7, 1), (8, 0), (9, 1)] (Some q0) = Inr q" "pq_inv q"
      "\<not> pq_closed q"
      "pq_contents q = fold (\<lambda>(x, p). push_level x p) [(7, 1), (8, 0), (9, 1)] (pq_contents (Some q0))"
    by blast
  have "sample_queue = q" using q0(1) q(1) by (simp add: sample_queue_def del: rfold.simps)
  then show "pq_inv sample_queue" "\<not> pq_closed sample_queue" "pq_contents sample_queue = [[8], [7, 9]]"
    using q(2-4) q0(4)
    by (simp_all add: push_level_def clamp_level_def numeral_2_eq_2)
qed

theorem pq_push_refines_witness:
  "\<exists>q'. pq_push sample_queue 10 5 = Inr q' \<and> pq_contents q' = [[8], [7, 9, 10]]"
  using pq_push_refines [OF sample_queue(1), of 10 5]
  by (auto simp: sample_queue push_level_def clamp_level_def)

text \<open>
  C7. \<open>pq_extract_first\<close> on a valid queue returns the first element, in the order in which the
  queue would be emptied, that satisfies the predicate, removes that one only, keeps every
  other element and its place, and returns \<open>NULL\<close> exactly when no element satisfies it.
\<close>

theorem pq_extract_first_correct:
  assumes "pq_inv q"
  shows "\<exists>r q'. pq_extract_first q (Some P) = Inr (r, q') \<and> pq_inv q' \<and> pq_closed q' = pq_closed q
    \<and> r = (if filter P (drain (pq_contents q)) = [] then None
           else Some (hd (filter P (drain (pq_contents q)))))
    \<and> drain (pq_contents q') = remove_first P (drain (pq_contents q))"
  by (rule hq.extract_total [OF assms])

theorem pq_extract_first_correct_witness:
  "\<exists>q'. pq_extract_first sample_queue (Some (\<lambda>x. 8 \<le> x)) = Inr (Some 9, q')
    \<and> drain (pq_contents q') = [7, 8]"
  using pq_extract_first_correct [OF sample_queue(1), of "\<lambda>x. 8 \<le> x"]
  by (auto simp: sample_queue drain_def)

text \<open>
  The loop \<^verbatim>\<open>while ((e = pq_extract_first(q, pred)))\<close>, the shape of the updater's
  passes over the waiting emergencies, ends after one more call than there are elements that
  satisfy the predicate, takes exactly those, in order, and leaves the others.
\<close>

theorem pq_extract_loop_takes_all:
  assumes "pq_inv q" and "length (filter P (drain (pq_contents q))) < fuel"
  shows "\<exists>q'. extract_loop (\<lambda>q P. pq_extract_first q (Some P)) fuel P q
      = Inr (filter P (drain (pq_contents q)), q')
    \<and> pq_inv q' \<and> drain (pq_contents q') = filter (\<lambda>x. \<not> P x) (drain (pq_contents q))"
  using hq.extract_loop_correct [OF assms] by blast

theorem pq_extract_loop_takes_all_witness:
  "\<exists>q'. extract_loop (\<lambda>q P. pq_extract_first q (Some P)) 3 (\<lambda>x. 8 \<le> x) sample_queue = Inr ([9, 8], q')
    \<and> drain (pq_contents q') = [7]"
  using pq_extract_loop_takes_all [OF sample_queue(1), of "\<lambda>x. 8 \<le> x" 3]
  by (auto simp: sample_queue drain_def)

text \<open>
  C8. On every reachable state of the queue, however many threads push, pop, wait and close,
  \<open>pq_destroy\<close> frees every node exactly once: it never frees a node twice, never reads a freed
  one, and no node is left.
\<close>

theorem pq_destroy_frees_everything:
  assumes "monitor_reachable lvls m"
  shows "pq_destroy (mq m) = Inr (Some Map.empty)"
proof -
  have "pq_inv (mq m)" using monitor_reachable_inv [OF assms] by (simp add: monitor_inv_def)
  then show ?thesis by (rule pq_inv_obtain) (simp add: pq_destroy_rep)
qed

lemma pushes_reachable:
  assumes "monitor_reachable lvls \<lparr>mq = q, waiting = 0, woken = 0\<rparr>"
    and "rfold (\<lambda>(x, p) q. pq_push q x p) xps q = Inr q'"
  shows "monitor_reachable lvls \<lparr>mq = q', waiting = 0, woken = 0\<rparr>"
  using assms
proof (induction xps arbitrary: q)
  case (Cons xp xps)
  obtain x p where xp: "xp = (x, p)" by (cases xp)
  from Cons.prems(2) obtain q1 where q1: "pq_push q x p = Inr q1"
    and rest: "rfold (\<lambda>(x, p) q. pq_push q x p) xps q1 = Inr q'" by (auto simp: xp res_simps)
  have "monitor_push x p \<lparr>mq = q, waiting = 0, woken = 0\<rparr> = Inr \<lparr>mq = q1, waiting = 0, woken = 0\<rparr>"
    by (simp add: monitor_push_def q1 wake_def)
  then have "monitor_reachable lvls \<lparr>mq = q1, waiting = 0, woken = 0\<rparr>"
    using Cons.prems(1) monitor_reachable.stepped arrive_push by metis
  then show ?case using Cons.IH rest by blast
qed simp

lemma sample_monitor: "monitor_reachable 2 \<lparr>mq = sample_queue, waiting = 0, woken = 0\<rparr>"
proof -
  obtain q0 :: "int pq" where q0: "pq_create 2 = Inr (Some q0)" "pq_inv (Some q0)" "\<not> pq_closed (Some q0)"
    using created_queue [of 2] by auto
  from pushes_on_open [OF q0(2,3), of "[(7, 1), (8, 0), (9, 1)]"] obtain q where
    q: "rfold (\<lambda>(x, p) q. pq_push q x p) [(7, 1), (8, 0), (9, 1)] (Some q0) = Inr q" by blast
  have "sample_queue = q" using q0(1) q by (simp add: sample_queue_def del: rfold.simps)
  then show ?thesis using pushes_reachable [OF monitor_reachable.created [OF q0(1)] q] by simp
qed

theorem pq_destroy_frees_everything_witness: "pq_destroy sample_queue = Inr (Some Map.empty)"
  using pq_destroy_frees_everything [OF sample_monitor] by simp

text \<open>
  C9. No wakeup is lost: as long as a thread sleeps in a pop, the queue is open and every
  element in the queue is matched by a thread that was already woken to take it; so when
  all woken threads have run, a sleeping thread means an empty, open queue.
\<close>

theorem pq_no_lost_wakeup:
  assumes "monitor_reachable lvls m" and "0 < waiting m"
  shows "\<not> pq_closed (mq m) \<and> length (drain (pq_contents (mq m))) \<le> woken m
    \<and> (woken m = 0 \<longrightarrow> pq_pop (mq m) = Inr None)"
proof -
  from monitor_reachable_inv [OF assms(1)] assms(2)
  have "pq_inv (mq m)" "\<not> pq_closed (mq m)" "length (drain (pq_contents (mq m))) \<le> woken m"
    by (simp_all add: monitor_inv_def)
  then show ?thesis using hq.pop_waits by auto
qed

definition sleeping_worker :: "int pq_monitor" where
  "sleeping_worker = (case rbind (pq_create 2) (\<lambda>q. monitor_pop \<lparr>mq = q, waiting = 0, woken = 0\<rparr>) of
     Inr m \<Rightarrow> m | Inl _ \<Rightarrow> \<lparr>mq = None, waiting = 0, woken = 0\<rparr>)"

lemma sleeping_worker: "monitor_reachable 2 sleeping_worker" "waiting sleeping_worker = 1"
  "woken sleeping_worker = 0"
proof -
  obtain q0 :: "int pq" where q0: "pq_create 2 = Inr (Some q0)" by (simp add: pq_create_def)
  let ?m = "\<lparr>mq = Some q0, waiting = 0, woken = 0\<rparr>"
  have p: "monitor_pop ?m = Inr (?m\<lparr>waiting := 1\<rparr>)"
    using q0 by (auto simp: pq_create_def monitor_pop_def pq_pop_def)
  then have eq: "sleeping_worker = ?m\<lparr>waiting := 1\<rparr>" using q0 by (simp add: sleeping_worker_def)
  show "monitor_reachable 2 sleeping_worker" unfolding eq
    by (rule monitor_reachable.stepped [OF monitor_reachable.created [OF q0]]) (rule arrive_pop [OF p])
  show "waiting sleeping_worker = 1" "woken sleeping_worker = 0" unfolding eq by simp_all
qed

theorem pq_no_lost_wakeup_witness: "pq_pop (mq sleeping_worker) = Inr None"
  using pq_no_lost_wakeup [OF sleeping_worker(1)] by (simp add: sleeping_worker)

text \<open>
  On a valid queue \<open>pq_map\<close> calls its function exactly once on every element, from the
  lowest level up, each level in order.
\<close>

theorem pq_map_calls_each_once:
  assumes "pq_inv q"
  shows "pq_map q (Some f) s = Inr (fold f (concat (pq_contents q)) s)"
  by (rule pq_inv_obtain [OF assms]) (simp add: pq_map_rep pq_contents_rep)

theorem pq_map_calls_each_once_witness:
  "pq_map sample_queue (Some (\<lambda>x s. s @ [x])) [] = Inr [8, 7, 9]"
  using pq_map_calls_each_once [OF sample_queue(1), of "\<lambda>x s. s @ [x]" "[]"]
  by (simp add: sample_queue)

text \<open>
  A closed queue still hands out what it holds, in order, and then every pop returns
  \<open>NULL\<close> instead of waiting, which is how the workers learn that they must stop.
\<close>

theorem pq_closed_drains_then_null:
  assumes "pq_inv q"
  shows "\<exists>q' q''. pop_loop pq_pop (length (drain (pq_contents q))) (pq_close q)
      = Inr (drain (pq_contents q), q')
    \<and> pq_pop q' = Inr (Some (None, q'))
    \<and> pq_push q' x prio = Inr q'' \<and> pq_contents q'' = pq_contents q'"
proof -
  from assms obtain p ass where p: "q = Some p" and rep: "pq_rep p ass" by (rule pq_inv_obtain)
  let ?p = "p\<lparr>closed := True, wakeups := wakeups p + 1\<rparr>"
  have "pq_rep ?p ass = pq_rep p ass" unfolding pq_rep_def by simp
  with rep have rep': "pq_rep ?p ass" by simp
  then have c: "pq_inv (Some ?p)" "pq_closed (Some ?p)" "pq_contents (Some ?p) = pq_contents q"
    using pq_contents_rep [OF rep] pq_contents_rep [OF rep'] p by (auto simp: pq_inv_Some pq_closed_def)
  have "length (drain (pq_contents (Some ?p))) \<le> length (drain (pq_contents q))"
    unfolding c(3) by simp
  from hq.pop_loop_drains [OF c(1) this] c obtain q' where
    q': "pop_loop pq_pop (length (drain (pq_contents q))) (Some ?p) = Inr (drain (pq_contents q), q')"
    "pq_inv q'" "drain (pq_contents q') = []" "pq_closed q'" by auto
  have pop: "pq_pop q' = Inr (Some (None, q'))" by (rule hq.pop_closed [OF q'(2-4)])
  obtain q'' where "pq_push q' x prio = Inr q''" "pq_contents q'' = pq_contents q'"
    using hq.push_closed [OF q'(2,4)] by blast
  then show ?thesis using q'(1) pop p by (simp add: pq_close_def)
qed

theorem pq_closed_drains_then_null_witness:
  "\<exists>q'. pop_loop pq_pop 3 (pq_close sample_queue) = Inr ([7, 9, 8], q')
    \<and> pq_pop q' = Inr (Some (None, q'))"
proof -
  have "drain (pq_contents sample_queue) = [7, 9, 8]" by (simp add: sample_queue drain_def)
  moreover have "length [7, 9, 8::int] = 3" by simp
  ultimately show ?thesis using pq_closed_drains_then_null [OF sample_queue(1), of 5 1] by metis
qed

end
