(* ===== verification/Priority_Rules.thy ===== *)
theory Priority_Rules
  imports Prelude
begin

text \<open>
  The priority rules of the server: the lookup table of \<^verbatim>\<open>src/config_server.h\<close>, the
  functions on it at the end of \<^verbatim>\<open>src/src/server/main.c\<close>, and \<open>compare_priorities\<close> of
  \<^verbatim>\<open>server_helpers.c\<close>. A \<^verbatim>\<open>short\<close> is an \<open>int\<close> here: every number that
  occurs is one of the table or comes from the parser, which accepts only those.
\<close>

section \<open>The table and the functions on it\<close>

record priority_rule =
  rule_number :: int
  time_before_promotion :: int
  time_before_timeout :: int

definition NO_TIMEOUT :: int where
  "NO_TIMEOUT = -10"

definition NO_PROMOTION :: int where
  "NO_PROMOTION = -10"

definition priority_lookup_table :: "priority_rule list" where
  "priority_lookup_table =
    [\<lparr>rule_number = 0, time_before_promotion = 60, time_before_timeout = NO_TIMEOUT\<rparr>,
     \<lparr>rule_number = 1, time_before_promotion = NO_PROMOTION, time_before_timeout = 60\<rparr>,
     \<lparr>rule_number = 2, time_before_promotion = NO_PROMOTION, time_before_timeout = 30\<rparr>]"

definition priority_count :: int where
  "priority_count = int (length priority_lookup_table)"

definition table_at :: "priority_rule list \<Rightarrow> int \<Rightarrow> priority_rule res" where
  "table_at tbl i = (if 0 \<le> i \<and> i < int (length tbl) then Inr (tbl ! nat i) else Inl OutOfBounds)"

text \<open>
  The first loop leaves at the first match, so it reads no further; the second reads all
  \<open>how_many_levels\<close> rows. A row past the table is an error.
\<close>

fun level_found :: "int \<Rightarrow> priority_rule list \<Rightarrow> nat \<Rightarrow> bool res" where
  "level_found p tbl 0 = Inr False"
| "level_found p [] (Suc n) = Inl OutOfBounds"
| "level_found p (r # tbl) (Suc n) = (if rule_number r = p then Inr True else level_found p tbl n)"

fun levels_below :: "int \<Rightarrow> priority_rule list \<Rightarrow> nat \<Rightarrow> int \<Rightarrow> int res" where
  "levels_below p tbl 0 level = Inr level"
| "levels_below p [] (Suc n) level = Inl OutOfBounds"
| "levels_below p (r # tbl) (Suc n) level =
     levels_below p tbl n (if rule_number r < p then level + 1 else level)"

definition get_priority_level :: "int \<Rightarrow> priority_rule list option \<Rightarrow> int \<Rightarrow> int res" where
  "get_priority_level p table how_many_levels =
    (case table of
       None \<Rightarrow> Inr how_many_levels
     | Some tbl \<Rightarrow>
         if how_many_levels = 0 then Inr how_many_levels
         else rbind (level_found p tbl (nat how_many_levels)) (\<lambda>found.
           if \<not> found then Inr 0 else levels_below p tbl (nat how_many_levels) 0))"

definition priority_to_level :: "int \<Rightarrow> int res" where
  "priority_to_level p = get_priority_level p (Some priority_lookup_table) priority_count"

definition level_to_priority :: "int \<Rightarrow> int res" where
  "level_to_priority level =
    (let index = (if level < 0 then 0 else if priority_count \<le> level then priority_count - 1 else level)
     in rbind (table_at priority_lookup_table index) (\<lambda>r. Inr (rule_number r)))"

definition priority_to_timeout_timer :: "int \<Rightarrow> int res" where
  "priority_to_timeout_timer p =
     rbind (priority_to_level p) (\<lambda>index.
     rbind (table_at priority_lookup_table index) (\<lambda>r. Inr (time_before_timeout r)))"

definition priority_to_promotion_timer :: "int \<Rightarrow> int res" where
  "priority_to_promotion_timer p =
     rbind (priority_to_level p) (\<lambda>index.
     rbind (table_at priority_lookup_table index) (\<lambda>r. Inr (time_before_promotion r)))"

definition get_next_priority :: "int \<Rightarrow> int res" where
  "get_next_priority p =
     rbind (priority_to_level p) (\<lambda>level.
       if level = priority_count - 1 then Inr p else level_to_priority (level + 1))"

definition compare_priorities :: "int \<Rightarrow> int \<Rightarrow> int res" where
  "compare_priorities a b =
     rbind (priority_to_level a) (\<lambda>aL. rbind (priority_to_level b) (\<lambda>bL. Inr (aL - bL)))"

section \<open>What the functions return\<close>

text \<open>
  On any table the level of a listed number is how many listed numbers are smaller; a number
  that is not listed gets level 0.
\<close>

lemma level_found_correct:
  "n \<le> length tbl \<Longrightarrow> level_found p tbl n = Inr (\<exists>r \<in> set (take n tbl). rule_number r = p)"
  by (induction p tbl n rule: level_found.induct) auto

lemma levels_below_correct:
  "n \<le> length tbl \<Longrightarrow>
     levels_below p tbl n l = Inr (l + int (count_if (\<lambda>r. rule_number r < p) (take n tbl)))"
  by (induction p tbl n l rule: levels_below.induct) auto

lemma get_priority_level_value:
  assumes "tbl \<noteq> []"
  shows "get_priority_level p (Some tbl) (int (length tbl)) =
    Inr (if \<exists>r \<in> set tbl. rule_number r = p
         then int (count_if (\<lambda>r. rule_number r < p) tbl) else 0)"
  using assms by (simp add: get_priority_level_def level_found_correct levels_below_correct)

definition the_level :: "int \<Rightarrow> int" where
  "the_level p = (if p = 1 then 1 else if p = 2 then 2 else 0)"

lemma priority_to_level [simp]: "priority_to_level p = Inr (the_level p)"
  unfolding priority_to_level_def priority_count_def
  by (subst get_priority_level_value) (auto simp: priority_lookup_table_def the_level_def)

lemma the_level_range: "0 \<le> the_level p" "the_level p \<le> 2"
  by (simp_all add: the_level_def)

lemma priority_count [simp]: "priority_count = 3"
  by (simp add: priority_count_def priority_lookup_table_def)

lemma compare_priorities [simp]: "compare_priorities a b = Inr (the_level a - the_level b)"
  by (simp add: compare_priorities_def)

lemma timers [simp]:
  "priority_to_timeout_timer p = Inr (if p = 1 then 60 else if p = 2 then 30 else NO_TIMEOUT)"
  "priority_to_promotion_timer p = Inr (if p = 1 \<or> p = 2 then NO_PROMOTION else 60)"
  by (simp_all add: priority_to_timeout_timer_def priority_to_promotion_timer_def table_at_def
      the_level_def priority_lookup_table_def)

lemma get_next_priority [simp]:
  "get_next_priority p = Inr (if p = 1 \<or> p = 2 then 2 else 1)"
  by (simp add: get_next_priority_def level_to_priority_def table_at_def the_level_def
      priority_lookup_table_def)

section \<open>Properties\<close>

text \<open>
  On every table whose numbers increase, as the configuration demands, the level of a
  listed priority is its row, so levels order the emergencies as their priorities do and the
  timers read through a level are those of the priority's own row.
\<close>

theorem get_priority_level_is_row:
  assumes "sorted_wrt (\<lambda>r s. rule_number r < rule_number s) tbl" and "i < length tbl"
  shows "get_priority_level (rule_number (tbl ! i)) (Some tbl) (int (length tbl)) = Inr (int i)"
proof -
  have less: "rule_number (tbl ! j) < rule_number (tbl ! i) \<longleftrightarrow> j < i" if "j < length tbl" for j
    using assms that sorted_wrt_nth_less [OF assms(1)]
    by (metis less_irrefl linorder_neqE_nat order.asym)
  have "{j. j < length tbl \<and> rule_number (tbl ! j) < rule_number (tbl ! i)} = {..<i}"
    using less assms(2) by auto
  then have "count_if (\<lambda>r. rule_number r < rule_number (tbl ! i)) tbl = i"
    by (simp add: count_if_def length_filter_conv_card)
  then show ?thesis using assms(2) by (subst get_priority_level_value) auto
qed

theorem get_priority_level_is_row_witness:
  "get_priority_level 2 (Some priority_lookup_table) 3 = Inr 2"
  using get_priority_level_is_row [of priority_lookup_table 2]
  by (simp add: priority_lookup_table_def)

text \<open>
  The rules the server runs by: no call reads outside the table, whatever the number it
  gets; a promotion never lowers the level, raises it by one below the top, and after at most
  two promotions an emergency has the highest priority, whose level is the last one of the
  queues; only the lowest priority is ever due for promotion and only it never times out.
\<close>

theorem priority_rules_consistent:
  "\<exists>p1 p2 l t m. get_next_priority p = Inr p1 \<and> get_next_priority p1 = Inr p2
    \<and> priority_to_level p = Inr l \<and> 0 \<le> l \<and> l < priority_count
    \<and> priority_to_level p1 = Inr (min (l + 1) (priority_count - 1))
    \<and> priority_to_level p2 = Inr (priority_count - 1)
    \<and> priority_to_timeout_timer p = Inr t \<and> priority_to_promotion_timer p = Inr m
    \<and> (t = NO_TIMEOUT \<or> 0 < t) \<and> (m = NO_PROMOTION \<or> 0 < m)
    \<and> (t = NO_TIMEOUT \<longleftrightarrow> l = 0) \<and> (m \<noteq> NO_PROMOTION \<longleftrightarrow> l = 0)"
  by (auto simp: the_level_def NO_TIMEOUT_def NO_PROMOTION_def)

end
