(* ===== verification/C_Strings.thy ===== *)
theory C_Strings
  imports Prelude
begin

text \<open>
  The string functions of \<^verbatim>\<open>src/src/core/utils/utils.c\<close>. A C string is the list of its
  characters up to the terminator, so no character of it is the null character; writing a
  terminator at position \<open>k\<close> leaves the first \<open>k\<close> characters.
\<close>

section \<open>The functions\<close>

definition isspace :: "char \<Rightarrow> bool" where
  "isspace c \<longleftrightarrow> of_char c = (32::nat) \<or> (9 \<le> (of_char c :: nat) \<and> of_char c \<le> (13::nat))"

definition INT_MAX :: int where
  "INT_MAX = 2147483647"

fun all_space :: "string \<Rightarrow> bool" where
  "all_space [] = True"
| "all_space (c # cs) = (if \<not> isspace c then False else all_space cs)"

definition is_line_empty :: "string option \<Rightarrow> bool" where
  "is_line_empty line = (case line of None \<Rightarrow> True | Some s \<Rightarrow> all_space s)"

text \<open>
  The result of \<open>my_atoi\<close> is the value and whether \<^verbatim>\<open>errno\<close> was set to \<^verbatim>\<open>EINVAL\<close>;
  the comment in the source excludes overflow, which is undefined for a signed \<^verbatim>\<open>int\<close>.
\<close>

fun atoi_digits :: "string \<Rightarrow> int \<Rightarrow> (int \<times> bool) res" where
  "atoi_digits [] res = Inr (res, False)"
| "atoi_digits (c # cs) res =
     (if of_char c < (48::nat) \<or> (57::nat) < of_char c then Inr (0, True)
      else let res' = 10 * res + (int (of_char c) - 48)
           in if res' > INT_MAX then Inl SignedOverflow else atoi_digits cs res')"

definition my_atoi :: "string option \<Rightarrow> (int \<times> bool) res" where
  "my_atoi a =
    (case a of
       None \<Rightarrow> Inr (0, True)
     | Some s \<Rightarrow>
         let s1 = dropWhile isspace s;
             sign = (case s1 of c # _ \<Rightarrow> if c = CHR ''-'' then -1 else 1 | [] \<Rightarrow> 1);
             s2 = (case s1 of c # cs \<Rightarrow> if c = CHR ''-'' \<or> c = CHR ''+'' then cs else s1 | [] \<Rightarrow> s1)
         in if s2 = [] then Inr (0, True)
            else rbind (atoi_digits s2 0) (\<lambda>(res, einval). Inr (sign * res, einval)))"

text \<open>The last position of a character; the separators used are never the terminator.\<close>

fun strrchr :: "string \<Rightarrow> char \<Rightarrow> nat option" where
  "strrchr [] c = None"
| "strrchr (d # ds) c =
     (case strrchr ds c of
        Some i \<Rightarrow> Some (Suc i)
      | None \<Rightarrow> if d = c then Some 0 else None)"

definition extract_last_token :: "string \<Rightarrow> char \<Rightarrow> string" where
  "extract_last_token s separator =
     (case strrchr s separator of Some i \<Rightarrow> drop (i + 1) s | None \<Rightarrow> s)"

fun trim_from :: "string \<Rightarrow> nat \<Rightarrow> string" where
  "trim_from s 0 = s"
| "trim_from s (Suc cutoff) = (if isspace (s ! cutoff) then trim_from (take cutoff s) cutoff else s)"

definition trim_right :: "string \<Rightarrow> string" where
  "trim_right s = (let cutoff = length s in if cutoff = 0 then s else trim_from s cutoff)"

section \<open>What they compute\<close>

lemma is_line_empty_iff: "is_line_empty (Some s) \<longleftrightarrow> (\<forall>c \<in> set s. isspace c)"
proof -
  have "all_space s \<longleftrightarrow> (\<forall>c \<in> set s. isspace c)" by (induction s) auto
  then show ?thesis by (simp add: is_line_empty_def)
qed

lemma trim_from_snoc: "trim_from (s @ [c]) (length (s @ [c])) =
    (if isspace c then trim_from s (length s) else s @ [c])"
  by simp

lemma trim_right_rev: "trim_right s = rev (dropWhile isspace (rev s))"
proof -
  have "trim_from s (length s) = rev (dropWhile isspace (rev s))"
  proof (induction s rule: rev_induct)
    case (snoc c s)
    then show ?case unfolding trim_from_snoc by simp
  qed simp
  then show ?thesis by (simp add: trim_right_def)
qed

lemma dropWhile_idem: "dropWhile P (dropWhile P xs) = dropWhile P xs"
  by (induction xs) auto

lemma trim_right_idem [simp]: "trim_right (trim_right s) = trim_right s"
  by (simp add: trim_right_rev dropWhile_idem)

lemma strrchr_None: "strrchr s c = None \<longleftrightarrow> c \<notin> set s"
  by (induction s) (auto split: option.splits)

lemma strrchr_Some:
  "strrchr s c = Some i \<Longrightarrow> i < length s \<and> s ! i = c \<and> c \<notin> set (drop (Suc i) s)"
  by (induction s arbitrary: i) (auto split: option.splits if_splits simp: strrchr_None)

section \<open>Numbers\<close>

fun digits_of :: "nat \<Rightarrow> string" where
  "digits_of n = (if n < 10 then [char_of (48 + n)] else digits_of (n div 10) @ [char_of (48 + n mod 10)])"

declare digits_of.simps [simp del]

text \<open>What \<^verbatim>\<open>printf\<close> makes of \<^verbatim>\<open>%d\<close>.\<close>

definition decimal :: "int \<Rightarrow> string" where
  "decimal i = (if i < 0 then CHR ''-'' # digits_of (nat (- i)) else digits_of (nat i))"

lemma atoi_digits_snoc:
  assumes "atoi_digits ds a = Inr (r, False)" and "d < 10" and "10 * r + int d \<le> INT_MAX"
  shows "atoi_digits (ds @ [char_of (48 + d)]) a = Inr (10 * r + int d, False)"
  using assms by (induction ds a rule: atoi_digits.induct) (auto split: if_splits simp: Let_def)

lemma atoi_digits_of: "int n \<le> INT_MAX \<Longrightarrow> atoi_digits (digits_of n) 0 = Inr (int n, False)"
proof (induction n rule: digits_of.induct)
  case (1 n)
  show ?case
  proof (cases "n < 10")
    case True
    then show ?thesis by (simp add: digits_of.simps [of n] INT_MAX_def)
  next
    case False
    have "int (n div 10) \<le> INT_MAX" using "1.prems" by linarith
    have n: "10 * int (n div 10) + int (n mod 10) = int n" by presburger
    have "n mod 10 < 10" by simp
    from atoi_digits_snoc [OF "1.IH" [OF False \<open>int (n div 10) \<le> INT_MAX\<close>] this]
    have "atoi_digits (digits_of (n div 10) @ [char_of (48 + n mod 10)]) 0 = Inr (int n, False)"
      using "1.prems" by (simp only: n)
    then show ?thesis using False by (subst digits_of.simps) simp
  qed
qed

lemma digits_of_ne: "digits_of n \<noteq> []"
  by (subst digits_of.simps) simp

lemma set_digits_of: "c \<in> set (digits_of n) \<Longrightarrow> 48 \<le> (of_char c :: nat) \<and> of_char c \<le> (57::nat)"
proof (induction n rule: digits_of.induct)
  case (1 n)
  then show ?case by (subst (asm) (2) digits_of.simps) (auto split: if_splits)
qed

section \<open>Properties\<close>

text \<open>
  Reading back the decimal notation of any number that fits an \<^verbatim>\<open>int\<close>, behind any
  white space and with its sign, gives the number and no error.
\<close>

theorem my_atoi_roundtrip:
  assumes "\<forall>c \<in> set ws. isspace c" and "int n \<le> INT_MAX"
  shows "my_atoi (Some (ws @ digits_of n)) = Inr (int n, False)
    \<and> my_atoi (Some (ws @ CHR ''+'' # digits_of n)) = Inr (int n, False)
    \<and> my_atoi (Some (ws @ CHR ''-'' # digits_of n)) = Inr (- int n, False)"
proof -
  obtain d ds where d: "digits_of n = d # ds" using digits_of_ne by (cases "digits_of n") auto
  then have d1: "48 \<le> (of_char d :: nat)" "of_char d \<le> (57::nat)" using set_digits_of [of d n] by auto
  then have d2: "\<not> isspace d" "d \<noteq> CHR ''-''" "d \<noteq> CHR ''+''" by (auto simp: isspace_def)
  have skip: "dropWhile isspace (ws @ c # cs) = c # cs" if "\<not> isspace c" for c cs
    using assms(1) that by (simp add: dropWhile_append2)
  have sgn: "\<not> isspace (CHR ''-'')" "\<not> isspace (CHR ''+'')" by (simp_all add: isspace_def)
  note a = atoi_digits_of [OF assms(2)]
  show ?thesis using a d2
    by (simp add: my_atoi_def d skip [OF d2(1)] skip [OF sgn(1)] skip [OF sgn(2)] del: atoi_digits.simps)
qed

theorem my_atoi_roundtrip_witness: "my_atoi (Some ('' -512'')) = Inr (-512, False)"
proof -
  have "digits_of 512 = ''512''" by code_simp
  then show ?thesis using my_atoi_roundtrip [of "'' ''" 512] by (simp add: isspace_def INT_MAX_def)
qed

text \<open>
  Trimming a string on the right removes the longest white end and nothing else:
  what remains is a prefix that does not end in white space, and what was removed is white.
  The name that the parsers store is therefore unchanged by the trimming of every later look-up.
\<close>

theorem trim_right_correct:
  "\<exists>ws. s = trim_right s @ ws \<and> (\<forall>c \<in> set ws. isspace c)
    \<and> (trim_right s = [] \<or> \<not> isspace (last (trim_right s)))
    \<and> trim_right (trim_right s) = trim_right s"
proof (intro exI conjI)
  let ?ws = "rev (takeWhile isspace (rev s))"
  show "s = trim_right s @ ?ws"
    by (metis rev_append rev_rev_ident takeWhile_dropWhile_id trim_right_rev)
  show "\<forall>c \<in> set ?ws. isspace c" by (auto dest: set_takeWhileD)
  show "trim_right s = [] \<or> \<not> isspace (last (trim_right s))"
    by (metis (no_types) hd_dropWhile last_rev rev_is_Nil_conv trim_right_rev)
qed simp

theorem trim_right_correct_witness:
  "\<exists>ws. ''Van  '' = ''Van'' @ ws \<and> (\<forall>c \<in> set ws. isspace c) \<and> trim_right ''Van  '' = ''Van''"
proof -
  have "trim_right ''Van  '' = ''Van''" by code_simp
  then show ?thesis using trim_right_correct [of "''Van  ''"] by fastforce
qed

end
