(* ===== verification/Server_State.thy ===== *)
theory Server_State
  imports Bresenham Queue_Interface Priority_Rules C_Strings
begin

text \<open>
  The data of the server: the structures of \<^verbatim>\<open>src/include/structs.h\<close> and
  \<^verbatim>\<open>server.h\<close> as records, the context \<^verbatim>\<open>ctx\<close> as one state, and the functions of
  \<^verbatim>\<open>structs.c\<close> and \<^verbatim>\<open>server_helpers.c\<close> that read and change it.

  Rescuer types, emergency types and the requests of an emergency type do not change once they
  are parsed, so a pointer to one is the value itself. Twins and emergencies are shared and
  change: a pointer to one is a number, and \<open>twin_at\<close> and \<open>emg_at\<close> are the heap. The server
  frees neither while it runs (an emergency is never freed, the twins only after every
  thread has ended), so every pointer it holds is valid and the heaps are total. The queues hold
  pointers to emergencies; they are the queues of lists of \<^verbatim>\<open>Queue_Interface\<close>, whose
  laws the heap queue of \<^verbatim>\<open>Priority_Queue\<close> satisfies as well.
\<close>

section \<open>Structures\<close>

type_synonym twin_ptr = nat
type_synonym emg_ptr = nat

datatype rescuer_status = IDLE | EN_ROUTE_TO_SCENE | ON_SCENE | RETURNING_TO_BASE

datatype emergency_status =
    WAITING | ASSIGNED | ASKING_FOR_RESCUERS | WAITING_FOR_RESCUERS | IN_PROGRESS
  | PAUSED | COMPLETED | CANCELED | TIMEOUT

record rescuer_type =
  rescuer_type_name :: string
  amount :: int
  speed :: int
  base_x :: int
  base_y :: int
  twins :: "twin_ptr option list"

record rescuer_request =
  req_type :: rescuer_type
  required_count :: int
  time_to_manage :: int

record emergency_type =
  type_priority :: int
  emergency_desc :: string
  rescuers :: "rescuer_request option list"
  rescuers_req_number :: int

text \<open>
  The trajectory of a twin belongs to it alone. \<open>None\<close> in \<open>is_travelling\<close> and \<open>has_arrived\<close>
  is a field that was never written.
\<close>

record rescuer_digital_twin =
  twin_id :: int
  twin_x :: int
  twin_y :: int
  rescuer :: rescuer_type
  twin_status :: rescuer_status
  trajectory :: trajectory_ptr
  emergency :: "emg_ptr option"
  is_travelling :: "bool option"
  has_arrived :: "bool option"
  twin_time_to_manage :: int
  time_left_before_leaving :: int
  is_a_candidate :: bool

text \<open>
  \<open>rescuers_missing\<close> holds the emergency's own copies of the requests of its type. \<open>cond\<close>
  counts the signals and broadcasts on the condition variable.
\<close>

record emergency =
  etype :: emergency_type
  eid :: int
  priority :: int
  status :: emergency_status
  emg_x :: int
  emg_y :: int
  emg_time :: int
  tick_time :: int
  rescuer_count :: int
  rescuers_missing :: "rescuer_request option list"
  rescuer_twins :: "twin_ptr option list"
  rescuers_not_arrived_yet :: int
  rescuers_not_done_yet :: int
  timeout_timer :: int
  promotion_timer :: int
  how_many_times_was_paused :: int
  how_many_times_was_promoted :: int
  cond :: nat

definition INVALID_TIME :: int where
  "INVALID_TIME = -1"

definition INDEX_NOT_FOUND :: int where
  "INDEX_NOT_FOUND = -1"

definition WORKER_THREADS_NUMBER :: nat where
  "WORKER_THREADS_NUMBER = 10"

section \<open>The server context\<close>

text \<open>
  The three mutexes say whether the thread that runs holds them. \<open>slots\<close> is the array of
  active emergencies, \<open>stop_messages\<close> counts the messages \<^verbatim>\<open>-stop\<close> sent to the server's
  own queue, \<open>shutting_down\<close> and \<open>exit_failure\<close> are the static flags of \<^verbatim>\<open>main.c\<close>.
\<close>

record server =
  env_height :: int
  env_width :: int
  rescuer_types :: "rescuer_type option list"
  rescuer_types_count :: int
  emergency_types :: "emergency_type option list"
  emergencies_count :: int
  requests_count :: int
  requests_valid_count :: int
  slots :: "emg_ptr option list"
  next_tw_index :: int
  emergency_queue :: "emg_ptr lqueue"
  completed_emergencies :: "emg_ptr lqueue"
  canceled_emergencies :: "emg_ptr lqueue"
  clock_tick :: bool
  tick_count_since_start :: int
  clock_updated :: nat
  server_must_stop :: bool
  shutting_down :: bool
  exit_failure :: bool
  stop_messages :: nat
  rescuers_mutex :: bool
  emergencies_mutex :: bool
  clock_mutex :: bool
  twin_at :: "twin_ptr \<Rightarrow> rescuer_digital_twin"
  emg_at :: "emg_ptr \<Rightarrow> emergency"
  emg_brk :: emg_ptr

definition set_twin :: "twin_ptr \<Rightarrow> rescuer_digital_twin \<Rightarrow> server \<Rightarrow> server" where
  "set_twin t v s = s\<lparr>twin_at := (twin_at s)(t := v)\<rparr>"

definition set_emg :: "emg_ptr \<Rightarrow> emergency \<Rightarrow> server \<Rightarrow> server" where
  "set_emg e v s = s\<lparr>emg_at := (emg_at s)(e := v)\<rparr>"

lemma set_twin_simps [simp]:
  "twin_at (set_twin t v s) = (twin_at s)(t := v)"
  "emg_at (set_twin t v s) = emg_at s"
  "twin_at (set_emg e w s) = twin_at s"
  "emg_at (set_emg e w s) = (emg_at s)(e := w)"
  by (simp_all add: set_twin_def set_emg_def)

lemma set_again [simp]:
  "set_twin t v (set_twin t w s) = set_twin t v s" "set_emg e a (set_emg e b s) = set_emg e a s"
  by (simp_all add: set_twin_def set_emg_def)

lemma set_commute: "set_twin t v (set_emg e a s) = set_emg e a (set_twin t v s)"
  by (simp add: set_twin_def set_emg_def)

lemma set_same [simp]: "set_twin t (twin_at s t) s = s" "set_emg e (emg_at s e) s = s"
  by (simp_all add: set_twin_def set_emg_def)

section \<open>Look-ups\<close>

text \<open>
  A request is found by the name of its rescuer type; the result is its place in the array,
  through which the caller changes it.
\<close>

definition get_name_of_rescuer_requested :: "rescuer_request \<Rightarrow> string" where
  "get_name_of_rescuer_requested r = rescuer_type_name (req_type r)"

fun get_rescuer_request_by_name :: "string \<Rightarrow> rescuer_request option list \<Rightarrow> nat option res" where
  "get_rescuer_request_by_name name [] = Inl OutOfBounds"
| "get_rescuer_request_by_name name (None # rs) = Inr None"
| "get_rescuer_request_by_name name (Some r # rs) =
     (if get_name_of_rescuer_requested r = name then Inr (Some 0)
      else rbind (get_rescuer_request_by_name name rs) (\<lambda>i. Inr (map_option Suc i)))"

text \<open>The two look-ups by name trim the name in place and compare what is left.\<close>

definition get_rescuer_type_by_name ::
  "string \<Rightarrow> rescuer_type option list \<Rightarrow> (rescuer_type option \<times> string) res" where
  "get_rescuer_type_by_name name types =
     (let name' = trim_right name in
      rbind (scan_null_terminated (\<lambda>r. rescuer_type_name r = name') types) (\<lambda>r. Inr (r, name')))"

definition get_emergency_type_by_name ::
  "string \<Rightarrow> emergency_type option list \<Rightarrow> (emergency_type option \<times> string) res" where
  "get_emergency_type_by_name name types =
     (let name' = trim_right name in
      rbind (scan_null_terminated (\<lambda>e. emergency_desc e = name') types) (\<lambda>e. Inr (e, name')))"

fun twin_index_from ::
  "(twin_ptr \<Rightarrow> rescuer_digital_twin) \<Rightarrow> int \<Rightarrow> twin_ptr option list \<Rightarrow> nat \<Rightarrow> int \<Rightarrow> int res" where
  "twin_index_from h ident l 0 i = Inr INDEX_NOT_FOUND"
| "twin_index_from h ident l (Suc n) i =
     rbind (arr_get l i) (\<lambda>t. case t of
       None \<Rightarrow> twin_index_from h ident l n (i + 1)
     | Some p \<Rightarrow> if twin_id (h p) = ident then Inr i else twin_index_from h ident l n (i + 1))"

definition get_twin_index_by_id ::
  "(twin_ptr \<Rightarrow> rescuer_digital_twin) \<Rightarrow> int \<Rightarrow> twin_ptr option list option \<Rightarrow> int \<Rightarrow> int res" where
  "get_twin_index_by_id h ident list n =
    (case list of
       None \<Rightarrow> Inr INDEX_NOT_FOUND
     | Some l \<Rightarrow> if n \<le> 0 then Inr INDEX_NOT_FOUND else twin_index_from h ident l (nat n) 0)"

section \<open>Locks\<close>

text \<open>
  The mutexes are plain ones: a thread that locks one it holds waits for itself. Waiting
  for another thread is not part of a thread's own steps.
\<close>

definition lock_emergencies :: "server \<Rightarrow> server res" where
  "lock_emergencies s =
     (if emergencies_mutex s then Inl SelfDeadlock else Inr (s\<lparr>emergencies_mutex := True\<rparr>))"

definition unlock_emergencies :: "server \<Rightarrow> server" where
  "unlock_emergencies s = s\<lparr>emergencies_mutex := False\<rparr>"

definition lock_rescuers :: "server \<Rightarrow> server res" where
  "lock_rescuers s = (if rescuers_mutex s then Inl SelfDeadlock else Inr (s\<lparr>rescuers_mutex := True\<rparr>))"

definition unlock_rescuers :: "server \<Rightarrow> server" where
  "unlock_rescuers s = s\<lparr>rescuers_mutex := False\<rparr>"

definition lock_system :: "server \<Rightarrow> server res" where
  "lock_system s =
     rbind (if rescuers_mutex s then Inl SelfDeadlock else Inr (s\<lparr>rescuers_mutex := True\<rparr>)) (\<lambda>s.
       if emergencies_mutex s then Inl SelfDeadlock else Inr (s\<lparr>emergencies_mutex := True\<rparr>))"

definition unlock_system :: "server \<Rightarrow> server" where
  "unlock_system s = (s\<lparr>emergencies_mutex := False\<rparr>)\<lparr>rescuers_mutex := False\<rparr>"

section \<open>Helpers on twins\<close>

definition change_rescuer_digital_twin_destination ::
  "twin_ptr option \<Rightarrow> int \<Rightarrow> int \<Rightarrow> server \<Rightarrow> server res" where
  "change_rescuer_digital_twin_destination tp new_x new_y s =
    (case tp of
       None \<Rightarrow> Inr s
     | Some t \<Rightarrow>
         let v = twin_at s t in
         if twin_x v = new_x \<and> twin_y v = new_y then Inr (set_twin t (v\<lparr>has_arrived := Some True\<rparr>) s)
         else Inr (set_twin t (v\<lparr>has_arrived := Some False,
                time_left_before_leaving := INVALID_TIME,
                trajectory := change_bresenham_trajectory (trajectory v)
                  (twin_x v) (twin_y v) new_x new_y\<rparr>) s))"

definition remove_twin_from_its_emergency :: "twin_ptr option \<Rightarrow> server \<Rightarrow> server res" where
  "remove_twin_from_its_emergency tp s =
    (case tp of
       None \<Rightarrow> Inr s
     | Some t \<Rightarrow>
        (case emergency (twin_at s t) of
           None \<Rightarrow> Inr s
         | Some e \<Rightarrow>
             rbind (get_twin_index_by_id (twin_at s) (twin_id (twin_at s t))
                     (Some (rescuer_twins (emg_at s e))) (rescuer_count (emg_at s e))) (\<lambda>i.
             if i = INDEX_NOT_FOUND then Inr s
             else rbind (arr_set (rescuer_twins (emg_at s e)) i None) (\<lambda>ts.
               Inr (set_emg e ((emg_at s e)\<lparr>rescuer_twins := ts\<rparr>) s)))))"

end
