(* ===== verification/Server_Invariant.thy ===== *)
theory Server_Invariant
  imports Server_State
begin

text \<open>
  The invariant of the server's state: how rescuer types, twins and emergencies are linked, and
  what the counters of an emergency count. The last part shows how the two elementary changes of
  the links, taking a twin from its emergency and giving it to another, keep it.
\<close>

section \<open>Twins and their types\<close>

text \<open>A twin that works on an emergency knows which; the others have none.\<close>

definition twin_ok :: "server \<Rightarrow> twin_ptr \<Rightarrow> bool" where
  "twin_ok s t \<longleftrightarrow> 0 < speed (rescuer (twin_at s t)) \<and> trajectory (twin_at s t) \<noteq> None \<and>
     (emergency (twin_at s t) \<noteq> None \<longleftrightarrow> twin_status (twin_at s t) \<in> {EN_ROUTE_TO_SCENE, ON_SCENE})"

lemma twin_okD:
  assumes "twin_ok s t"
  shows "0 < speed (rescuer (twin_at s t))" "trajectory (twin_at s t) \<noteq> None"
    and "emergency (twin_at s t) = None \<Longrightarrow> twin_status (twin_at s t) = IDLE \<or> twin_status (twin_at s t) = RETURNING_TO_BASE"
    and "emergency (twin_at s t) = Some old \<Longrightarrow> twin_status (twin_at s t) = EN_ROUTE_TO_SCENE \<or> twin_status (twin_at s t) = ON_SCENE"
  using assms rescuer_status.exhaust [of "twin_status (twin_at s t)"] by (auto simp: twin_ok_def)

text \<open>A rescuer type and the twins it owns.\<close>

definition type_twins :: "rescuer_type \<Rightarrow> twin_ptr list" where
  "type_twins r = map the (take (nat (amount r)) (twins r))"

definition type_ok :: "server \<Rightarrow> rescuer_type \<Rightarrow> bool" where
  "type_ok s r \<longleftrightarrow> amount r \<le> int (length (twins r)) \<and> None \<notin> set (take (nat (amount r)) (twins r)) \<and>
     distinct (type_twins r) \<and>
     (\<forall>t \<in> set (type_twins r). twin_ok s t \<and> rescuer (twin_at s t) = r)"

lemma type_ok_cells:
  assumes "type_ok s r"
  shows "map Some (type_twins r) = take (nat (amount r)) (twins r)" "nat (amount r) \<le> length (twins r)"
proof -
  have "map (Some \<circ> the) cs = cs" if "None \<notin> set cs" for cs :: "twin_ptr option list"
    using that by (induction cs) auto
  then show "map Some (type_twins r) = take (nat (amount r)) (twins r)"
    using assms by (simp add: type_ok_def type_twins_def)
  show "nat (amount r) \<le> length (twins r)" using assms unfolding type_ok_def by linarith
qed

definition known :: "server \<Rightarrow> twin_ptr \<Rightarrow> bool" where
  "known s t \<longleftrightarrow> (\<exists>r. Some r \<in> set (rescuer_types s) \<and> t \<in> set (type_twins r))"

definition types_inv :: "server \<Rightarrow> bool" where
  "types_inv s \<longleftrightarrow>
     (\<forall>r. Some r \<in> set (rescuer_types s) \<longrightarrow> type_ok s r) \<and>
     (\<forall>r r'. Some r \<in> set (rescuer_types s) \<longrightarrow> Some r' \<in> set (rescuer_types s) \<longrightarrow>
        rescuer_type_name r = rescuer_type_name r' \<longrightarrow> r = r') \<and>
     inj_on (\<lambda>t. twin_id (twin_at s t)) {t. known s t}"

section \<open>Requests\<close>

definition requests :: "int \<Rightarrow> rescuer_request option list \<Rightarrow> rescuer_request list" where
  "requests n rs = map the (take (nat n) rs)"

definition total_count :: "rescuer_request list \<Rightarrow> int" where
  "total_count qs = sum_list (map required_count qs)"

text \<open>An array of requests: \<open>n\<close> of them, for different known types, and then \<open>NULL\<close>.\<close>

definition requests_ok :: "server \<Rightarrow> int \<Rightarrow> rescuer_request option list \<Rightarrow> bool" where
  "requests_ok s n rs \<longleftrightarrow>
     0 \<le> n \<and> nat n < length rs \<and> rs ! nat n = None \<and> None \<notin> set (take (nat n) rs) \<and>
     (\<forall>q \<in> set (requests n rs). Some (req_type q) \<in> set (rescuer_types s) \<and> 0 \<le> required_count q) \<and>
     distinct (map get_name_of_rescuer_requested (requests n rs))"

lemma map_Some_the: "None \<notin> set cs \<Longrightarrow> map (Some \<circ> the) cs = cs"
  by (induction cs) auto

lemma requests_cells:
  assumes "requests_ok s n rs"
  shows "map Some (requests n rs) = take (nat n) rs" "nat n \<le> length rs" "length (requests n rs) = nat n"
  using assms map_Some_the by (auto simp: requests_ok_def requests_def)

lemma requests_nth:
  assumes "requests_ok s n rs" and "i < nat n"
  shows "rs ! i = Some (requests n rs ! i)"
  using requests_cells [OF assms(1)] assms(2) by (metis nth_map nth_take)

lemma takeWhile_stops: "x \<in> set xs \<Longrightarrow> \<not> P x \<Longrightarrow> length (takeWhile P xs) < length xs"
  by (induction xs) auto

lemma request_found:
  assumes "map Some qs = take k rs" and "k < length rs" and "rs ! k = None"
  shows "get_rescuer_request_by_name name rs = Inr (if \<exists>q \<in> set qs. get_name_of_rescuer_requested q = name
    then Some (length (takeWhile (\<lambda>q. get_name_of_rescuer_requested q \<noteq> name) qs)) else None)"
  using assms
proof (induction qs arbitrary: k rs)
  case Nil
  then have "k = 0" by auto
  with Nil obtain rs' where "rs = None # rs'" by (cases rs) auto
  then show ?case by simp
next
  case (Cons q qs)
  then obtain k' rs' where k: "k = Suc k'" and rs: "rs = Some q # rs'" "map Some qs = take k' rs'"
    by (cases k; cases rs) auto
  with Cons.IH [of k' rs'] Cons.prems show ?case by auto
qed

lemma request_of_type:
  assumes "requests_ok s n rs" and "r \<in> req_type ` set (requests n rs)"
  shows "\<exists>i < nat n. get_rescuer_request_by_name (rescuer_type_name r) rs = Inr (Some i)
    \<and> get_name_of_rescuer_requested (requests n rs ! i) = rescuer_type_name r"
proof -
  let ?P = "\<lambda>q. get_name_of_rescuer_requested q \<noteq> rescuer_type_name r"
  let ?i = "length (takeWhile ?P (requests n rs))"
  from assms(2) obtain q where q: "q \<in> set (requests n rs)" "\<not> ?P q"
    by (auto simp: get_name_of_rescuer_requested_def)
  then have i: "?i < length (requests n rs)" by (rule takeWhile_stops)
  have "get_rescuer_request_by_name (rescuer_type_name r) rs = Inr (Some ?i)"
    using request_found [OF requests_cells(1) [OF assms(1)], of "rescuer_type_name r"] assms(1) q
    by (auto simp: requests_ok_def)
  then show ?thesis using i nth_length_takeWhile [OF i] requests_cells(3) [OF assms(1)] by auto
qed

section \<open>Emergencies\<close>

definition active_twins :: "emergency \<Rightarrow> twin_ptr option list" where
  "active_twins em = take (nat (rescuer_count em)) (rescuer_twins em)"

definition wanted :: "emergency \<Rightarrow> rescuer_type list" where
  "wanted em = map req_type (requests (rescuers_req_number (etype em)) (rescuers (etype em)))"

definition missing :: "emergency \<Rightarrow> int" where
  "missing em = total_count (requests (rescuers_req_number (etype em)) (rescuers_missing em))"

definition en_route :: "server \<Rightarrow> twin_ptr option \<Rightarrow> bool" where
  "en_route s c = (case c of None \<Rightarrow> False | Some t \<Rightarrow> twin_status (twin_at s t) = EN_ROUTE_TO_SCENE)"

text \<open>
  The links of an emergency: its arrays are well formed, and the twins in its slots are
  different, known, of a wanted type and know that they work on it. \<open>D\<close> is a set of twins that
  are between two emergencies and in no slot.
\<close>

definition requests_inv :: "server \<Rightarrow> emergency \<Rightarrow> bool" where
  "requests_inv s em \<longleftrightarrow>
     requests_ok s (rescuers_req_number (etype em)) (rescuers (etype em)) \<and>
     requests_ok s (rescuers_req_number (etype em)) (rescuers_missing em) \<and>
     map req_type (requests (rescuers_req_number (etype em)) (rescuers_missing em)) = wanted em \<and>
     0 \<le> rescuer_count em \<and> nat (rescuer_count em) \<le> length (rescuer_twins em)"

definition slots_inv :: "server \<Rightarrow> twin_ptr set \<Rightarrow> emg_ptr \<Rightarrow> emergency \<Rightarrow> bool" where
  "slots_inv s D e em \<longleftrightarrow>
     distinct (filter (\<lambda>c. c \<noteq> None) (active_twins em)) \<and>
     (\<forall>t. Some t \<in> set (active_twins em) \<longrightarrow> known s t \<and> t \<notin> D \<and>
        emergency (twin_at s t) = Some e \<and> rescuer (twin_at s t) \<in> set (wanted em))"

text \<open>
  The counters: \<open>rescuers_not_done_yet\<close> counts the rescuers still missing and the twins in the
  slots, \<open>rescuers_not_arrived_yet\<close> the missing ones and the twins on their way.
\<close>

definition counts_inv :: "server \<Rightarrow> emergency \<Rightarrow> int \<Rightarrow> bool" where
  "counts_inv s em m \<longleftrightarrow>
     rescuers_not_done_yet em = m + int (count_if (\<lambda>c. c \<noteq> None) (active_twins em)) \<and>
     rescuers_not_arrived_yet em = m + int (count_if (en_route s) (active_twins em)) \<and>
     0 \<le> m \<and> rescuers_not_done_yet em \<le> rescuer_count em"

text \<open>
  The invariant of the links, with the number \<open>f e\<close> of rescuers still to be given to each
  emergency. Between two operations \<open>D\<close> is empty and \<open>f\<close> is \<open>missing\<close>.
\<close>

definition links_inv :: "server \<Rightarrow> twin_ptr set \<Rightarrow> (emg_ptr \<Rightarrow> int) \<Rightarrow> bool" where
  "links_inv s D f \<longleftrightarrow>
     types_inv s \<and>
     (\<forall>e < emg_brk s. requests_inv s (emg_at s e) \<and> slots_inv s D e (emg_at s e) \<and>
        counts_inv s (emg_at s e) (f e)) \<and>
     (\<forall>t e. known s t \<longrightarrow> t \<notin> D \<longrightarrow> emergency (twin_at s t) = Some e \<longrightarrow>
        e < emg_brk s \<and> Some t \<in> set (active_twins (emg_at s e))) \<and>
     inj_on (\<lambda>e. eid (emg_at s e)) {..<emg_brk s}"

definition server_inv :: "server \<Rightarrow> bool" where
  "server_inv s \<longleftrightarrow> links_inv s {} (\<lambda>e. missing (emg_at s e))"

lemma links_invD:
  assumes "links_inv s D f"
  shows "types_inv s"
    and "\<And>e. e < emg_brk s \<Longrightarrow> requests_inv s (emg_at s e)"
    and "\<And>e. e < emg_brk s \<Longrightarrow> slots_inv s D e (emg_at s e)"
    and "\<And>e. e < emg_brk s \<Longrightarrow> counts_inv s (emg_at s e) (f e)"
    and "\<And>t e. known s t \<Longrightarrow> t \<notin> D \<Longrightarrow> emergency (twin_at s t) = Some e \<Longrightarrow> e < emg_brk s"
    and "\<And>t e. known s t \<Longrightarrow> t \<notin> D \<Longrightarrow> emergency (twin_at s t) = Some e \<Longrightarrow>
      Some t \<in> set (active_twins (emg_at s e))"
    and "inj_on (\<lambda>e. eid (emg_at s e)) {..<emg_brk s}"
  using assms unfolding links_inv_def by blast+

text \<open>What the invariant depends on.\<close>

lemma inv_frame [simp]:
  "known (set_emg e em s) = known s"
  "types_inv (set_emg e em s) = types_inv s"
  "requests_inv (set_emg e em s) = requests_inv s"
  "slots_inv (set_emg e em s) = slots_inv s"
  "counts_inv (set_emg e em s) = counts_inv s"
  "emg_brk (set_emg e em s) = emg_brk s"
  "emg_brk (set_twin t v s) = emg_brk s"
  "rescuer_types (set_emg e em s) = rescuer_types s"
  "rescuer_types (set_twin t v s) = rescuer_types s"
  "known (set_twin t v s) = known s"
  by (simp_all add: fun_eq_iff set_emg_def set_twin_def known_def types_inv_def type_ok_def twin_ok_def
      requests_inv_def requests_ok_def slots_inv_def counts_inv_def en_route_def [abs_def])

lemma known_type:
  assumes "types_inv s" and "known s t"
  shows "type_ok s (rescuer (twin_at s t))" "Some (rescuer (twin_at s t)) \<in> set (rescuer_types s)"
    "t \<in> set (type_twins (rescuer (twin_at s t)))" "twin_ok s t"
  using assms by (auto simp: types_inv_def known_def type_ok_def)

lemma known_id:
  "types_inv s \<Longrightarrow> known s t \<Longrightarrow> known s u \<Longrightarrow> twin_id (twin_at s t) = twin_id (twin_at s u) \<Longrightarrow> t = u"
  by (auto simp: types_inv_def inj_on_def)

lemma links_inv_set_emg:
  assumes inv: "links_inv s D f" and e: "e < emg_brk s" and same: "eid em' = eid (emg_at s e)"
    and ok: "requests_inv s em'" "slots_inv s D' e em'" "counts_inv s em' m"
    and others: "\<And>e' t. e' < emg_brk s \<Longrightarrow> e' \<noteq> e \<Longrightarrow> Some t \<in> set (active_twins (emg_at s e')) \<Longrightarrow> t \<notin> D'"
    and here: "\<And>t. known s t \<Longrightarrow> t \<notin> D' \<Longrightarrow> emergency (twin_at s t) = Some e \<Longrightarrow> Some t \<in> set (active_twins em')"
    and there: "\<And>t e'. known s t \<Longrightarrow> t \<notin> D' \<Longrightarrow> e' \<noteq> e \<Longrightarrow> emergency (twin_at s t) = Some e' \<Longrightarrow> t \<notin> D"
  shows "links_inv (set_emg e em' s) D' (f(e := m))"
proof -
  note i = links_invD [OF inv]
  have eids: "eid (emg_at (set_emg e em' s) e') = eid (emg_at s e')" for e' using same by simp
  have "slots_inv s D' e' (emg_at s e')" if "e' < emg_brk s" "e' \<noteq> e" for e'
    using i(3) [OF that(1)] others [OF that] unfolding slots_inv_def by blast
  then have "\<forall>e' < emg_brk s. requests_inv s (emg_at (set_emg e em' s) e')
      \<and> slots_inv s D' e' (emg_at (set_emg e em' s) e')
      \<and> counts_inv s (emg_at (set_emg e em' s) e') ((f(e := m)) e')"
    using ok i(2,4) by simp
  moreover have "e' < emg_brk s \<and> Some t \<in> set (active_twins (emg_at (set_emg e em' s) e'))"
    if "known s t" "t \<notin> D'" "emergency (twin_at s t) = Some e'" for t e'
    using that e here there i(5,6) by (cases "e' = e") auto
  ultimately show ?thesis unfolding links_inv_def inv_frame eids set_twin_simps(2,3)
    using i(1,7) by (simp add: set_emg_def)
qed

text \<open>Changing a twin, its type and number aside.\<close>

lemma types_inv_set_twin:
  assumes "types_inv s" and "twin_ok (set_twin t v s) t"
    and "twin_id v = twin_id (twin_at s t)" and "rescuer v = rescuer (twin_at s t)"
  shows "types_inv (set_twin t v s)"
proof -
  have "type_ok (set_twin t v s) r" if "type_ok s r" for r
    using that assms(2,4) unfolding type_ok_def by (auto simp: twin_ok_def)
  moreover have "(\<lambda>u. twin_id (twin_at (set_twin t v s) u)) = (\<lambda>u. twin_id (twin_at s u))"
    using assms(3) by auto
  ultimately show ?thesis using assms(1) unfolding types_inv_def inv_frame by auto
qed

lemma requests_inv_types:
  "rescuer_types s' = rescuer_types s \<Longrightarrow> requests_inv s' em = requests_inv s em"
  by (simp add: requests_inv_def requests_ok_def)

lemma links_inv_set_twin:
  assumes inv: "links_inv s D f" and t: "t \<in> D" "twin_ok (set_twin t v s) t"
    and same: "twin_id v = twin_id (twin_at s t)" "rescuer v = rescuer (twin_at s t)"
  shows "links_inv (set_twin t v s) D f"
proof -
  note i = links_invD [OF inv]
  let ?s = "set_twin t v s"
  have "slots_inv ?s D e (emg_at s e) \<and> counts_inv ?s (emg_at s e) (f e)" if "e < emg_brk s" for e
  proof -
    have out: "Some t \<notin> set (active_twins (emg_at s e))"
      using i(3) [OF that] t(1) by (auto simp: slots_inv_def)
    then have "count_if (en_route ?s) (active_twins (emg_at s e))
        = count_if (en_route s) (active_twins (emg_at s e))"
      by (intro count_if_cong) (auto simp: en_route_def split: option.splits)
    then have "counts_inv ?s (emg_at s e) (f e)" using i(4) [OF that] by (simp add: counts_inv_def)
    moreover have "slots_inv ?s D e (emg_at s e)"
      using i(3) [OF that] out unfolding slots_inv_def inv_frame by auto
    ultimately show ?thesis by simp
  qed
  moreover have "requests_inv ?s (emg_at s e) = requests_inv s (emg_at s e)" for e
    by (rule requests_inv_types) simp
  moreover have "e < emg_brk s \<and> Some u \<in> set (active_twins (emg_at s e))"
    if "known s u" "u \<notin> D" "emergency (twin_at ?s u) = Some e" for u e
    using that t(1) i(5,6) by (cases "u = t") auto
  ultimately show ?thesis
    using types_inv_set_twin [OF i(1) t(2) same] i(2,7) unfolding links_inv_def inv_frame set_twin_simps
    by simp
qed

text \<open>A twin without an emergency is in no slot, so it may be seen as detached or not.\<close>

lemma links_inv_free_twin:
  assumes "links_inv s D f" and "emergency (twin_at s t) = None"
  shows "links_inv s (insert t D) f \<and> links_inv s (D - {t}) f"
proof -
  note i = links_invD [OF assms(1)]
  have "slots_inv s (insert t D) e (emg_at s e) \<and> slots_inv s (D - {t}) e (emg_at s e)"
    if "e < emg_brk s" for e
    using i(3) [OF that] assms(2) unfolding slots_inv_def by force
  moreover have "e < emg_brk s \<and> Some u \<in> set (active_twins (emg_at s e))"
    if "known s u" "u \<notin> D \<or> u = t" "emergency (twin_at s u) = Some e" for u e
    using that i(5,6) assms(2) by (cases "u = t") auto
  ultimately show ?thesis using i(1,2,4,7) unfolding links_inv_def by auto
qed

text \<open>The place of a twin in the array of its emergency.\<close>

lemma twin_index_from_correct:
  assumes "i + n \<le> length l"
  shows "twin_index_from h ident l n (int i) = Inr (
    if \<exists>j. i \<le> j \<and> j < i + n \<and> (\<exists>u. l ! j = Some u \<and> twin_id (h u) = ident)
    then int (LEAST j. i \<le> j \<and> (\<exists>u. l ! j = Some u \<and> twin_id (h u) = ident)) else INDEX_NOT_FOUND)"
  using assms
proof (induction n arbitrary: i)
  case (Suc n)
  let ?P = "\<lambda>j. \<exists>u. l ! j = Some u \<and> twin_id (h u) = ident"
  show ?case
  proof (cases "?P i")
    case True
    then have "(LEAST j. i \<le> j \<and> ?P j) = i" by (intro Least_equality) auto
    moreover have "\<exists>j. i \<le> j \<and> j < i + Suc n \<and> ?P j" using True by (intro exI [of _ i]) simp
    moreover have "twin_index_from h ident l (Suc n) (int i) = Inr (int i)"
      using True Suc.prems by auto
    ultimately show ?thesis by (simp only: if_True)
  next
    case False
    have eq: "(i \<le> j \<and> ?P j) = (Suc i \<le> j \<and> ?P j)" for j
      using False by (cases "i = j") auto
    have eq': "(\<exists>j. i \<le> j \<and> j < i + Suc n \<and> ?P j) = (\<exists>j. Suc i \<le> j \<and> j < Suc i + n \<and> ?P j)"
      by (intro arg_cong [of _ _ Ex] ext) (use eq in auto)
    have "twin_index_from h ident l (Suc n) (int i) = twin_index_from h ident l n (int (Suc i))"
      using False Suc.prems by (auto split: option.splits simp: add.commute)
    also have "\<dots> = Inr (if \<exists>j. Suc i \<le> j \<and> j < Suc i + n \<and> ?P j
        then int (LEAST j. Suc i \<le> j \<and> ?P j) else INDEX_NOT_FOUND)"
      using Suc.prems by (intro Suc.IH) simp
    finally show ?thesis unfolding eq eq' .
  qed
next
  case 0
  then show ?case by (auto dest: leD)
qed

lemma active_nth:
  assumes "requests_inv s em"
  shows "Some t \<in> set (active_twins em) \<longleftrightarrow> (\<exists>j < nat (rescuer_count em). rescuer_twins em ! j = Some t)"
    and "length (active_twins em) = nat (rescuer_count em)"
proof -
  have len: "nat (rescuer_count em) \<le> length (rescuer_twins em)" using assms by (simp add: requests_inv_def)
  then show "length (active_twins em) = nat (rescuer_count em)" by (simp add: active_twins_def)
  show "Some t \<in> set (active_twins em) \<longleftrightarrow> (\<exists>j < nat (rescuer_count em). rescuer_twins em ! j = Some t)"
    using len by (auto simp: active_twins_def in_set_conv_nth)
qed

lemma active_update:
  assumes "requests_inv s em" and "j < nat (rescuer_count em)"
  shows "active_twins (em\<lparr>rescuer_twins := (rescuer_twins em)[j := c]\<rparr>) = (active_twins em)[j := c]"
    and "active_twins em ! j = rescuer_twins em ! j"
  using assms by (simp_all add: active_twins_def requests_inv_def take_update_swap)

text \<open>
  \<open>remove_twin_from_its_emergency\<close> finds the one slot that holds the twin and empties it. The
  caller may have changed other fields of the emergency before.
\<close>

lemma remove_twin_found:
  assumes inv: "links_inv s D f" and t: "known s t" "t \<notin> D" "emergency (twin_at s t) = Some e"
    and em: "rescuer_twins em = rescuer_twins (emg_at s e)" "rescuer_count em = rescuer_count (emg_at s e)"
  shows "\<exists>j < nat (rescuer_count em). rescuer_twins em ! j = Some t \<and>
    remove_twin_from_its_emergency (Some t) (set_emg e em s)
      = Inr (set_emg e (em\<lparr>rescuer_twins := (rescuer_twins em)[j := None]\<rparr>) s)"
proof -
  note i = links_invD [OF inv]
  let ?em = "emg_at s e" and ?l = "rescuer_twins (emg_at s e)"
  let ?P = "\<lambda>j. \<exists>u. ?l ! j = Some u \<and> twin_id (twin_at s u) = twin_id (twin_at s t)"
  have e: "e < emg_brk s" using i(5) [OF t] .
  note ri = i(2) [OF e] and si = i(3) [OF e]
  from i(6) [OF t] obtain j0 where j0: "j0 < nat (rescuer_count ?em)" "?l ! j0 = Some t"
    using active_nth(1) [OF ri] by blast
  then have len: "0 + nat (rescuer_count ?em) \<le> length ?l" and pos: "\<not> rescuer_count ?em \<le> 0"
    using ri by (auto simp: requests_inv_def)
  let ?j = "LEAST j. 0 \<le> j \<and> ?P j"
  have P0: "0 \<le> j0 \<and> ?P j0" using j0(2) by simp
  then have ex: "\<exists>j. 0 \<le> j \<and> j < 0 + nat (rescuer_count ?em) \<and> ?P j" using j0(1) by auto
  have P: "0 \<le> ?j \<and> ?P ?j" by (rule LeastI [of "\<lambda>j. 0 \<le> j \<and> ?P j", OF P0])
  have le: "?j \<le> j0" by (rule Least_le [of "\<lambda>j. 0 \<le> j \<and> ?P j", OF P0])
  then have j: "?j < nat (rescuer_count ?em)" using j0(1) by simp
  from P obtain u where u: "?l ! ?j = Some u" "twin_id (twin_at s u) = twin_id (twin_at s t)" by blast
  then have "Some u \<in> set (active_twins ?em)" using active_nth(1) [OF ri] j by blast
  then have "known s u" using si by (simp add: slots_inv_def)
  then have ut: "u = t" using known_id [OF i(1) _ t(1)] u(2) by simp
  have "twin_index_from (twin_at s) (twin_id (twin_at s t)) ?l (nat (rescuer_count ?em)) 0 = Inr (int ?j)"
    using twin_index_from_correct [OF len, of "twin_at s" "twin_id (twin_at s t)"]
    unfolding if_P [OF ex] of_nat_0 .
  then have "get_twin_index_by_id (twin_at s) (twin_id (twin_at s t)) (Some ?l) (rescuer_count ?em) = Inr (int ?j)"
    unfolding get_twin_index_by_id_def option.case if_not_P [OF pos] .
  then have "remove_twin_from_its_emergency (Some t) (set_emg e em s)
      = Inr (set_emg e (em\<lparr>rescuer_twins := (rescuer_twins em)[?j := None]\<rparr>) s)"
    using t(3) em j len
    by (simp add: remove_twin_from_its_emergency_def INDEX_NOT_FOUND_def arr_set_nth set_emg_def
        del: One_nat_def)
  then show ?thesis using u(1) ut j em by (intro exI [of _ ?j]) simp
qed

lemma distinct_filter_update:
  assumes "distinct (filter (\<lambda>c. c \<noteq> None) xs)" and "i < length xs"
    and "c = None \<or> c \<notin> set xs"
  shows "distinct (filter (\<lambda>c. c \<noteq> None) (xs[i := c]))"
proof -
  have "xs = take i xs @ xs ! i # drop (Suc i) xs" using assms(2) by (rule id_take_nth_drop)
  moreover have "xs[i := c] = take i xs @ c # drop (Suc i) xs" using assms(2) by (rule upd_conv_take_nth_drop)
  ultimately have "distinct (filter (\<lambda>c. c \<noteq> None) (take i xs @ xs ! i # drop (Suc i) xs))"
    and eq: "xs[i := c] = take i xs @ c # drop (Suc i) xs" using assms(1) by simp_all
  moreover have "c \<noteq> None \<Longrightarrow> c \<notin> set (take i xs) \<union> set (drop (Suc i) xs)"
    using assms(3) by (auto dest: in_set_takeD in_set_dropD)
  ultimately show ?thesis by (auto split: if_splits)
qed

lemma emptied_slot:
  assumes "distinct (filter (\<lambda>c. c \<noteq> None) xs)" and "i < length xs" and "xs ! i = Some t"
  shows "Some u \<in> set (xs[i := None]) \<longleftrightarrow> Some u \<in> set xs \<and> u \<noteq> t"
proof -
  have x: "xs = take i xs @ Some t # drop (Suc i) xs" using id_take_nth_drop [OF assms(2)] assms(3) by simp
  have u: "xs[i := None] = take i xs @ None # drop (Suc i) xs" using assms(2) by (rule upd_conv_take_nth_drop)
  have "distinct (filter (\<lambda>c. c \<noteq> None) (take i xs @ Some t # drop (Suc i) xs))" using assms(1) x by simp
  then have "Some t \<notin> set (take i xs) \<union> set (drop (Suc i) xs)" by auto
  moreover have "set xs = insert (Some t) (set (take i xs) \<union> set (drop (Suc i) xs))" by (subst x) auto
  ultimately show ?thesis unfolding u by auto
qed

lemma links_inv_detach:
  assumes inv: "links_inv s D f" and t: "known s t" "t \<notin> D" "emergency (twin_at s t) = Some e"
    and j: "j < nat (rescuer_count (emg_at s e))" "rescuer_twins (emg_at s e) ! j = Some t"
    and same: "eid em' = eid (emg_at s e)" "etype em' = etype (emg_at s e)"
      "rescuer_count em' = rescuer_count (emg_at s e)"
      "rescuer_twins em' = (rescuer_twins (emg_at s e))[j := None]"
    and req: "requests_inv s em'"
    and ndone: "rescuers_not_done_yet em' = rescuers_not_done_yet (emg_at s e) - f e + m - 1"
    and arrived: "rescuers_not_arrived_yet em' = rescuers_not_arrived_yet (emg_at s e) - f e + m
        - (if twin_status (twin_at s t) = EN_ROUTE_TO_SCENE then 1 else 0)"
    and m: "0 \<le> m" "rescuers_not_done_yet em' \<le> rescuer_count em'"
  shows "links_inv (set_emg e em' s) (insert t D) (f(e := m))"
proof -
  note i = links_invD [OF inv]
  let ?em = "emg_at s e"
  have e: "e < emg_brk s" using i(5) [OF t] .
  note si = i(3) [OF e] and ri = i(2) [OF e]
  have j': "j < length (active_twins ?em)" using j(1) active_nth(2) [OF ri] by simp
  have at: "active_twins ?em ! j = Some t" using active_update(2) [OF ri j(1)] j(2) by simp
  have act: "active_twins em' = (active_twins ?em)[j := None]"
    using active_update(1) [OF ri j(1), of None] same by (simp add: active_twins_def)
  have dist: "distinct (filter (\<lambda>c. c \<noteq> None) (active_twins ?em))" using si by (simp add: slots_inv_def)
  note mem = emptied_slot [OF dist j' at]
  have "wanted em' = wanted ?em" using same by (simp add: wanted_def)
  then have slots: "slots_inv s (insert t D) e em'"
    using distinct_filter_update [OF dist j', of None] si mem unfolding slots_inv_def act by auto
  have c1: "count_if (\<lambda>c. c \<noteq> None) (active_twins em') + 1 = count_if (\<lambda>c. c \<noteq> None) (active_twins ?em)"
    using count_if_update [OF j', of "\<lambda>c. c \<noteq> None" None] at act by simp
  have c2: "count_if (en_route s) (active_twins em')
      + (if twin_status (twin_at s t) = EN_ROUTE_TO_SCENE then 1 else 0)
      = count_if (en_route s) (active_twins ?em)"
    using count_if_update [OF j', of "en_route s" None] at act by (simp add: en_route_def)
  have counts: "counts_inv s em' m"
    using i(4) [OF e] ndone arrived m c1 c2 unfolding counts_inv_def by (simp split: if_splits)
  show ?thesis
  proof (rule links_inv_set_emg [OF inv e same(1) req slots counts])
    fix e' u assume "e' < emg_brk s" "e' \<noteq> e" "Some u \<in> set (active_twins (emg_at s e'))"
    then show "u \<notin> insert t D" using i(3) [of e'] t(3) by (auto simp: slots_inv_def)
  next
    fix u assume "known s u" "u \<notin> insert t D" "emergency (twin_at s u) = Some e"
    then show "Some u \<in> set (active_twins em')" using i(6) act mem by auto
  qed auto
qed

lemma links_inv_attach:
  assumes inv: "links_inv s D f" and t: "known s t" "t \<in> D" "emergency (twin_at s t) = Some e"
      "twin_status (twin_at s t) = EN_ROUTE_TO_SCENE" "rescuer (twin_at s t) \<in> set (wanted (emg_at s e))"
    and e: "e < emg_brk s"
    and j: "j < nat (rescuer_count (emg_at s e))" "rescuer_twins (emg_at s e) ! j = None"
    and m: "0 < f e"
  shows "links_inv (set_emg e ((emg_at s e)\<lparr>rescuer_twins := (rescuer_twins (emg_at s e))[j := Some t]\<rparr>) s)
    (D - {t}) (f(e := f e - 1))"
proof -
  note i = links_invD [OF inv]
  let ?em = "emg_at s e"
  let ?em' = "?em\<lparr>rescuer_twins := (rescuer_twins ?em)[j := Some t]\<rparr>"
  note si = i(3) [OF e] and ri = i(2) [OF e]
  have j': "j < length (active_twins ?em)" using j(1) active_nth(2) [OF ri] by simp
  have at: "active_twins ?em ! j = None" using active_update(2) [OF ri j(1)] j(2) by simp
  have act: "active_twins ?em' = (active_twins ?em)[j := Some t]"
    by (rule active_update(1) [OF ri j(1)])
  have out: "Some t \<notin> set (active_twins ?em)" using si t(2) by (auto simp: slots_inv_def)
  have mem: "Some u \<in> set (active_twins ?em') \<longleftrightarrow> Some u \<in> set (active_twins ?em) \<or> u = t" for u
  proof -
    have "active_twins ?em = take j (active_twins ?em) @ None # drop (Suc j) (active_twins ?em)"
      using id_take_nth_drop [OF j'] at by simp
    then have "Some u \<in> set (active_twins ?em)
        \<longleftrightarrow> Some u \<in> set (take j (active_twins ?em)) \<union> set (drop (Suc j) (active_twins ?em))"
      by (metis Un_iff append.assoc list.set_intros(2) option.distinct(1) set_ConsD set_append)
    then show ?thesis unfolding act upd_conv_take_nth_drop [OF j'] by auto
  qed
  have req: "requests_inv s ?em'" using ri by (simp add: requests_inv_def wanted_def)
  have "wanted ?em' = wanted ?em" by (simp add: wanted_def)
  moreover have "distinct (filter (\<lambda>c. c \<noteq> None) (active_twins ?em))" using si by (simp add: slots_inv_def)
  ultimately have slots: "slots_inv s (D - {t}) e ?em'"
    using distinct_filter_update [OF _ j', of "Some t"] out si t mem unfolding slots_inv_def act by auto
  have c1: "count_if (\<lambda>c. c \<noteq> None) (active_twins ?em') = count_if (\<lambda>c. c \<noteq> None) (active_twins ?em) + 1"
    using count_if_update [OF j', of "\<lambda>c. c \<noteq> None" "Some t"] at act by simp
  have c2: "count_if (en_route s) (active_twins ?em') = count_if (en_route s) (active_twins ?em) + 1"
    using count_if_update [OF j', of "en_route s" "Some t"] at act t(4) by (simp add: en_route_def)
  have counts: "counts_inv s ?em' (f e - 1)"
    using i(4) [OF e] m c1 c2 unfolding counts_inv_def by simp
  show ?thesis
  proof (rule links_inv_set_emg [OF inv e _ req slots counts])
    fix e' u assume e': "e' < emg_brk s" "e' \<noteq> e" "Some u \<in> set (active_twins (emg_at s e'))"
    then show "u \<notin> D - {t}" using i(3) [of e'] by (auto simp: slots_inv_def)
  next
    fix u assume "known s u" "u \<notin> D - {t}" "emergency (twin_at s u) = Some e"
    then show "Some u \<in> set (active_twins ?em')" using i(6) [of u e] mem by (cases "u = t") auto
  next
    fix u e' assume "known s u" "u \<notin> D - {t}" "e' \<noteq> e" "emergency (twin_at s u) = Some e'"
    then show "u \<notin> D" using t(3) by (cases "u = t") auto
  qed simp
qed

end
