(* ===== verification/Dispatch.thy ===== *)
theory Dispatch
  imports Server_Invariant "HOL-Library.Product_Lexorder"
begin

text \<open>
  How an emergency gets its rescuers: the search of \<^verbatim>\<open>thread_worker.c\<close>, from the choice
  of the best twin to the preemption of other emergencies and the departure of the twins.
  Everything here runs inside \<open>find_rescuers_logging_blocking\<close>, under both locks of the system.
\<close>

section \<open>Choosing a twin\<close>

definition estimated_arrival_time :: "server \<Rightarrow> emg_ptr \<Rightarrow> twin_ptr \<Rightarrow> int res" where
  "estimated_arrival_time s e t =
    (let d = MANHATTAN (emg_x (emg_at s e)) (emg_y (emg_at s e)) (twin_x (twin_at s t)) (twin_y (twin_at s t));
         v = speed (rescuer (twin_at s t))
     in c_div d v)"

definition is_preemptable_or_available :: "server \<Rightarrow> twin_ptr \<Rightarrow> int \<Rightarrow> bool res" where
  "is_preemptable_or_available s t prio =
    (let v = twin_at s t in
     if twin_status v = IDLE then Inr True
     else if twin_status v = RETURNING_TO_BASE then Inr False
     else if twin_status v = ON_SCENE \<or> twin_status v = EN_ROUTE_TO_SCENE then
       (case emergency v of
          None \<Rightarrow> Inr True
        | Some old \<Rightarrow> rbind (compare_priorities (priority (emg_at s old)) prio) (\<lambda>c.
            if c \<ge> 0 then Inr False else Inr True))
     else Inr True)"

definition compare_twins :: "server \<Rightarrow> emg_ptr \<Rightarrow> twin_ptr \<Rightarrow> twin_ptr \<Rightarrow> int res" where
  "compare_twins s e a b =
    (let va = twin_at s a; vb = twin_at s b;
         a_idle = (twin_status va = IDLE); b_idle = (twin_status vb = IDLE)
     in if a_idle \<noteq> b_idle then Inr (if a_idle then 1 else -1)
     else rbind (case (emergency va, emergency vb) of
                   (Some ea, Some eb) \<Rightarrow> compare_priorities (priority (emg_at s ea)) (priority (emg_at s eb))
                 | _ \<Rightarrow> Inr 0) (\<lambda>comp.
       if comp \<noteq> 0 then Inr (if comp < 0 then 1 else -1)
       else rbind (estimated_arrival_time s e a) (\<lambda>ta.
         rbind (estimated_arrival_time s e b) (\<lambda>tb.
           if ta \<noteq> tb then Inr (tb - ta)
           else
             let a_route = (twin_status va = EN_ROUTE_TO_SCENE);
                 b_route = (twin_status vb = EN_ROUTE_TO_SCENE);
                 a_scene = (twin_status va = ON_SCENE);
                 b_scene = (twin_status vb = ON_SCENE)
             in if a_route \<and> b_scene then Inr 1
                else if b_route \<and> a_scene then Inr (-1)
                else Inr 0))))"

text \<open>
  The debug message at the start of the body reads the twin before the test for \<open>NULL\<close>, so a
  \<open>NULL\<close> cell is dereferenced.
\<close>

definition consider_twin ::
  "server \<Rightarrow> emg_ptr \<Rightarrow> twin_ptr option \<Rightarrow> twin_ptr option \<Rightarrow> twin_ptr option res" where
  "consider_twin s e tp best =
    rbind (deref tp) (\<lambda>t.
    let v = twin_at s t; em = emg_at s e in
    if is_a_candidate v then Inr best
    else rbind (is_preemptable_or_available s t (priority em)) (\<lambda>ok.
    if \<not> ok then Inr best
    else if (case emergency v of Some old \<Rightarrow> eid (emg_at s old) = eid em | None \<Rightarrow> False) then Inr best
    else rbind (estimated_arrival_time s e t) (\<lambda>eat.
    if timeout_timer em \<noteq> NO_TIMEOUT \<and> eat > timeout_timer em then Inr best
    else (case best of
        None \<Rightarrow> Inr (Some t)
      | Some b \<Rightarrow> rbind (compare_twins s e b t) (\<lambda>c. if c < 0 then Inr (Some t) else Inr (Some b))))))"

definition find_best_twin :: "server \<Rightarrow> emg_ptr \<Rightarrow> rescuer_type \<Rightarrow> twin_ptr option res" where
  "find_best_twin s e r =
    rfold (\<lambda>i best. rbind (arr_get (twins r) (int i)) (\<lambda>tp. consider_twin s e tp best))
      [0..<nat (amount r)] None"

section \<open>Preemption and departure\<close>

definition preempt_if_needed :: "twin_ptr option \<Rightarrow> emg_ptr \<Rightarrow> server \<Rightarrow> server res" where
  "preempt_if_needed tp newe s =
    (case tp of
       None \<Rightarrow> Inr s
     | Some t \<Rightarrow>
        (if twin_status (twin_at s t) = IDLE then Inr s
         else case emergency (twin_at s t) of
           None \<Rightarrow> Inr s
         | Some old \<Rightarrow>
             rbind (get_rescuer_request_by_name (rescuer_type_name (rescuer (twin_at s t)))
                      (rescuers_missing (emg_at s old))) (\<lambda>ri.
             rbind (deref ri) (\<lambda>i.
             rbind (deref (rescuers_missing (emg_at s old) ! i)) (\<lambda>r.
             let s1 = set_emg old ((emg_at s old)\<lparr>rescuers_missing :=
                   (rescuers_missing (emg_at s old))[i := Some (r\<lparr>required_count := required_count r + 1\<rparr>)]\<rparr>) s;
                 s2 = (if twin_status (twin_at s1 t) = ON_SCENE
                       then set_emg old ((emg_at s1 old)\<lparr>rescuers_not_arrived_yet :=
                              rescuers_not_arrived_yet (emg_at s1 old) + 1\<rparr>) s1
                       else s1)
             in rbind (remove_twin_from_its_emergency (Some t) s2) (\<lambda>s3.
                if status (emg_at s3 old) \<noteq> PAUSED
                then Inr (set_emg old ((emg_at s3 old)\<lparr>
                       how_many_times_was_paused := how_many_times_was_paused (emg_at s3 old) + 1,
                       status := PAUSED, cond := cond (emg_at s3 old) + 1\<rparr>) s3)
                else Inr s3))))))"

definition send_rescuer_digital_twin_to_scene :: "twin_ptr \<Rightarrow> emg_ptr \<Rightarrow> server \<Rightarrow> server res" where
  "send_rescuer_digital_twin_to_scene t e s =
    rbind (if twin_status (twin_at s t) = ON_SCENE \<or> twin_status (twin_at s t) = EN_ROUTE_TO_SCENE
           then rbind (deref (emergency (twin_at s t))) (\<lambda>old. Inr (eid (emg_at s old) = eid (emg_at s e)))
           else Inr False) (\<lambda>already.
    if already then Inr s
    else
      let s1 = set_twin t ((twin_at s t)\<lparr>twin_status := EN_ROUTE_TO_SCENE, emergency := Some e\<rparr>) s
      in rbind (get_rescuer_request_by_name (rescuer_type_name (rescuer (twin_at s1 t)))
                 (rescuers (etype (emg_at s1 e)))) (\<lambda>ri.
         rbind (deref ri) (\<lambda>i.
         rbind (deref (rescuers (etype (emg_at s1 e)) ! i)) (\<lambda>request.
         let s2 = set_twin t ((twin_at s1 t)\<lparr>twin_time_to_manage := time_to_manage request,
                    time_left_before_leaving := time_to_manage request\<rparr>) s1
         in change_rescuer_digital_twin_destination (Some t)
              (emg_x (emg_at s2 e)) (emg_y (emg_at s2 e)) s2))))"

section \<open>Finding all the rescuers of an emergency\<close>

text \<open>
  \<^verbatim>\<open>candidates\<close> is an array of \<open>missing_count\<close> cells that hold nothing at first. The flag
  \<open>found\<close> carries the two \<open>break\<close>s: once it is false the loops do nothing.
\<close>

definition sum_missing :: "emergency \<Rightarrow> int res" where
  "sum_missing em =
    rfold (\<lambda>i acc. rbind (arr_get (rescuers_missing em) (int i)) (\<lambda>rp. rbind (deref rp) (\<lambda>r.
      Inr (acc + required_count r)))) [0..<nat (rescuers_req_number (etype em))] 0"

type_synonym search = "bool \<times> int \<times> twin_ptr option list \<times> server"

definition search_one :: "emg_ptr \<Rightarrow> rescuer_type \<Rightarrow> search \<Rightarrow> search res" where
  "search_one e r = (\<lambda>(found, k, candidates, s).
    if \<not> found then Inr (found, k, candidates, s)
    else rbind (find_best_twin s e r) (\<lambda>tp.
      case tp of
        None \<Rightarrow> Inr (False, k, candidates, s)
      | Some t \<Rightarrow>
          let s1 = set_twin t ((twin_at s t)\<lparr>is_a_candidate := True\<rparr>) s
          in rbind (arr_set candidates k (Some t)) (\<lambda>cs. Inr (True, k + 1, cs, s1))))"

definition search_type :: "emg_ptr \<Rightarrow> nat \<Rightarrow> search \<Rightarrow> search res" where
  "search_type e i = (\<lambda>(found, k, candidates, s).
    if \<not> found then Inr (found, k, candidates, s)
    else rbind (arr_get (rescuers_missing (emg_at s e)) (int i)) (\<lambda>rp. rbind (deref rp) (\<lambda>req.
      rfold (\<lambda>_. search_one e (req_type req)) [0..<nat (required_count req)]
        (found, k, candidates, s))))"

definition candidate_at :: "twin_ptr option list \<Rightarrow> int \<Rightarrow> twin_ptr res" where
  "candidate_at candidates k =
     rbind (arr_get candidates k) (\<lambda>c. case c of None \<Rightarrow> Inl UninitialisedRead | Some t \<Rightarrow> Inr t)"

definition clear_candidate :: "twin_ptr option list \<Rightarrow> nat \<Rightarrow> server \<Rightarrow> server res" where
  "clear_candidate candidates i s =
     rbind (candidate_at candidates (int i)) (\<lambda>t.
       Inr (set_twin t ((twin_at s t)\<lparr>is_a_candidate := False\<rparr>) s))"

definition assign_slot ::
  "emg_ptr \<Rightarrow> twin_ptr option list \<Rightarrow> nat \<Rightarrow> int \<times> server \<Rightarrow> (int \<times> server) res" where
  "assign_slot e candidates i = (\<lambda>(k, s).
     rbind (arr_get (rescuer_twins (emg_at s e)) (int i)) (\<lambda>cell.
       if cell \<noteq> None then Inr (k, s)
       else rbind (candidate_at candidates k) (\<lambda>t.
         rbind (preempt_if_needed (Some t) e s) (\<lambda>s1.
         rbind (arr_set (rescuer_twins (emg_at s1 e)) (int i) (Some t)) (\<lambda>ts.
         rbind (send_rescuer_digital_twin_to_scene t e
                  (set_emg e ((emg_at s1 e)\<lparr>rescuer_twins := ts\<rparr>) s1)) (\<lambda>s2.
         Inr (k + 1, s2)))))))"

definition zero_missing :: "emg_ptr \<Rightarrow> nat \<Rightarrow> server \<Rightarrow> server res" where
  "zero_missing e i s =
     rbind (arr_get (rescuers_missing (emg_at s e)) (int i)) (\<lambda>rp. rbind (deref rp) (\<lambda>r.
       Inr (set_emg e ((emg_at s e)\<lparr>rescuers_missing :=
         (rescuers_missing (emg_at s e))[i := Some (r\<lparr>required_count := 0\<rparr>)]\<rparr>) s)))"

definition find_rescuers :: "emg_ptr \<Rightarrow> server \<Rightarrow> (bool \<times> server) res" where
  "find_rescuers e s0 =
    rbind (lock_system s0) (\<lambda>s.
    rbind (sum_missing (emg_at s e)) (\<lambda>missing_count.
    if missing_count = 0 then Inr (True, unlock_system s)
    else
      let n = nat (rescuers_req_number (etype (emg_at s e))) in
      rbind (rfold (search_type e) [0..<n] (True, 0, replicate (nat missing_count) None, s))
        (\<lambda>(found, k, candidates, s1).
      rbind (rfold (clear_candidate candidates) [0..<nat k] s1) (\<lambda>s2.
      if \<not> found then Inr (False, unlock_system s2)
      else
        rbind (rfold (assign_slot e candidates) [0..<nat (rescuer_count (emg_at s2 e))] (0, s2)) (\<lambda>(k2, s3).
        rbind (rfold (zero_missing e) [0..<n] s3) (\<lambda>s4.
        Inr (found, unlock_system s4)))))))"

section \<open>The best twin\<close>

text \<open>
  What the choice depends on. The estimated time is the number of whole ticks in the distance;
  the rank orders twins as \<open>compare_twins\<close> does, smaller is better.
\<close>

definition eta :: "server \<Rightarrow> emg_ptr \<Rightarrow> twin_ptr \<Rightarrow> int" where
  "eta s e t = MANHATTAN (emg_x (emg_at s e)) (emg_y (emg_at s e)) (twin_x (twin_at s t)) (twin_y (twin_at s t))
     div speed (rescuer (twin_at s t))"

definition lower_priority :: "server \<Rightarrow> emg_ptr \<Rightarrow> emg_ptr \<Rightarrow> bool" where
  "lower_priority s old e \<longleftrightarrow> the_level (priority (emg_at s old)) < the_level (priority (emg_at s e))"

definition eligible :: "server \<Rightarrow> emg_ptr \<Rightarrow> twin_ptr \<Rightarrow> bool" where
  "eligible s e t \<longleftrightarrow> \<not> is_a_candidate (twin_at s t) \<and>
     (case emergency (twin_at s t) of
        None \<Rightarrow> twin_status (twin_at s t) = IDLE
      | Some old \<Rightarrow> lower_priority s old e \<and> eid (emg_at s old) \<noteq> eid (emg_at s e)) \<and>
     (timeout_timer (emg_at s e) = NO_TIMEOUT \<or> eta s e t \<le> timeout_timer (emg_at s e))"

definition rank :: "server \<Rightarrow> emg_ptr \<Rightarrow> twin_ptr \<Rightarrow> nat \<times> int \<times> int \<times> nat" where
  "rank s e t = (case emergency (twin_at s t) of
     None \<Rightarrow> (0, 0, eta s e t, 0)
   | Some old \<Rightarrow> (1, the_level (priority (emg_at s old)), eta s e t,
       if twin_status (twin_at s t) = EN_ROUTE_TO_SCENE then 0 else 1))"

lemma estimated_arrival_time [simp]:
  "twin_ok s t \<Longrightarrow> estimated_arrival_time s e t = Inr (eta s e t)"
  by (simp add: estimated_arrival_time_def eta_def c_div_pos twin_okD)

lemma eligible_status: "eligible s e t \<Longrightarrow> emergency (twin_at s t) = None \<Longrightarrow> twin_status (twin_at s t) = IDLE"
  by (simp add: eligible_def)

lemma compare_twins_rank:
  assumes "twin_ok s a" and "twin_ok s b" and "eligible s e a" and "eligible s e b"
  shows "\<exists>c. compare_twins s e a b = Inr c \<and> (c < 0 \<longleftrightarrow> rank s e b < rank s e a)"
proof (cases "emergency (twin_at s a)"; cases "emergency (twin_at s b)")
  assume "emergency (twin_at s a) = None" "emergency (twin_at s b) = None"
  then show ?thesis using assms eligible_status by (auto simp: compare_twins_def rank_def Let_def)
next
  fix x assume "emergency (twin_at s a) = None" "emergency (twin_at s b) = Some x"
  then show ?thesis using assms eligible_status twin_okD(4) [OF assms(2)]
    by (auto simp: compare_twins_def rank_def Let_def)
next
  fix x assume "emergency (twin_at s a) = Some x" "emergency (twin_at s b) = None"
  then show ?thesis using assms eligible_status twin_okD(4) [OF assms(1)]
    by (auto simp: compare_twins_def rank_def Let_def)
next
  fix x y assume "emergency (twin_at s a) = Some x" "emergency (twin_at s b) = Some y"
  then show ?thesis using assms twin_okD(4) [OF assms(1)] twin_okD(4) [OF assms(2)]
    by (auto simp: compare_twins_def rank_def Let_def)
qed

definition preferred :: "server \<Rightarrow> emg_ptr \<Rightarrow> twin_ptr \<Rightarrow> twin_ptr option \<Rightarrow> twin_ptr option" where
  "preferred s e t best =
     (if \<not> eligible s e t then best
      else case best of None \<Rightarrow> Some t | Some b \<Rightarrow> if rank s e t < rank s e b then Some t else best)"

lemma consider_twin_preferred:
  assumes t: "twin_ok s t" and best: "\<And>b. best = Some b \<Longrightarrow> twin_ok s b \<and> eligible s e b"
  shows "consider_twin s e (Some t) best = Inr (preferred s e t best)"
proof -
  have pre: "is_preemptable_or_available s t (priority (emg_at s e)) = Inr
      (case emergency (twin_at s t) of None \<Rightarrow> twin_status (twin_at s t) = IDLE
       | Some old \<Rightarrow> lower_priority s old e)"
    using twin_okD(3,4) [OF t]
    by (auto simp: is_preemptable_or_available_def lower_priority_def split: option.splits)
  have "consider_twin s e (Some t) best = (if eligible s e t then
      (case best of None \<Rightarrow> Inr (Some t)
       | Some b \<Rightarrow> rbind (compare_twins s e b t) (\<lambda>c. if c < 0 then Inr (Some t) else Inr (Some b)))
      else Inr best)"
    using t by (auto simp: consider_twin_def pre eligible_def Let_def split: option.splits)
  then show ?thesis using compare_twins_rank [OF _ t, of _ e] best
    by (fastforce simp: preferred_def split: option.splits)
qed

lemma preferred_fold:
  assumes "\<forall>t \<in> set ts. twin_ok s t" and "\<And>b. best = Some b \<Longrightarrow> twin_ok s b \<and> eligible s e b"
  shows "rfold (\<lambda>t. consider_twin s e (Some t)) ts best = Inr (fold (preferred s e) ts best)"
  using assms
proof (induction ts arbitrary: best)
  case (Cons t ts)
  have "consider_twin s e (Some t) best = Inr (preferred s e t best)"
    using Cons.prems by (intro consider_twin_preferred) simp_all
  moreover have "twin_ok s b \<and> eligible s e b" if "preferred s e t best = Some b" for b
    using that Cons.prems by (auto simp: preferred_def split: if_splits option.splits)
  ultimately show ?case using Cons by simp
qed simp

lemma find_best_twin_fold:
  assumes "type_ok s r"
  shows "find_best_twin s e r = Inr (fold (preferred s e) (type_twins r) None)"
proof -
  have "find_best_twin s e r = rfold (\<lambda>t. consider_twin s e (Some t)) (type_twins r) None"
    unfolding find_best_twin_def by (rule rfold_arr [OF type_ok_cells [OF assms]])
  also have "\<dots> = Inr (fold (preferred s e) (type_twins r) None)"
    using assms by (intro preferred_fold) (auto simp: type_ok_def)
  finally show ?thesis .
qed

text \<open>The first of the eligible elements with the smallest rank.\<close>

definition best_of :: "('t \<Rightarrow> bool) \<Rightarrow> ('t \<Rightarrow> 'r :: linorder) \<Rightarrow> 't list \<Rightarrow> 't option \<Rightarrow> bool" where
  "best_of P rk ts r = (case r of
     None \<Rightarrow> \<forall>t \<in> set ts. \<not> P t
   | Some b \<Rightarrow> \<exists>us vs. ts = us @ b # vs \<and> P b \<and>
       (\<forall>t \<in> set us. P t \<longrightarrow> rk b < rk t) \<and> (\<forall>t \<in> set vs. P t \<longrightarrow> rk b \<le> rk t))"

lemma best_of_snoc:
  assumes "best_of P rk ts r"
  shows "best_of P rk (ts @ [t]) (if \<not> P t then r
    else case r of None \<Rightarrow> Some t | Some b \<Rightarrow> if rk t < rk b then Some t else r)"
proof (cases r)
  case None
  then show ?thesis using assms by (fastforce simp: best_of_def)
next
  case (Some b)
  with assms obtain us vs where ts: "ts = us @ b # vs" "P b"
    and us: "\<forall>t \<in> set us. P t \<longrightarrow> rk b < rk t" and vs: "\<forall>t \<in> set vs. P t \<longrightarrow> rk b \<le> rk t"
    by (auto simp: best_of_def)
  show ?thesis
  proof (cases "P t \<and> rk t < rk b")
    case True
    then have "\<forall>u \<in> set ts. P u \<longrightarrow> rk t < rk u" using us vs ts(1) by fastforce
    then have "best_of P rk (ts @ [t]) (Some t)" using True unfolding best_of_def by fastforce
    then show ?thesis using True Some by simp
  next
    case False
    have "ts @ [t] = us @ b # (vs @ [t])" using ts(1) by simp
    moreover have "\<forall>u \<in> set (vs @ [t]). P u \<longrightarrow> rk b \<le> rk u" using False vs by auto
    ultimately have "best_of P rk (ts @ [t]) (Some b)" using ts(2) us unfolding best_of_def by fastforce
    then show ?thesis using False Some by auto
  qed
qed

lemma best_of_fold: "best_of (eligible s e) (rank s e) ts (fold (preferred s e) ts None)"
proof (induction ts rule: rev_induct)
  case Nil
  then show ?case by (simp add: best_of_def)
next
  case (snoc t ts)
  from best_of_snoc [OF this, of t] show ?case by (simp add: preferred_def [of s e t])
qed

text \<open>
  C10. The choice of a twin: on a rescuer type whose twins are set up as the parser leaves them,
  \<open>find_best_twin_blocked\<close> never dereferences \<open>NULL\<close> or divides by zero; it returns \<open>NULL\<close> only
  when no twin is eligible, and otherwise the first of the best: an eligible twin such that
  every other eligible one is worse or, if equally good, comes later in the array. An eligible
  twin is idle, or works on an emergency of strictly lower priority; an idle one beats a busy
  one, then a less important emergency, then the earlier arrival, then one still on its way.
\<close>

theorem find_best_twin_correct:
  assumes "type_ok s r"
  shows "\<exists>b. find_best_twin s e r = Inr b \<and> best_of (eligible s e) (rank s e) (type_twins r) b"
  using find_best_twin_fold [OF assms] best_of_fold by blast

end
