(* ===== verification/Samples.thy ===== *)
theory Samples
  imports Server_State
begin

text \<open>A small server on which the properties of the server theories are applied.\<close>

section \<open>A concrete state\<close>

text \<open>
  One rescuer type with two twins: one idle at the base, one working on an emergency of
  priority 0, while an emergency of priority 2 asks for two.
\<close>

definition van :: rescuer_type where
  "van = \<lparr>rescuer_type_name = ''Van'', amount = 2, speed = 2, base_x = 0, base_y = 0,
    twins = [Some 0, Some 1, None]\<rparr>"

definition small_fire :: emergency_type where
  "small_fire = \<lparr>type_priority = 0, emergency_desc = ''Small'',
    rescuers = [Some \<lparr>req_type = van, required_count = 1, time_to_manage = 3\<rparr>, None],
    rescuers_req_number = 1\<rparr>"

definition big_fire :: emergency_type where
  "big_fire = \<lparr>type_priority = 2, emergency_desc = ''Big'',
    rescuers = [Some \<lparr>req_type = van, required_count = 2, time_to_manage = 5\<rparr>, None],
    rescuers_req_number = 1\<rparr>"

definition sample_emg :: "emg_ptr \<Rightarrow> emergency" where
  "sample_emg e = (if e = 0
    then \<lparr>etype = small_fire, eid = 0, priority = 0, status = IN_PROGRESS, emg_x = 5, emg_y = 5,
      emg_time = 0, tick_time = 0, rescuer_count = 1,
      rescuers_missing = [Some \<lparr>req_type = van, required_count = 0, time_to_manage = 3\<rparr>, None],
      rescuer_twins = [Some 1, None], rescuers_not_arrived_yet = 0, rescuers_not_done_yet = 1,
      timeout_timer = NO_TIMEOUT, promotion_timer = 60, how_many_times_was_paused = 0,
      how_many_times_was_promoted = 0, cond = 0\<rparr>
    else \<lparr>etype = big_fire, eid = 1, priority = 2, status = ASSIGNED, emg_x = 4, emg_y = 4,
      emg_time = 0, tick_time = 0, rescuer_count = 2,
      rescuers_missing = [Some \<lparr>req_type = van, required_count = 2, time_to_manage = 5\<rparr>, None],
      rescuer_twins = [None, None, None], rescuers_not_arrived_yet = 2, rescuers_not_done_yet = 2,
      timeout_timer = 30, promotion_timer = NO_PROMOTION, how_many_times_was_paused = 0,
      how_many_times_was_promoted = 0, cond = 0\<rparr>)"

definition sample_twin :: "twin_ptr \<Rightarrow> rescuer_digital_twin" where
  "sample_twin t = (if t = 0
    then \<lparr>twin_id = 0, twin_x = 0, twin_y = 0, rescuer = van, twin_status = IDLE,
      trajectory = mallocate_bresenham_trajectory, emergency = None, is_travelling = None,
      has_arrived = None, twin_time_to_manage = -1, time_left_before_leaving = -1, is_a_candidate = False\<rparr>
    else \<lparr>twin_id = int t, twin_x = 5, twin_y = 5, rescuer = van, twin_status = ON_SCENE,
      trajectory = change_bresenham_trajectory mallocate_bresenham_trajectory 0 0 5 5,
      emergency = Some 0, is_travelling = Some False,
      has_arrived = Some False, twin_time_to_manage = 3, time_left_before_leaving = 2, is_a_candidate = False\<rparr>)"

definition sample_server :: server where
  "sample_server = \<lparr>env_height = 20, env_width = 20, rescuer_types = [Some van, None],
    rescuer_types_count = 1, emergency_types = [Some small_fire, Some big_fire, None],
    emergencies_count = 2, requests_count = 2, requests_valid_count = 2,
    slots = [Some 0, Some 1, None, None, None, None, None, None, None, None], next_tw_index = 10,
    emergency_queue = lq_create 3, completed_emergencies = lq_create 3, canceled_emergencies = lq_create 3,
    clock_tick = False, tick_count_since_start = 4, clock_updated = 0, server_must_stop = False,
    shutting_down = False, exit_failure = False, stop_messages = 0, rescuers_mutex = False,
    emergencies_mutex = False, clock_mutex = False, twin_at = sample_twin, emg_at = sample_emg, emg_brk = 2\<rparr>"

end
