(* ===== verification/Dispatch_Correct.thy ===== *)
theory Dispatch_Correct
  imports Dispatch Samples
begin

text \<open>
  The search for rescuers is correct: it never fails at run time on an emergency none of whose
  rescuers has finished, it finds rescuers exactly when there are enough eligible twins of every
  type it misses, it leaves the state alone when it does not, and what it takes it takes from
  strictly less important emergencies, keeping every link and counter consistent.
\<close>

section \<open>Choosing the candidates\<close>

text \<open>The state in which the twins of \<open>C\<close> are marked as candidates.\<close>

definition flagged :: "server \<Rightarrow> twin_ptr set \<Rightarrow> server" where
  "flagged s C = s\<lparr>twin_at := (\<lambda>t. if t \<in> C then (twin_at s t)\<lparr>is_a_candidate := True\<rparr> else twin_at s t)\<rparr>"

definition no_flags :: "server \<Rightarrow> bool" where
  "no_flags s \<longleftrightarrow> (\<forall>t. known s t \<longrightarrow> \<not> is_a_candidate (twin_at s t))"

lemma flagged_empty [simp]: "flagged s {} = s"
  by (simp add: flagged_def)

lemma flagged_insert:
  "set_twin t ((twin_at (flagged s C) t)\<lparr>is_a_candidate := True\<rparr>) (flagged s C) = flagged s (insert t C)"
  by (auto simp: flagged_def set_twin_def fun_eq_iff)

lemma flagged_frame [simp]:
  "emg_at (flagged s C) = emg_at s" "rescuer_types (flagged s C) = rescuer_types s"
  "known (flagged s C) = known s"
  by (simp_all add: flagged_def known_def fun_eq_iff)

lemma flagged_type_ok [simp]: "type_ok (flagged s C) r = type_ok s r"
  by (auto simp: type_ok_def twin_ok_def flagged_def)

lemma flagged_eligible: "eligible (flagged s C) e t \<longleftrightarrow> eligible s e t \<and> t \<notin> C"
  by (auto simp: eligible_def flagged_def eta_def lower_priority_def split: option.splits)

lemma flagged_rank: "rank (flagged s C) e t = rank s e t"
  by (auto simp: rank_def flagged_def eta_def split: option.splits)

lemma find_best_flagged:
  assumes "type_ok s r"
  shows "\<exists>b. find_best_twin (flagged s C) e r = Inr b
    \<and> best_of (\<lambda>t. eligible s e t \<and> t \<notin> C) (rank s e) (type_twins r) b"
proof -
  obtain b where b: "find_best_twin (flagged s C) e r = Inr b"
    "best_of (eligible (flagged s C) e) (rank (flagged s C) e) (type_twins r) b"
    using find_best_twin_fold [of "flagged s C" r] best_of_fold assms by fastforce
  have "eligible (flagged s C) e = (\<lambda>t. eligible s e t \<and> t \<notin> C)" "rank (flagged s C) e = rank s e"
    by (simp_all add: fun_eq_iff flagged_eligible flagged_rank)
  then show ?thesis using b by auto
qed

text \<open>Successive picks of the best twin that is eligible and not picked yet.\<close>

definition picks :: "server \<Rightarrow> emg_ptr \<Rightarrow> rescuer_type \<Rightarrow> twin_ptr list \<Rightarrow> bool" where
  "picks s e r ps \<longleftrightarrow> (\<forall>i < length ps.
     best_of (\<lambda>t. eligible s e t \<and> t \<notin> set (take i ps)) (rank s e) (type_twins r) (Some (ps ! i)))"

lemma picks_snoc:
  "picks s e r (ps @ [t]) \<longleftrightarrow> picks s e r ps
     \<and> best_of (\<lambda>u. eligible s e u \<and> u \<notin> set ps) (rank s e) (type_twins r) (Some t)"
  by (auto simp: picks_def nth_append less_Suc_eq)

lemma best_of_Some: "best_of P rk ts (Some t) \<Longrightarrow> t \<in> set ts \<and> P t"
  by (auto simp: best_of_def)

lemma picks_set: "picks s e r ps \<Longrightarrow> t \<in> set ps \<Longrightarrow> t \<in> set (type_twins r) \<and> eligible s e t"
  by (auto simp: picks_def in_set_conv_nth dest!: best_of_Some)

lemma picks_distinct: "picks s e r ps \<Longrightarrow> distinct ps"
proof (induction ps rule: rev_induct)
  case (snoc t ps)
  then show ?case by (auto simp: picks_snoc dest!: best_of_Some)
qed simp

text \<open>The array of candidates after \<open>cs\<close> have been chosen, of \<open>n\<close> cells.\<close>

definition cand_array :: "nat \<Rightarrow> twin_ptr list \<Rightarrow> twin_ptr option list" where
  "cand_array n cs = map Some cs @ replicate (n - length cs) None"

lemma cand_array_set:
  assumes "length cs < n"
  shows "arr_set (cand_array n cs) (int (length cs)) (Some t) = Inr (cand_array n (cs @ [t]))"
proof -
  have "replicate (n - length cs) None = None # replicate (n - length (cs @ [t])) None"
    using assms by (metis Suc_diff_Suc length_append_singleton replicate_Suc)
  then have c: "cand_array n cs = map Some cs @ None # replicate (n - length (cs @ [t])) None"
    by (simp add: cand_array_def)
  then have "length cs < length (cand_array n cs)" by simp
  then have "arr_set (cand_array n cs) (int (length cs)) (Some t)
      = Inr ((cand_array n cs)[length cs := Some t])" by simp
  also have "(cand_array n cs)[length cs := Some t] = cand_array n (cs @ [t])"
    unfolding c by (simp add: cand_array_def list_update_append)
  finally show ?thesis .
qed

lemma search_one_step:
  assumes r: "type_ok s r" and room: "length cs + length ps < n" and new: "set cs \<inter> set (type_twins r) = {}"
    and ps: "picks s e r ps"
  shows "(\<exists>t. search_one e r (True, int (length (cs @ ps)), cand_array n (cs @ ps), flagged s (set (cs @ ps)))
        = Inr (True, int (length (cs @ ps @ [t])), cand_array n (cs @ ps @ [t]), flagged s (set (cs @ ps @ [t])))
      \<and> picks s e r (ps @ [t]))
    \<or> search_one e r (True, int (length (cs @ ps)), cand_array n (cs @ ps), flagged s (set (cs @ ps)))
        = Inr (False, int (length (cs @ ps)), cand_array n (cs @ ps), flagged s (set (cs @ ps)))
      \<and> (\<forall>t \<in> set (type_twins r). eligible s e t \<longrightarrow> t \<in> set ps)"
proof -
  let ?C = "set (cs @ ps)"
  obtain b where b: "find_best_twin (flagged s ?C) e r = Inr b"
    "best_of (\<lambda>t. eligible s e t \<and> t \<notin> ?C) (rank s e) (type_twins r) b"
    using find_best_flagged [OF r] by blast
  show ?thesis
  proof (cases b)
    case None
    then have "\<forall>t \<in> set (type_twins r). eligible s e t \<longrightarrow> t \<in> set ps"
      using b(2) new by (auto simp: best_of_def)
    then show ?thesis using b(1) None by (simp add: search_one_def)
  next
    case (Some t)
    have "best_of (\<lambda>t. eligible s e t \<and> t \<notin> set ps) (rank s e) (type_twins r) (Some t)"
    proof -
      have "(eligible s e u \<and> u \<notin> ?C) = (eligible s e u \<and> u \<notin> set ps)" if "u \<in> set (type_twins r)" for u
        using that new by auto
      then show ?thesis using b(2) Some unfolding best_of_def by fastforce
    qed
    then have "picks s e r (ps @ [t])" using ps by (simp add: picks_snoc)
    moreover have "length (cs @ ps) < n" using room by simp
    from cand_array_set [OF this, of t]
    have "arr_set (cand_array n (cs @ ps)) (int (length (cs @ ps))) (Some t) = Inr (cand_array n (cs @ ps @ [t]))"
      by simp
    moreover have "insert t ?C = set (cs @ ps @ [t])" by simp
    ultimately have "search_one e r (True, int (length (cs @ ps)), cand_array n (cs @ ps), flagged s ?C)
        = Inr (True, int (length (cs @ ps @ [t])), cand_array n (cs @ ps @ [t]), flagged s (set (cs @ ps @ [t])))"
      using b(1) Some unfolding search_one_def
      by (simp add: flagged_insert Let_def del: set_append append_assoc)
    with \<open>picks s e r (ps @ [t])\<close> show ?thesis by blast
  qed
qed

lemma search_one_stop: "search_one e r (False, k, c, s) = Inr (False, k, c, s)"
  by (simp add: search_one_def)

text \<open>The outcome of a search: what was chosen, and whether that is all that was asked for.\<close>

definition outcome :: "nat \<Rightarrow> server \<Rightarrow> bool \<Rightarrow> twin_ptr list \<Rightarrow> search" where
  "outcome n s found cs = (found, int (length cs), cand_array n cs, flagged s (set cs))"

lemma search_ones:
  assumes r: "type_ok s r" and room: "length cs + c \<le> n" and new: "set cs \<inter> set (type_twins r) = {}"
  shows "\<exists>ps found. rfold (\<lambda>_. search_one e r) [0..<c] (outcome n s True cs) = Inr (outcome n s found (cs @ ps))
    \<and> picks s e r ps \<and> (found \<longrightarrow> length ps = c)
    \<and> (\<not> found \<longrightarrow> length ps < c \<and> (\<forall>t \<in> set (type_twins r). eligible s e t \<longrightarrow> t \<in> set ps))"
  using room
proof (induction c)
  case 0
  then show ?case by (intro exI [of _ "[]"] exI [of _ True]) (simp add: picks_def)
next
  case (Suc c)
  then obtain ps found where ih: "rfold (\<lambda>_. search_one e r) [0..<c] (outcome n s True cs) = Inr (outcome n s found (cs @ ps))"
    "picks s e r ps" "found \<longrightarrow> length ps = c"
    "\<not> found \<longrightarrow> length ps < c \<and> (\<forall>t \<in> set (type_twins r). eligible s e t \<longrightarrow> t \<in> set ps)" by auto
  have step: "rfold (\<lambda>_. search_one e r) [0..<Suc c] (outcome n s True cs)
      = search_one e r (outcome n s found (cs @ ps))"
    using ih(1) by (simp add: rfold_append) (simp add: rbind_def split: sum.splits)
  show ?case
  proof (cases found)
    case False
    then show ?thesis unfolding step using ih
      by (intro exI [of _ ps] exI [of _ False]) (simp add: outcome_def search_one_stop)
  next
    case True
    then have "length cs + length ps < n" using ih(3) Suc.prems by simp
    from search_one_step [OF r this new ih(2)] True ih(3) show ?thesis
    proof (elim disjE exE conjE)
      fix t assume "search_one e r (True, int (length (cs @ ps)), cand_array n (cs @ ps), flagged s (set (cs @ ps)))
        = Inr (True, int (length (cs @ ps @ [t])), cand_array n (cs @ ps @ [t]), flagged s (set (cs @ ps @ [t])))"
        "picks s e r (ps @ [t])"
      then show ?thesis unfolding step using True ih(3)
        by (intro exI [of _ "ps @ [t]"] exI [of _ True]) (simp add: outcome_def)
    next
      assume "search_one e r (True, int (length (cs @ ps)), cand_array n (cs @ ps), flagged s (set (cs @ ps)))
        = Inr (False, int (length (cs @ ps)), cand_array n (cs @ ps), flagged s (set (cs @ ps)))"
        "\<forall>t \<in> set (type_twins r). eligible s e t \<longrightarrow> t \<in> set ps"
      then show ?thesis unfolding step using True ih(2,3)
        by (intro exI [of _ ps] exI [of _ False]) (simp add: outcome_def)
    qed
  qed
qed

definition available :: "server \<Rightarrow> emg_ptr \<Rightarrow> rescuer_type \<Rightarrow> int" where
  "available s e r = int (count_if (eligible s e) (type_twins r))"

lemma picks_available:
  assumes "type_ok s r" and "picks s e r ps"
  shows "int (length ps) \<le> available s e r"
    and "\<forall>t \<in> set (type_twins r). eligible s e t \<longrightarrow> t \<in> set ps \<Longrightarrow> available s e r \<le> int (length ps)"
proof -
  have dist: "distinct (type_twins r)" using assms(1) by (simp add: type_ok_def)
  have card: "available s e r = int (card {t \<in> set (type_twins r). eligible s e t})"
    using distinct_card [OF distinct_filter [OF dist, of "eligible s e"]] by (simp add: available_def count_if_def)
  have lp: "length ps = card (set ps)" using distinct_card [OF picks_distinct [OF assms(2)]] by simp
  have "set ps \<subseteq> {t \<in> set (type_twins r). eligible s e t}" using picks_set [OF assms(2)] by auto
  then show "int (length ps) \<le> available s e r" unfolding card lp by (simp add: card_mono)
  assume "\<forall>t \<in> set (type_twins r). eligible s e t \<longrightarrow> t \<in> set ps"
  then show "available s e r \<le> int (length ps)" unfolding card lp by (auto intro: card_mono)
qed

lemma sum_list_take_le: "sum_list (take k xs) \<le> sum_list (xs :: nat list)"
  by (induction xs arbitrary: k) (auto simp: take_Cons' )

lemma length_concat_take:
  assumes "length pss = j" and "j \<le> length cs" and "\<forall>i < j. length (pss ! i) = cs ! i"
  shows "length (concat pss) = sum_list (take j cs)"
proof -
  have "map length pss = take j cs" using assms by (intro nth_equalityI) auto
  then show ?thesis by (simp add: length_concat)
qed

lemma search_types:
  assumes qs: "\<And>i. i < length qs \<Longrightarrow> arr_get (rescuers_missing (emg_at s e)) (int i) = Inr (Some (qs ! i))"
    and types: "\<And>q. q \<in> set qs \<Longrightarrow> type_ok s (req_type q)"
    and dist: "distinct (map req_type qs)"
    and n: "sum_list (map (\<lambda>q. nat (required_count q)) qs) \<le> n" and j: "j \<le> length qs"
  shows "\<exists>pss found. rfold (search_type e) [0..<j] (outcome n s True []) = Inr (outcome n s found (concat pss))
    \<and> length pss \<le> j \<and> (\<forall>i < length pss. picks s e (req_type (qs ! i)) (pss ! i))
    \<and> (found \<longrightarrow> length pss = j \<and> (\<forall>i < j. length (pss ! i) = nat (required_count (qs ! i))))
    \<and> (\<not> found \<longrightarrow> (\<exists>i < j. available s e (req_type (qs ! i)) < required_count (qs ! i)))"
  using j
proof (induction j)
  case 0
  then show ?case by (intro exI [of _ "[]"] exI [of _ True]) simp
next
  case (Suc j)
  then obtain pss found where ih: "rfold (search_type e) [0..<j] (outcome n s True []) = Inr (outcome n s found (concat pss))"
    "length pss \<le> j" "\<forall>i < length pss. picks s e (req_type (qs ! i)) (pss ! i)"
    "found \<longrightarrow> length pss = j \<and> (\<forall>i < j. length (pss ! i) = nat (required_count (qs ! i)))"
    "\<not> found \<longrightarrow> (\<exists>i < j. available s e (req_type (qs ! i)) < required_count (qs ! i))" by auto
  have step: "rfold (search_type e) [0..<Suc j] (outcome n s True []) = search_type e j (outcome n s found (concat pss))"
    using ih(1) by (simp add: rfold_append) (simp add: rbind_def split: sum.splits)
  show ?case
  proof (cases found)
    case False
    then have "search_type e j (outcome n s found (concat pss)) = Inr (outcome n s found (concat pss))"
      by (simp add: search_type_def outcome_def)
    moreover have "\<exists>i < Suc j. available s e (req_type (qs ! i)) < required_count (qs ! i)"
      using ih(5) False less_SucI by blast
    ultimately show ?thesis unfolding step using ih(2,3) False by (intro exI [of _ pss] exI [of _ False]) auto
  next
    case True
    let ?q = "qs ! j" and ?cs = "concat pss"
    have jl: "j < length qs" using Suc.prems by simp
    have r: "type_ok s (req_type ?q)" using types jl by simp
    have len: "length pss = j" using ih(4) True by simp
    have room: "length ?cs + nat (required_count ?q) \<le> n"
    proof -
      let ?ns = "map (\<lambda>q. nat (required_count q)) qs"
      have "length ?cs = sum_list (take j ?ns)" using ih(4) True jl by (intro length_concat_take) auto
      then have "length ?cs + nat (required_count ?q) = sum_list (take (Suc j) ?ns)"
        using jl by (simp add: take_Suc_conv_app_nth)
      also have "\<dots> \<le> n" using sum_list_take_le n order_trans by blast
      finally show ?thesis .
    qed
    have new: "set ?cs \<inter> set (type_twins (req_type ?q)) = {}"
    proof -
      have False if "t \<in> set ?cs" "t \<in> set (type_twins (req_type ?q))" for t
      proof -
        from that(1) obtain ps where "ps \<in> set pss" "t \<in> set ps" by auto
        then obtain i where i: "i < j" "t \<in> set (pss ! i)" using len by (metis in_set_conv_nth)
        then have "t \<in> set (type_twins (req_type (qs ! i)))" using ih(3) len picks_set by blast
        then have "rescuer (twin_at s t) = req_type (qs ! i)"
          using types [of "qs ! i"] i(1) jl by (auto simp: type_ok_def)
        moreover have "rescuer (twin_at s t) = req_type ?q" using r that(2) by (auto simp: type_ok_def)
        ultimately show False using dist i(1) jl by (auto simp: distinct_conv_nth)
      qed
      then show ?thesis by blast
    qed
    from search_ones [OF r room new] obtain ps fnd where ps:
      "rfold (\<lambda>_. search_one e (req_type ?q)) [0..<nat (required_count ?q)] (outcome n s True ?cs)
        = Inr (outcome n s fnd (?cs @ ps))" "picks s e (req_type ?q) ps"
      "fnd \<longrightarrow> length ps = nat (required_count ?q)"
      "\<not> fnd \<longrightarrow> length ps < nat (required_count ?q) \<and> (\<forall>t \<in> set (type_twins (req_type ?q)). eligible s e t \<longrightarrow> t \<in> set ps)"
      by blast
    have eq: "search_type e j (outcome n s found ?cs) = Inr (outcome n s fnd (concat (pss @ [ps])))"
      using ps(1) qs [OF jl] True by (simp add: search_type_def outcome_def)
    have pk: "\<forall>i < length (pss @ [ps]). picks s e (req_type (qs ! i)) ((pss @ [ps]) ! i)"
      using ih(3) ps(2) len by (auto simp: nth_append less_Suc_eq)
    have fd: "fnd \<longrightarrow> length (pss @ [ps]) = Suc j \<and> (\<forall>i < Suc j. length ((pss @ [ps]) ! i) = nat (required_count (qs ! i)))"
      using ih(4) True ps(3) by (auto simp: nth_append less_Suc_eq)
    have nf: "\<not> fnd \<longrightarrow> (\<exists>i < Suc j. available s e (req_type (qs ! i)) < required_count (qs ! i))"
    proof
      assume "\<not> fnd"
      then have "available s e (req_type ?q) \<le> int (length ps)" "length ps < nat (required_count ?q)"
        using ps(4) picks_available(2) [OF r ps(2)] by blast+
      then have "available s e (req_type ?q) < required_count ?q" by linarith
      then show "\<exists>i < Suc j. available s e (req_type (qs ! i)) < required_count (qs ! i)" by blast
    qed
    show ?thesis unfolding step eq using pk fd nf len
      by (intro exI [of _ "pss @ [ps]"] exI [of _ fnd] conjI) auto
  qed
qed

text \<open>Clearing the marks gives back the state before the search.\<close>

lemma clear_candidates:
  assumes "no_flags s" and "\<forall>t \<in> set cs. known s t" and "distinct cs"
  shows "rfold (clear_candidate (cand_array n cs)) [0..<length cs] (flagged s (set cs)) = Inr s"
proof -
  have "rfold (clear_candidate (cand_array n cs)) [0..<k] (flagged s (set cs)) = Inr (flagged s (set (drop k cs)))"
    if "k \<le> length cs" for k
    using that
  proof (induction k)
    case (Suc k)
    then have k: "k < length cs" by simp
    let ?t = "cs ! k"
    have c: "candidate_at (cand_array n cs) (int k) = Inr ?t"
      using k by (simp add: candidate_at_def cand_array_def arr_get_def nth_append)
    have drop: "drop k cs = ?t # drop (Suc k) cs" using k by (simp add: Cons_nth_drop_Suc)
    have "?t \<notin> set (drop (Suc k) cs)" using assms(3) drop by (metis distinct.simps(2) distinct_drop)
    moreover have "\<not> is_a_candidate (twin_at s ?t)" using assms(1,2) k by (simp add: no_flags_def)
    ultimately have "set_twin ?t ((twin_at (flagged s (set (drop k cs))) ?t)\<lparr>is_a_candidate := False\<rparr>)
        (flagged s (set (drop k cs))) = flagged s (set (drop (Suc k) cs))"
      unfolding drop by (auto simp: flagged_def set_twin_def fun_eq_iff)
    then show ?case using Suc c by (simp add: rfold_append clear_candidate_def)
  qed simp
  from this [of "length cs"] show ?thesis by simp
qed

section \<open>Preemption\<close>

lemma requests_update:
  assumes "requests_ok s n rs" and "i < nat n"
    and "Some (req_type q) \<in> set (rescuer_types s)" "0 \<le> required_count q"
    and "req_type q = req_type (requests n rs ! i)"
  shows "requests_ok s n (rs[i := Some q])" and "requests n (rs[i := Some q]) = (requests n rs)[i := q]"
proof -
  have len: "nat n < length rs" using assms(1) by (simp add: requests_ok_def)
  show eq: "requests n (rs[i := Some q]) = (requests n rs)[i := q]"
    by (simp add: requests_def take_update_swap map_update)
  have "get_name_of_rescuer_requested q = get_name_of_rescuer_requested (requests n rs ! i)"
    using assms(5) by (simp add: get_name_of_rescuer_requested_def)
  then have "map get_name_of_rescuer_requested ((requests n rs)[i := q]) = map get_name_of_rescuer_requested (requests n rs)"
    using requests_cells(3) [OF assms(1)] assms(2) by (simp add: map_update list_update_same_conv)
  moreover have "None \<notin> set (take (nat n) (rs[i := Some q]))"
    using assms(1) set_update_subset_insert [of "take (nat n) rs" i "Some q"]
    by (auto simp: take_update_swap requests_ok_def)
  moreover have "set ((requests n rs)[i := q]) \<subseteq> insert q (set (requests n rs))"
    by (rule set_update_subset_insert)
  ultimately show "requests_ok s n (rs[i := Some q])"
    using assms(1-4) len unfolding requests_ok_def eq by auto
qed

lemma total_count_update:
  "i < length qs \<Longrightarrow> total_count (qs[i := q]) = total_count qs - required_count (qs ! i) + required_count q"
proof (induction qs arbitrary: i)
  case (Cons q' qs)
  then show ?case by (cases i) (auto simp: total_count_def)
qed simp

text \<open>
  What preemption does to an emergency: one more rescuer missing, the slot emptied, and the
  emergency paused and signalled unless it was paused already.
\<close>

definition robbed :: "emergency \<Rightarrow> emergency \<Rightarrow> bool" where
  "robbed em em' \<longleftrightarrow> status em' = PAUSED \<and> missing em < missing em'
     \<and> cond em' = cond em + (if status em = PAUSED then 0 else 1)
     \<and> how_many_times_was_paused em' = how_many_times_was_paused em + (if status em = PAUSED then 0 else 1)
     \<and> eid em' = eid em \<and> etype em' = etype em \<and> priority em' = priority em
     \<and> emg_x em' = emg_x em \<and> emg_y em' = emg_y em \<and> rescuer_count em' = rescuer_count em
     \<and> timeout_timer em' = timeout_timer em \<and> promotion_timer em' = promotion_timer em
     \<and> rescuers_not_done_yet em' = rescuers_not_done_yet em"

lemma robbed_trans: "robbed a b \<Longrightarrow> robbed b c \<Longrightarrow> robbed a c"
  by (auto simp: robbed_def)

lemma preempt_free:
  "emergency (twin_at s t) = None \<Longrightarrow> preempt_if_needed (Some t) e s = Inr s"
  by (simp add: preempt_if_needed_def)

lemma preempt_busy:
  assumes inv: "links_inv s {} f" and t: "known s t" "emergency (twin_at s t) = Some old"
    and f: "f old = missing (emg_at s old)"
  shows "\<exists>em'. preempt_if_needed (Some t) e s = Inr (set_emg old em' s) \<and> robbed (emg_at s old) em'
    \<and> missing em' = missing (emg_at s old) + 1
    \<and> links_inv (set_emg old em' s) {t} (f(old := missing em'))"
proof -
  note i = links_invD [OF inv]
  let ?em = "emg_at s old" and ?n = "rescuers_req_number (etype (emg_at s old))"
  let ?rs = "rescuers_missing (emg_at s old)"
  have old: "old < emg_brk s" using i(5) [OF t(1) _ t(2)] by simp
  have mem: "Some t \<in> set (active_twins ?em)" using i(6) [OF t(1) _ t(2)] by simp
  have ok: "requests_ok s ?n ?rs" and w: "map req_type (requests ?n ?rs) = wanted ?em"
    using i(2) [OF old] by (simp_all add: requests_inv_def)
  have "rescuer (twin_at s t) \<in> set (wanted ?em)" using i(3) [OF old] mem by (simp add: slots_inv_def)
  then have "rescuer (twin_at s t) \<in> req_type ` set (requests ?n ?rs)" unfolding w [symmetric] by simp
  from request_of_type [OF ok this] obtain k where k: "k < nat ?n"
    "get_rescuer_request_by_name (rescuer_type_name (rescuer (twin_at s t))) ?rs = Inr (Some k)" by blast
  let ?q = "requests ?n ?rs ! k"
  let ?q' = "?q\<lparr>required_count := required_count ?q + 1\<rparr>"
  have rk: "?rs ! k = Some ?q" by (rule requests_nth [OF ok k(1)])
  have len: "length (requests ?n ?rs) = nat ?n" by (rule requests_cells(3) [OF ok])
  then have q: "?q \<in> set (requests ?n ?rs)" using k(1) by simp
  then have q': "Some (req_type ?q') \<in> set (rescuer_types s)" "0 \<le> required_count ?q'"
    "req_type ?q' = req_type ?q"
    using ok by (auto simp: requests_ok_def add_increasing2)
  note upd = requests_update [OF ok k(1) q']
  define em1 where "em1 = ?em\<lparr>rescuers_missing := ?rs[k := Some ?q']\<rparr>"
  define em2 where "em2 = (if twin_status (twin_at s t) = ON_SCENE
    then em1\<lparr>rescuers_not_arrived_yet := rescuers_not_arrived_yet em1 + 1\<rparr> else em1)"
  have em2f: "rescuer_twins em2 = rescuer_twins ?em" "rescuer_count em2 = rescuer_count ?em"
    by (simp_all add: em2_def em1_def)
  have "t \<notin> {}" by simp
  from remove_twin_found [OF inv t(1) this t(2) em2f] obtain j where
    j: "j < nat (rescuer_count ?em)" "rescuer_twins ?em ! j = Some t"
    "remove_twin_from_its_emergency (Some t) (set_emg old em2 s)
      = Inr (set_emg old (em2\<lparr>rescuer_twins := (rescuer_twins ?em)[j := None]\<rparr>) s)"
    unfolding em2f by blast
  define em3 where "em3 = em2\<lparr>rescuer_twins := (rescuer_twins ?em)[j := None]\<rparr>"
  define em4 where "em4 = (if status em3 \<noteq> PAUSED
    then em3\<lparr>how_many_times_was_paused := how_many_times_was_paused em3 + 1, status := PAUSED,
           cond := cond em3 + 1\<rparr> else em3)"
  have st: "twin_status (twin_at s t) = EN_ROUTE_TO_SCENE \<or> twin_status (twin_at s t) = ON_SCENE"
    by (rule twin_okD(4) [OF known_type(4) [OF i(1) t(1)] t(2)])
  then have ni: "twin_status (twin_at s t) \<noteq> IDLE" by auto
  have rm: "remove_twin_from_its_emergency (Some t) (set_emg old em2 s) = Inr (set_emg old em3 s)"
    using j(3) by (simp add: em3_def)
  have "preempt_if_needed (Some t) e s = Inr (set_emg old em4 s)"
  proof (cases "twin_status (twin_at s t) = ON_SCENE")
    case True
    then have "em2 = em1\<lparr>rescuers_not_arrived_yet := rescuers_not_arrived_yet ?em + 1\<rparr>"
      by (simp add: em2_def em1_def)
    then show ?thesis using rm t(2) k(2) rk True
      by (simp add: preempt_if_needed_def em1_def [symmetric] em4_def)
  next
    case False
    then have "em2 = em1" by (simp add: em2_def)
    then show ?thesis using rm ni t(2) k(2) rk False
      by (simp add: preempt_if_needed_def em1_def [symmetric] em4_def)
  qed
  moreover have eqs: "eid em4 = eid ?em" "etype em4 = etype ?em" "rescuer_count em4 = rescuer_count ?em"
    "rescuer_twins em4 = (rescuer_twins ?em)[j := None]" "rescuers_missing em4 = ?rs[k := Some ?q']"
    "rescuers_not_done_yet em4 = rescuers_not_done_yet ?em"
    "rescuers_not_arrived_yet em4 = rescuers_not_arrived_yet ?em + (if twin_status (twin_at s t) = ON_SCENE then 1 else 0)"
    by (simp_all add: em1_def em2_def em3_def em4_def)
  moreover have miss: "missing em4 = missing ?em + 1"
    using total_count_update [of k "requests ?n ?rs" ?q'] k(1) len upd(2) eqs by (simp add: missing_def)
  moreover have "robbed ?em em4" using miss
    by (simp add: robbed_def em1_def em2_def em3_def em4_def)
  moreover have "links_inv (set_emg old em4 s) (insert t {}) (f(old := missing em4))"
  proof (rule links_inv_detach [OF inv t(1) _ t(2) j(1,2) eqs(1-4)])
    have "map req_type ((requests ?n ?rs)[k := ?q']) = map req_type (requests ?n ?rs)"
      using k(1) len by (simp add: map_update list_update_same_conv)
    then show "requests_inv s em4" using i(2) [OF old] eqs upd w by (simp add: requests_inv_def wanted_def)
    show "rescuers_not_done_yet em4 = rescuers_not_done_yet ?em - f old + missing em4 - 1"
      using eqs miss f by simp
    show "rescuers_not_arrived_yet em4 = rescuers_not_arrived_yet ?em - f old + missing em4
        - (if twin_status (twin_at s t) = EN_ROUTE_TO_SCENE then 1 else 0)"
      using eqs miss f st by auto
    show "0 \<le> missing em4" using i(4) [OF old] f miss by (simp add: counts_inv_def)
    show "rescuers_not_done_yet em4 \<le> rescuer_count em4" using i(4) [OF old] eqs by (simp add: counts_inv_def)
  qed simp
  ultimately show ?thesis by auto
qed

section \<open>Departure\<close>

text \<open>A twin sent to a scene: bound for it, on a course from where it stands.\<close>

definition sent_to :: "server \<Rightarrow> emg_ptr \<Rightarrow> rescuer_digital_twin \<Rightarrow> rescuer_digital_twin \<Rightarrow> bool" where
  "sent_to s e v v' \<longleftrightarrow>
     twin_status v' = EN_ROUTE_TO_SCENE \<and> emergency v' = Some e
     \<and> twin_id v' = twin_id v \<and> rescuer v' = rescuer v \<and> is_a_candidate v' = is_a_candidate v
     \<and> twin_x v' = twin_x v \<and> twin_y v' = twin_y v \<and> trajectory v' \<noteq> None
     \<and> (twin_x v \<noteq> emg_x (emg_at s e) \<or> twin_y v \<noteq> emg_y (emg_at s e) \<longrightarrow>
          trajectory v' = change_bresenham_trajectory (trajectory v) (twin_x v) (twin_y v)
            (emg_x (emg_at s e)) (emg_y (emg_at s e)))
     \<and> (twin_x v = emg_x (emg_at s e) \<and> twin_y v = emg_y (emg_at s e) \<longrightarrow> trajectory v' = trajectory v)"

lemma change_bresenham_trajectory_NULL: "change_bresenham_trajectory p a b c d = None \<longleftrightarrow> p = None"
  by (simp add: change_bresenham_trajectory_def Let_def split: option.splits)

lemma change_destination:
  assumes "trajectory (twin_at s t) \<noteq> None"
  shows "\<exists>v. change_rescuer_digital_twin_destination (Some t) nx ny s = Inr (set_twin t v s)
    \<and> twin_status v = twin_status (twin_at s t) \<and> emergency v = emergency (twin_at s t)
    \<and> twin_id v = twin_id (twin_at s t) \<and> rescuer v = rescuer (twin_at s t)
    \<and> is_a_candidate v = is_a_candidate (twin_at s t)
    \<and> twin_x v = twin_x (twin_at s t) \<and> twin_y v = twin_y (twin_at s t) \<and> trajectory v \<noteq> None
    \<and> (twin_x v \<noteq> nx \<or> twin_y v \<noteq> ny \<longrightarrow> trajectory v =
        change_bresenham_trajectory (trajectory (twin_at s t)) (twin_x v) (twin_y v) nx ny)
    \<and> (twin_x v = nx \<and> twin_y v = ny \<longrightarrow> trajectory v = trajectory (twin_at s t))"
proof (cases "twin_x (twin_at s t) = nx \<and> twin_y (twin_at s t) = ny")
  case True
  then show ?thesis using assms
    by (intro exI [of _ "(twin_at s t)\<lparr>has_arrived := Some True\<rparr>"])
      (simp add: change_rescuer_digital_twin_destination_def)
next
  case False
  have "trajectory (twin_at s t) \<noteq> None \<Longrightarrow>
      change_bresenham_trajectory (trajectory (twin_at s t)) x y nx ny \<noteq> None" for x y
    by (simp only: change_bresenham_trajectory_NULL not_False_eq_True)
  then show ?thesis using False assms
    by (intro exI [of _ "(twin_at s t)\<lparr>has_arrived := Some False,
        time_left_before_leaving := INVALID_TIME,
        trajectory := change_bresenham_trajectory (trajectory (twin_at s t))
          (twin_x (twin_at s t)) (twin_y (twin_at s t)) nx ny\<rparr>"])
      (auto simp: change_rescuer_digital_twin_destination_def Let_def simp del: not_None_eq)
qed

lemma send_correct:
  assumes "requests_inv s (emg_at s e)" and "twin_ok s t"
    and "rescuer (twin_at s t) \<in> set (wanted (emg_at s e))"
    and "\<And>old. emergency (twin_at s t) = Some old \<Longrightarrow> eid (emg_at s old) \<noteq> eid (emg_at s e)"
  shows "\<exists>v. send_rescuer_digital_twin_to_scene t e s = Inr (set_twin t v s) \<and> sent_to s e (twin_at s t) v"
proof -
  let ?rs = "rescuers (etype (emg_at s e))" and ?n = "rescuers_req_number (etype (emg_at s e))"
  have ok: "requests_ok s ?n ?rs" using assms(1) by (simp add: requests_inv_def)
  have "rescuer (twin_at s t) \<in> req_type ` set (requests ?n ?rs)" using assms(3) by (simp add: wanted_def)
  from request_of_type [OF ok this] obtain k where k: "k < nat ?n"
    "get_rescuer_request_by_name (rescuer_type_name (rescuer (twin_at s t))) ?rs = Inr (Some k)" by blast
  have rk: "?rs ! k = Some (requests ?n ?rs ! k)" by (rule requests_nth [OF ok k(1)])
  have first: "(if twin_status (twin_at s t) = ON_SCENE \<or> twin_status (twin_at s t) = EN_ROUTE_TO_SCENE
           then rbind (deref (emergency (twin_at s t))) (\<lambda>old. Inr (eid (emg_at s old) = eid (emg_at s e)))
           else Inr False) = Inr False"
    using assms(2,4) by (auto simp: twin_ok_def)
  let ?tm = "time_to_manage (requests ?n ?rs ! k)"
  let ?v = "(twin_at s t)\<lparr>twin_status := EN_ROUTE_TO_SCENE, emergency := Some e,
      twin_time_to_manage := ?tm, time_left_before_leaving := ?tm\<rparr>"
  have "send_rescuer_digital_twin_to_scene t e s
      = change_rescuer_digital_twin_destination (Some t) (emg_x (emg_at s e)) (emg_y (emg_at s e)) (set_twin t ?v s)"
    using k(2) rk unfolding send_rescuer_digital_twin_to_scene_def first by simp
  moreover have "trajectory (twin_at (set_twin t ?v s) t) \<noteq> None" using twin_okD(2) [OF assms(2)] by simp
  note change_destination [OF this, of "emg_x (emg_at s e)" "emg_y (emg_at s e)"]
  ultimately show ?thesis by (fastforce simp: sent_to_def)
qed

section \<open>Filling the slots\<close>

definition donor :: "server \<Rightarrow> emg_ptr \<Rightarrow> twin_ptr \<Rightarrow> bool" where
  "donor s e t \<longleftrightarrow> known s t \<and> rescuer (twin_at s t) \<in> set (wanted (emg_at s e)) \<and>
     (\<forall>old. emergency (twin_at s t) = Some old \<longrightarrow>
        lower_priority s old e \<and> eid (emg_at s old) \<noteq> eid (emg_at s e))"

text \<open>
  From the state \<open>s0\<close> the loop has filled the slots before \<open>i\<close> with the twins \<open>taken\<close>; the
  twins \<open>ps\<close> are still to be placed and there is one empty slot for each, and \<open>d\<close> more: those
  of the twins that have already finished their work here.
\<close>

definition filling :: "nat \<Rightarrow> server \<Rightarrow> emg_ptr \<Rightarrow> nat \<Rightarrow> twin_ptr list \<Rightarrow> twin_ptr list \<Rightarrow> server \<Rightarrow> bool" where
  "filling d s0 e i taken ps s \<longleftrightarrow>
     links_inv s {} (\<lambda>x. if x = e then int (length ps) else missing (emg_at s x)) \<and>
     (\<exists>ta ea. s = s0\<lparr>twin_at := ta, emg_at := ea\<rparr>) \<and>
     distinct ps \<and> (\<forall>t \<in> set ps. donor s e t) \<and> i \<le> length (active_twins (emg_at s e)) \<and>
     (\<forall>j < i. active_twins (emg_at s e) ! j \<noteq> None) \<and>
     count_if (\<lambda>c. c = None) (drop i (active_twins (emg_at s e))) = length ps + d \<and>
     (\<exists>ts. emg_at s e = (emg_at s0 e)\<lparr>rescuer_twins := ts\<rparr>) \<and>
     (\<forall>x. x \<noteq> e \<longrightarrow> emg_at s x = emg_at s0 x
        \<or> robbed (emg_at s0 x) (emg_at s x) \<and> lower_priority s0 x e) \<and>
     (\<forall>t. is_a_candidate (twin_at s t) = is_a_candidate (twin_at s0 t)) \<and>
     (\<forall>t. t \<notin> set taken \<longrightarrow> twin_at s t = twin_at s0 t) \<and>
     (\<forall>t \<in> set taken. sent_to s0 e (twin_at s0 t) (twin_at s t))"

lemma lower_priority_frame:
  "priority (emg_at s x) = priority (emg_at s0 x) \<Longrightarrow> priority (emg_at s e) = priority (emg_at s0 e) \<Longrightarrow>
     lower_priority s x e = lower_priority s0 x e"
  by (simp add: lower_priority_def)

lemma preempt_donor:
  assumes inv: "links_inv s {} (\<lambda>x. if x = e then k else missing (emg_at s x))" and d: "donor s e t"
  shows "\<exists>s1 ea. preempt_if_needed (Some t) e s = Inr s1 \<and> s1 = s\<lparr>emg_at := ea\<rparr>
    \<and> links_inv s1 {t} (\<lambda>x. if x = e then k else missing (emg_at s1 x))
    \<and> emg_at s1 e = emg_at s e
    \<and> (\<forall>x. x \<noteq> e \<longrightarrow> emg_at s1 x = emg_at s x \<or> robbed (emg_at s x) (emg_at s1 x) \<and> lower_priority s x e)"
proof (cases "emergency (twin_at s t)")
  case None
  then show ?thesis using preempt_free [OF None] links_inv_free_twin [OF inv None]
    by (intro exI [of _ s] exI [of _ "emg_at s"]) simp
next
  case (Some old)
  then have ne: "old \<noteq> e" and low: "lower_priority s old e" and k: "known s t"
    using d by (auto simp: donor_def)
  from preempt_busy [OF inv k Some, of e] ne obtain em' where
    em': "preempt_if_needed (Some t) e s = Inr (set_emg old em' s)" "robbed (emg_at s old) em'"
    "links_inv (set_emg old em' s) {t} ((\<lambda>x. if x = e then k else missing (emg_at s x))(old := missing em'))"
    by auto
  have "(\<lambda>x. if x = e then k else missing (emg_at s x))(old := missing em')
      = (\<lambda>x. if x = e then k else missing (emg_at (set_emg old em' s) x))" using ne by auto
  then have l: "links_inv (set_emg old em' s) {t} (\<lambda>x. if x = e then k else missing (emg_at (set_emg old em' s) x))"
    using em'(3) by simp
  show ?thesis
    using em'(1,2) ne low l
    by (intro exI [of _ "set_emg old em' s"] exI [of _ "(emg_at s)(old := em')"])
      (auto simp: set_emg_def)
qed

text \<open>One donor placed in the empty slot \<open>i\<close>.\<close>

lemma place_donor:
  assumes inv: "links_inv s {} (\<lambda>x. if x = e then k else missing (emg_at s x))" and d: "donor s e t"
    and e: "e < emg_brk s" and slot: "i < nat (rescuer_count (emg_at s e))" "rescuer_twins (emg_at s e) ! i = None"
    and k: "0 < k" and c: "candidate_at cs n = Inr t"
  shows "\<exists>v ea. assign_slot e cs i (n, s) = Inr (n + 1, s\<lparr>twin_at := (twin_at s)(t := v), emg_at := ea\<rparr>)
    \<and> links_inv (s\<lparr>twin_at := (twin_at s)(t := v), emg_at := ea\<rparr>) {}
        (\<lambda>x. if x = e then k - 1 else missing (ea x))
    \<and> ea e = (emg_at s e)\<lparr>rescuer_twins := (rescuer_twins (emg_at s e))[i := Some t]\<rparr>
    \<and> sent_to s e (twin_at s t) v
    \<and> (\<forall>x. x \<noteq> e \<longrightarrow> ea x = emg_at s x \<or> robbed (emg_at s x) (ea x) \<and> lower_priority s x e)"
proof -
  from preempt_donor [OF inv d] obtain s1 ea where s1: "preempt_if_needed (Some t) e s = Inr s1"
    "s1 = s\<lparr>emg_at := ea\<rparr>" "links_inv s1 {t} (\<lambda>x. if x = e then k else missing (emg_at s1 x))"
    "emg_at s1 e = emg_at s e"
    "\<forall>x. x \<noteq> e \<longrightarrow> emg_at s1 x = emg_at s x \<or> robbed (emg_at s x) (emg_at s1 x) \<and> lower_priority s x e"
    by blast
  let ?em = "(emg_at s e)\<lparr>rescuer_twins := (rescuer_twins (emg_at s e))[i := Some t]\<rparr>"
  let ?s2 = "set_emg e ?em s1"
  note l1 = links_invD [OF s1(3)]
  have e1: "e < emg_brk s1" "twin_at s1 = twin_at s" "known s1 = known s"
    using e s1(2) by (simp_all add: known_def fun_eq_iff)
  have req: "requests_inv s1 (emg_at s e)" using l1(2) [OF e1(1)] s1(4) by simp
  then have len: "i < length (rescuer_twins (emg_at s e))" using slot(1) by (simp add: requests_inv_def)
  have kt: "known s1 t" using d e1(3) by (simp add: donor_def)
  have ok: "twin_ok s1 t" by (rule known_type(4) [OF l1(1) kt])
  have ok2: "twin_ok ?s2 t" using ok by (simp add: twin_ok_def)
  have w: "wanted ?em = wanted (emg_at s e)" by (simp add: wanted_def)
  have rt: "rescuer (twin_at s t) \<in> set (wanted (emg_at s e))" using d by (simp add: donor_def)
  have "\<exists>v. send_rescuer_digital_twin_to_scene t e ?s2 = Inr (set_twin t v ?s2) \<and> sent_to ?s2 e (twin_at ?s2 t) v"
  proof (rule send_correct [OF _ ok2])
    show "requests_inv ?s2 (emg_at ?s2 e)" using req by (simp add: requests_inv_def wanted_def)
    show "rescuer (twin_at ?s2 t) \<in> set (wanted (emg_at ?s2 e))" using rt w e1 by simp
    fix old assume "emergency (twin_at ?s2 t) = Some old"
    then have "emergency (twin_at s t) = Some old" using e1 by simp
    then have "eid (emg_at s old) \<noteq> eid (emg_at s e)" using d by (simp add: donor_def)
    then show "eid (emg_at ?s2 old) \<noteq> eid (emg_at ?s2 e)"
      using s1(5) by (cases "old = e") (auto simp: robbed_def)
  qed
  then obtain v where v: "send_rescuer_digital_twin_to_scene t e ?s2 = Inr (set_twin t v ?s2)"
    "sent_to ?s2 e (twin_at ?s2 t) v" by blast
  have v': "sent_to s e (twin_at s t) v" using v(2) e1 by (simp add: sent_to_def)
  have "arr_get (rescuer_twins (emg_at s e)) (int i) = Inr None" using len slot(2) by simp
  then have run: "assign_slot e cs i (n, s) = Inr (n + 1, set_twin t v ?s2)"
    using c s1(1,4) v(1) len by (simp add: assign_slot_def)
  let ?ea = "(emg_at s1)(e := ?em)"
  have st: "set_twin t v ?s2 = s\<lparr>twin_at := (twin_at s)(t := v), emg_at := ?ea\<rparr>"
    using s1(2) by (simp add: set_twin_def set_emg_def)
  have t1: "links_inv (set_twin t v s1) {t} (\<lambda>x. if x = e then k else missing (emg_at s1 x))"
  proof (rule links_inv_set_twin [OF s1(3)])
    show "twin_ok (set_twin t v s1) t" using v' ok e1 by (auto simp: twin_ok_def sent_to_def)
  qed (use v' e1 in \<open>auto simp: sent_to_def\<close>)
  have "links_inv (set_emg e ((emg_at (set_twin t v s1) e)\<lparr>rescuer_twins :=
      (rescuer_twins (emg_at (set_twin t v s1) e))[i := Some t]\<rparr>) (set_twin t v s1)) ({t} - {t})
      ((\<lambda>x. if x = e then k else missing (emg_at s1 x))(e := (if e = e then k else missing (emg_at s1 e)) - 1))"
    by (rule links_inv_attach [OF t1]) (use kt v' e1 rt slot k s1(4) in \<open>auto simp: sent_to_def\<close>)
  moreover have "(\<lambda>x. if x = e then k else missing (emg_at s1 x))(e := (if e = e then k else missing (emg_at s1 e)) - 1)
      = (\<lambda>x. if x = e then k - 1 else missing (?ea x))" by auto
  ultimately have "links_inv (set_emg e ?em (set_twin t v s1)) {} (\<lambda>x. if x = e then k - 1 else missing (?ea x))"
    using s1(4) by simp
  then have lk: "links_inv (s\<lparr>twin_at := (twin_at s)(t := v), emg_at := ?ea\<rparr>) {}
      (\<lambda>x. if x = e then k - 1 else missing (?ea x))"
    by (simp only: st [symmetric] set_commute)
  have "\<forall>x. x \<noteq> e \<longrightarrow> ?ea x = emg_at s x \<or> robbed (emg_at s x) (?ea x) \<and> lower_priority s x e"
    using s1(5) by simp
  moreover have "?ea e = ?em" by simp
  ultimately show ?thesis using run lk v' unfolding st by blast
qed

lemma filling_skip:
  assumes fill: "filling d s0 e i taken ps s" and i: "i < length (active_twins (emg_at s e))"
    and full: "active_twins (emg_at s e) ! i \<noteq> None"
  shows "filling d s0 e (Suc i) taken ps s"
proof -
  have "drop i (active_twins (emg_at s e)) = active_twins (emg_at s e) ! i # drop (Suc i) (active_twins (emg_at s e))"
    using i by (simp add: Cons_nth_drop_Suc)
  then have "count_if (\<lambda>c. c = None) (drop (Suc i) (active_twins (emg_at s e))) = length ps + d"
    using fill full by (simp add: filling_def)
  then show ?thesis using fill i full unfolding filling_def by (auto simp: less_Suc_eq)
qed

lemma filling_place:
  assumes fill: "filling d s0 e i taken (t # ps) s" and e: "e < emg_brk s"
    and i: "i < length (active_twins (emg_at s e))" and empty: "active_twins (emg_at s e) ! i = None"
    and new: "t \<notin> set taken" and c: "candidate_at cs n = Inr t"
  shows "\<exists>s'. assign_slot e cs i (n, s) = Inr (n + 1, s') \<and> filling d s0 e (Suc i) (taken @ [t]) ps s'"
proof -
  note F = fill [unfolded filling_def]
  have inv: "links_inv s {} (\<lambda>x. if x = e then int (length (t # ps)) else missing (emg_at s x))"
    and d: "donor s e t" using F by auto
  have ri: "requests_inv s (emg_at s e)" by (rule links_invD(2) [OF inv e])
  have slot: "i < nat (rescuer_count (emg_at s e))" using i active_nth(2) [OF ri] by simp
  then have em: "rescuer_twins (emg_at s e) ! i = None" using empty active_update(2) [OF ri] by simp
  from place_donor [OF inv d e slot em _ c] obtain v ea where
    run: "assign_slot e cs i (n, s) = Inr (n + 1, s\<lparr>twin_at := (twin_at s)(t := v), emg_at := ea\<rparr>)"
    and lk: "links_inv (s\<lparr>twin_at := (twin_at s)(t := v), emg_at := ea\<rparr>) {}
        (\<lambda>x. if x = e then int (length (t # ps)) - 1 else missing (ea x))"
    and ee: "ea e = (emg_at s e)\<lparr>rescuer_twins := (rescuer_twins (emg_at s e))[i := Some t]\<rparr>"
    and v: "sent_to s e (twin_at s t) v"
    and oth: "\<forall>x. x \<noteq> e \<longrightarrow> ea x = emg_at s x \<or> robbed (emg_at s x) (ea x) \<and> lower_priority s x e"
    by auto
  let ?s = "s\<lparr>twin_at := (twin_at s)(t := v), emg_at := ea\<rparr>"
  have act: "active_twins (ea e) = (active_twins (emg_at s e))[i := Some t]"
    unfolding ee by (rule active_update(1) [OF ri slot])
  have e0: "\<exists>ts. emg_at s e = (emg_at s0 e)\<lparr>rescuer_twins := ts\<rparr>" using F by blast
  then have same: "priority (emg_at s e) = priority (emg_at s0 e)" "eid (emg_at s e) = eid (emg_at s0 e)"
    "emg_x (emg_at s e) = emg_x (emg_at s0 e)" "emg_y (emg_at s e) = emg_y (emg_at s0 e)" by auto
  have "(\<lambda>x. if x = e then int (length (t # ps)) - 1 else missing (ea x))
      = (\<lambda>x. if x = e then int (length ps) else missing (emg_at ?s x))" by auto
  with lk have c1: "links_inv ?s {} (\<lambda>x. if x = e then int (length ps) else missing (emg_at ?s x))" by simp
  have c2: "\<exists>ta ea. ?s = s0\<lparr>twin_at := ta, emg_at := ea\<rparr>"
  proof -
    obtain ta eb where "s = s0\<lparr>twin_at := ta, emg_at := eb\<rparr>" using F by blast
    then have "?s = s0\<lparr>twin_at := (twin_at s)(t := v), emg_at := ea\<rparr>" by simp
    then show ?thesis by blast
  qed
  have c3: "donor ?s e u" if "u \<in> set ps" for u
  proof -
    have u: "donor s e u" "u \<noteq> t" using F that by auto
    have "lower_priority ?s old e \<and> eid (ea old) \<noteq> eid (ea e)" if o: "emergency (twin_at s u) = Some old" for old
    proof -
      have ou: "lower_priority s old e" "eid (emg_at s old) \<noteq> eid (emg_at s e)"
        using u(1) o by (auto simp: donor_def)
      then have "old \<noteq> e" by auto
      then have "priority (ea old) = priority (emg_at s old)" "eid (ea old) = eid (emg_at s old)"
        using oth by (auto simp: robbed_def)
      then show ?thesis using ou ee by (simp add: lower_priority_def)
    qed
    moreover have "wanted (ea e) = wanted (emg_at s e)" by (simp add: ee wanted_def)
    ultimately show ?thesis using u by (simp add: donor_def known_def)
  qed
  have drop: "drop i (active_twins (emg_at s e)) = None # drop (Suc i) (active_twins (emg_at s e))"
    using i empty by (metis Cons_nth_drop_Suc)
  then have c4: "count_if (\<lambda>c. c = None) (drop (Suc i) (active_twins (ea e))) = length ps + d"
    using F by (simp add: act)
  have c5: "\<forall>j < Suc i. active_twins (ea e) ! j \<noteq> None" using F i by (auto simp: act less_Suc_eq nth_list_update)
  have c6: "ea x = emg_at s0 x \<or> robbed (emg_at s0 x) (ea x) \<and> lower_priority s0 x e" if "x \<noteq> e" for x
  proof -
    from F that have a: "emg_at s x = emg_at s0 x \<or> robbed (emg_at s0 x) (emg_at s x) \<and> lower_priority s0 x e" by blast
    then have "priority (emg_at s x) = priority (emg_at s0 x)" by (auto simp: robbed_def)
    then have "lower_priority s x e = lower_priority s0 x e" using lower_priority_frame same(1) by blast
    then show ?thesis using a oth that robbed_trans by metis
  qed
  have t0: "twin_at s t = twin_at s0 t" using F new by auto
  have sent: "sent_to s0 e (twin_at s0 u) (twin_at ?s u)" if "u \<in> set (taken @ [t])" for u
    using that F v same t0 by (auto simp: sent_to_def)
  have "filling d s0 e (Suc i) (taken @ [t]) ps ?s"
    unfolding filling_def
  proof (intro conjI)
    show "\<exists>ts. emg_at ?s e = (emg_at s0 e)\<lparr>rescuer_twins := ts\<rparr>" using e0 ee by auto
    show "\<forall>u. is_a_candidate (twin_at ?s u) = is_a_candidate (twin_at s0 u)"
      using F v by (auto simp: sent_to_def)
  qed (use c1 c2 c3 c4 c5 c6 sent F i act in auto)
  then show ?thesis using run by blast
qed

text \<open>
  The whole loop over the slots. It reads past the candidates exactly when there are slots
  left by twins that have finished.
\<close>

lemma assign_slots:
  assumes fill: "filling d s0 e 0 [] cs s0" and e: "e < emg_brk s0" and dist: "distinct cs"
    and n: "i \<le> nat (rescuer_count (emg_at s0 e))"
    and c: "\<And>k. k < length cs \<Longrightarrow> candidate_at ca (int k) = Inr (cs ! k)"
    and past: "candidate_at ca (int (length cs)) = Inl OutOfBounds"
  shows "(\<exists>k s. rfold (assign_slot e ca) [0..<i] (0, s0) = Inr (int k, s) \<and> k \<le> length cs
      \<and> filling d s0 e i (take k cs) (drop k cs) s)
    \<or> 0 < d \<and> rfold (assign_slot e ca) [0..<i] (0, s0) = Inl OutOfBounds"
  using n
proof (induction i)
  case 0
  then show ?case using fill by (intro disjI1 exI [of _ 0] exI [of _ s0]) simp
next
  case (Suc i)
  then consider (ok) k s where "rfold (assign_slot e ca) [0..<i] (0, s0) = Inr (int k, s)" "k \<le> length cs"
      "filling d s0 e i (take k cs) (drop k cs) s"
    | (oob) "0 < d" "rfold (assign_slot e ca) [0..<i] (0, s0) = Inl OutOfBounds" by auto
  then show ?case
  proof cases
    case oob
    then show ?thesis by (simp add: rfold_append)
  next
    case (ok k s)
    note F = ok(3) [unfolded filling_def]
    have e': "e < emg_brk s" using F e by auto
    have inv: "links_inv s {} (\<lambda>x. if x = e then int (length (drop k cs)) else missing (emg_at s x))"
      using F by blast
    have ri: "requests_inv s (emg_at s e)" by (rule links_invD(2) [OF inv e'])
    have cnt: "rescuer_count (emg_at s e) = rescuer_count (emg_at s0 e)" using F by auto
    then have i: "i < length (active_twins (emg_at s e))" using Suc.prems active_nth(2) [OF ri] by simp
    then have at: "active_twins (emg_at s e) ! i = rescuer_twins (emg_at s e) ! i"
      using active_update(2) [OF ri] active_nth(2) [OF ri] by simp
    have len: "i < length (rescuer_twins (emg_at s e))" using i by (simp add: active_twins_def)
    have step: "rfold (assign_slot e ca) [0..<Suc i] (0, s0) = assign_slot e ca i (int k, s)"
      using ok(1) by (simp add: rfold_append) (simp add: rbind_def split: sum.splits)
    show ?thesis
    proof (cases "active_twins (emg_at s e) ! i = None")
      case False
      then have "assign_slot e ca i (int k, s) = Inr (int k, s)"
        using len at by (simp add: assign_slot_def)
      then show ?thesis unfolding step using ok(2) filling_skip [OF ok(3) i False] by blast
    next
      case True
      have "count_if (\<lambda>c. c = None) (drop i (active_twins (emg_at s e))) = length (drop k cs) + d" using F by blast
      moreover have "drop i (active_twins (emg_at s e)) = None # drop (Suc i) (active_twins (emg_at s e))"
        using i True by (metis Cons_nth_drop_Suc)
      ultimately have kd: "k < length cs \<or> k = length cs \<and> 0 < d" using ok(2) by (cases "k < length cs") auto
      show ?thesis
      proof (cases "k < length cs")
        case k: True
        then have d: "drop k cs = cs ! k # drop (Suc k) cs" by (simp add: Cons_nth_drop_Suc)
        have tk: "take k cs @ [cs ! k] = take (Suc k) cs" using k by (simp add: take_Suc_conv_app_nth)
        have "distinct (take (Suc k) cs)" using dist by simp
        then have new: "cs ! k \<notin> set (take k cs)" unfolding tk [symmetric] by simp
        from filling_place [OF ok(3) [unfolded d] e' i True new c [OF k]] obtain s' where
          "assign_slot e ca i (int k, s) = Inr (int k + 1, s')"
          "filling d s0 e (Suc i) (take (Suc k) cs) (drop (Suc k) cs) s'" unfolding tk by blast
        then show ?thesis unfolding step using k by (intro disjI1 exI [of _ "Suc k"] exI [of _ s']) simp
      next
        case False
        then have "assign_slot e ca i (int k, s) = Inl OutOfBounds"
          using kd past len at True by (simp add: assign_slot_def)
        then show ?thesis unfolding step using kd False by simp
      qed
    qed
  qed
qed

text \<open>The last loop empties the list of missing rescuers.\<close>

definition zeroed :: "rescuer_request option list \<Rightarrow> nat \<Rightarrow> rescuer_request option list" where
  "zeroed rs k = map (map_option (\<lambda>r. r\<lparr>required_count := 0\<rparr>)) (take k rs) @ drop k rs"

lemma zero_missing_loop:
  assumes "None \<notin> set (take n (rescuers_missing (emg_at s e)))" and "n \<le> length (rescuers_missing (emg_at s e))"
    and "k \<le> n"
  shows "rfold (zero_missing e) [0..<k] s
    = Inr (set_emg e ((emg_at s e)\<lparr>rescuers_missing := zeroed (rescuers_missing (emg_at s e)) k\<rparr>) s)"
  using assms(3)
proof (induction k)
  case 0
  have "zeroed rs 0 = rs" for rs by (simp add: zeroed_def)
  then show ?case by simp
next
  case (Suc k)
  let ?rs = "rescuers_missing (emg_at s e)"
  have k: "k < n" "k < length ?rs" using Suc.prems assms(2) by auto
  then obtain r where r: "?rs ! k = Some r"
    using assms(1) by (metis in_set_conv_nth length_take min_less_iff_conj nth_take option.exhaust)
  have d: "drop k ?rs = Some r # drop (Suc k) ?rs" using k(2) r by (metis Cons_nth_drop_Suc)
  have zk: "zeroed ?rs k ! k = Some r" "k < length (zeroed ?rs k)"
    using k(2) r by (simp_all add: zeroed_def nth_append)
  have "(zeroed ?rs k)[k := Some (r\<lparr>required_count := 0\<rparr>)] = zeroed ?rs (Suc k)"
    using k(2) r by (simp add: zeroed_def d list_update_append take_Suc_conv_app_nth)
  then show ?case using Suc zk k(1) by (simp add: rfold_append zero_missing_def)
qed

lemma requests_zeroed:
  assumes "requests_ok s n rs"
  shows "requests n (zeroed rs (nat n)) = map (\<lambda>r. r\<lparr>required_count := 0\<rparr>) (requests n rs)"
    and "requests_ok s n (zeroed rs (nat n))"
proof -
  have len: "nat n < length rs" and nn: "None \<notin> set (take (nat n) rs)" using assms by (simp_all add: requests_ok_def)
  have tk: "take (nat n) (zeroed rs (nat n)) = map (map_option (\<lambda>r. r\<lparr>required_count := 0\<rparr>)) (take (nat n) rs)"
    using len by (simp add: zeroed_def)
  show eq: "requests n (zeroed rs (nat n)) = map (\<lambda>r. r\<lparr>required_count := 0\<rparr>) (requests n rs)"
    unfolding requests_def tk using nn by (auto simp: option.map_sel intro!: map_cong) (metis option.exhaust_sel option.map_sel)
  have "get_name_of_rescuer_requested \<circ> required_count_update (\<lambda>_. 0) = get_name_of_rescuer_requested"
    by (simp add: get_name_of_rescuer_requested_def fun_eq_iff)
  moreover have "zeroed rs (nat n) ! nat n = None" using assms len by (simp add: zeroed_def nth_append requests_ok_def)
  ultimately show "requests_ok s n (zeroed rs (nat n))"
    using assms len nn tk unfolding requests_ok_def eq by (auto simp: zeroed_def)
qed

lemma total_count_zeroed: "total_count (map (\<lambda>r. r\<lparr>required_count := 0\<rparr>) qs) = 0"
  by (induction qs) (simp_all add: total_count_def)

lemma sum_missing_correct:
  assumes "requests_inv s em"
  shows "sum_missing em = Inr (missing em)"
proof -
  let ?n = "rescuers_req_number (etype em)" and ?rs = "rescuers_missing em"
  have ok: "requests_ok s ?n ?rs" using assms by (simp add: requests_inv_def)
  have "sum_missing em = rfold (\<lambda>q acc. rbind (deref (Some q)) (\<lambda>r. Inr (acc + required_count r))) (requests ?n ?rs) 0"
    unfolding sum_missing_def
    by (rule rfold_arr [OF requests_cells(1,2) [OF ok], of "\<lambda>rp acc. rbind (deref rp) (\<lambda>r. Inr (acc + required_count r))"])
  also have "\<dots> = Inr (0 + total_count (requests ?n ?rs))"
  proof -
    have "rfold (\<lambda>q acc. rbind (deref (Some q)) (\<lambda>r. Inr (acc + required_count r))) qs a = Inr (a + total_count qs)"
      for qs a by (induction qs arbitrary: a) (simp_all add: total_count_def)
    then show ?thesis .
  qed
  finally show ?thesis by (simp add: missing_def)
qed

section \<open>The whole search\<close>

definition enough :: "server \<Rightarrow> emg_ptr \<Rightarrow> bool" where
  "enough s e \<longleftrightarrow> (\<forall>q \<in> set (requests (rescuers_req_number (etype (emg_at s e))) (rescuers_missing (emg_at s e))).
     required_count q \<le> available s e (req_type q))"

text \<open>
  The state after rescuers were found: the picks of every missing type are on their way, the
  emergency misses nobody and all its slots are taken, and every other emergency either is as
  it was or has lower priority, lost twins and is paused.
\<close>

definition dispatched :: "server \<Rightarrow> emg_ptr \<Rightarrow> server \<Rightarrow> bool" where
  "dispatched s e s' \<longleftrightarrow>
     (let em = emg_at s e; qs = requests (rescuers_req_number (etype em)) (rescuers_missing em) in
     (\<exists>pss. length pss = length qs
        \<and> (\<forall>i < length qs. int (length (pss ! i)) = required_count (qs ! i) \<and> picks s e (req_type (qs ! i)) (pss ! i))
        \<and> (\<forall>t. t \<notin> set (concat pss) \<longrightarrow> twin_at s' t = twin_at s t)
        \<and> (\<forall>t \<in> set (concat pss). sent_to s e (twin_at s t) (twin_at s' t)))
     \<and> (\<forall>x. x \<noteq> e \<longrightarrow> emg_at s' x = emg_at s x \<or> robbed (emg_at s x) (emg_at s' x) \<and> lower_priority s x e)
     \<and> missing (emg_at s' e) = 0 \<and> None \<notin> set (active_twins (emg_at s' e))
     \<and> (\<exists>ts ms. emg_at s' e = em\<lparr>rescuer_twins := ts, rescuers_missing := ms\<rparr>)
     \<and> (\<exists>ta ea. s' = s\<lparr>twin_at := ta, emg_at := ea\<rparr>))"

text \<open>What depends only on the two heaps and the rescuer types.\<close>

lemma links_inv_cong:
  assumes "twin_at s' = twin_at s" "emg_at s' = emg_at s" "emg_brk s' = emg_brk s"
    "rescuer_types s' = rescuer_types s"
  shows "links_inv s' = links_inv s"
  using assms
  by (simp add: fun_eq_iff links_inv_def types_inv_def type_ok_def twin_ok_def known_def requests_inv_def
      requests_ok_def slots_inv_def counts_inv_def en_route_def [abs_def])

lemma server_inv_frame:
  assumes "twin_at s' = twin_at s" "emg_at s' = emg_at s" "emg_brk s' = emg_brk s"
    "rescuer_types s' = rescuer_types s"
  shows "server_inv s' = server_inv s"
  using links_inv_cong [OF assms] assms(2) by (simp add: server_inv_def)

lemma heap_cong:
  assumes "twin_at s' = twin_at s" "emg_at s' = emg_at s" "rescuer_types s' = rescuer_types s"
  shows "known s' = known s" "eligible s' = eligible s" "rank s' = rank s" "type_ok s' = type_ok s"
    "no_flags s' = no_flags s" "picks s' = picks s" "available s' = available s" "sent_to s' = sent_to s"
    "lower_priority s' = lower_priority s"
proof -
  show k: "known s' = known s" using assms by (simp add: known_def fun_eq_iff)
  show e: "eligible s' = eligible s" using assms
    by (simp add: eligible_def eta_def lower_priority_def fun_eq_iff split: option.splits)
  show r: "rank s' = rank s" using assms by (simp add: rank_def eta_def fun_eq_iff split: option.splits)
  show "type_ok s' = type_ok s" using assms by (simp add: type_ok_def twin_ok_def fun_eq_iff)
  show "no_flags s' = no_flags s" using assms k by (simp add: no_flags_def)
  show "picks s' = picks s" by (intro ext) (simp only: picks_def e r)
  show "available s' = available s" by (intro ext) (simp only: available_def e)
  show "sent_to s' = sent_to s" using assms by (simp add: sent_to_def fun_eq_iff)
  show "lower_priority s' = lower_priority s" using assms by (simp add: lower_priority_def fun_eq_iff)
qed

lemma count_if_neg: "count_if P xs + count_if (\<lambda>x. \<not> P x) xs = length xs"
  by (induction xs) auto

lemma empty_slots:
  assumes "counts_inv s em m" and "requests_inv s em"
  shows "int (count_if (\<lambda>c. c = None) (active_twins em)) = m + rescuer_count em - rescuers_not_done_yet em"
  using assms active_nth(2) [OF assms(2)] count_if_neg [of "\<lambda>c. c = None" "active_twins em"]
  by (auto simp: counts_inv_def requests_inv_def)

lemma distinct_picks:
  assumes "length pss = length qs" and "\<forall>i < length qs. picks s e (req_type (qs ! i)) (pss ! i)"
    and "\<And>q. q \<in> set qs \<Longrightarrow> type_ok s (req_type q)" and "distinct (map req_type qs)"
  shows "distinct (concat pss)"
  using assms
proof (induction pss qs rule: list_induct2)
  case (Cons ps pss q qs)
  have p: "picks s e (req_type q) ps" using Cons.prems(1) by force
  have rest: "\<forall>i < length qs. picks s e (req_type (qs ! i)) (pss ! i)" using Cons.prems(1) by force
  have "set ps \<inter> set (concat pss) = {}"
  proof -
    have False if "t \<in> set ps" "t \<in> set (concat pss)" for t
    proof -
      from that(2) obtain us where "us \<in> set pss" "t \<in> set us" by auto
      then obtain i where i: "i < length qs" "t \<in> set (pss ! i)" using Cons.hyps by (metis in_set_conv_nth)
      then have "rescuer (twin_at s t) = req_type (qs ! i)"
        using rest picks_set Cons.prems(2) [of "qs ! i"] unfolding type_ok_def by (metis list.set_intros(2) nth_mem)
      moreover have "rescuer (twin_at s t) = req_type q"
        using p picks_set that(1) Cons.prems(2) [of q] unfolding type_ok_def by (metis list.set_intros(1))
      ultimately show False using Cons.prems(3) i(1) by auto
    qed
    then show ?thesis by blast
  qed
  then show ?case using Cons.IH [OF rest] Cons.prems picks_distinct [OF p] by auto
qed simp

lemma picks_donor:
  assumes inv: "links_inv s {} f" and e: "e < emg_brk s"
    and q: "q \<in> set (requests (rescuers_req_number (etype (emg_at s e))) (rescuers_missing (emg_at s e)))"
    and t: "picks s e (req_type q) ps" "t \<in> set ps"
  shows "donor s e t"
proof -
  note i = links_invD [OF inv]
  have ri: "requests_inv s (emg_at s e)" by (rule i(2) [OF e])
  have rt: "Some (req_type q) \<in> set (rescuer_types s)"
    using ri q by (simp add: requests_inv_def requests_ok_def)
  then have ok: "type_ok s (req_type q)" using i(1) by (simp add: types_inv_def)
  have w: "req_type q \<in> set (wanted (emg_at s e))"
    using ri q unfolding requests_inv_def by (metis imageI set_map)
  have tt: "t \<in> set (type_twins (req_type q))" "eligible s e t" using picks_set [OF t] by simp_all
  have "known s t" using rt tt(1) by (auto simp: known_def)
  moreover have "rescuer (twin_at s t) = req_type q" using ok tt(1) by (simp add: type_ok_def)
  ultimately show ?thesis using tt(2) w by (auto simp: donor_def eligible_def)
qed

lemma filling_start:
  assumes inv: "server_inv s" and e: "e < emg_brk s"
    and d: "int d = rescuer_count (emg_at s e) - rescuers_not_done_yet (emg_at s e)"
    and cs: "int (length cs) = missing (emg_at s e)" "distinct cs" "\<forall>t \<in> set cs. donor s e t"
  shows "filling d s e 0 [] cs s"
proof -
  have l: "links_inv s {} (\<lambda>x. missing (emg_at s x))" using inv by (simp add: server_inv_def)
  note i = links_invD [OF l]
  have "(\<lambda>x. if x = e then int (length cs) else missing (emg_at s x)) = (\<lambda>x. missing (emg_at s x))"
    using cs(1) by auto
  moreover have "count_if (\<lambda>c. c = None) (active_twins (emg_at s e)) = length cs + d"
    using empty_slots [OF i(4) [OF e] i(2) [OF e]] d cs(1) by linarith
  moreover have "\<exists>ta ea. s = s\<lparr>twin_at := ta, emg_at := ea\<rparr>"
    by (intro exI [of _ "twin_at s"] exI [of _ "emg_at s"]) simp
  moreover have "\<exists>ts. emg_at s e = (emg_at s e)\<lparr>rescuer_twins := ts\<rparr>"
    by (intro exI [of _ "rescuer_twins (emg_at s e)"]) simp
  ultimately show ?thesis using l cs unfolding filling_def by simp
qed

text \<open>From the filled slots to the final state: the missing list is emptied.\<close>

lemma filling_finish:
  assumes fill: "filling 0 s0 e (nat (rescuer_count (emg_at s0 e))) cs [] s" and e: "e < emg_brk s"
    and flags: "no_flags s0"
  shows "\<exists>ms. rfold (zero_missing e) [0..<nat (rescuers_req_number (etype (emg_at s e)))] s
      = Inr (set_emg e ((emg_at s e)\<lparr>rescuers_missing := ms\<rparr>) s)
    \<and> server_inv (set_emg e ((emg_at s e)\<lparr>rescuers_missing := ms\<rparr>) s)
    \<and> no_flags (set_emg e ((emg_at s e)\<lparr>rescuers_missing := ms\<rparr>) s)
    \<and> missing ((emg_at s e)\<lparr>rescuers_missing := ms\<rparr>) = 0
    \<and> None \<notin> set (active_twins (emg_at s e))"
proof -
  note F = fill [unfolded filling_def]
  let ?em = "emg_at s e" let ?n = "rescuers_req_number (etype ?em)" and ?rs = "rescuers_missing ?em"
  let ?ms = "zeroed ?rs (nat ?n)" let ?em' = "?em\<lparr>rescuers_missing := ?ms\<rparr>"
  have inv: "links_inv s {} (\<lambda>x. if x = e then 0 else missing (emg_at s x))" using F by (simp cong: if_cong)
  note i = links_invD [OF inv]
  have ri: "requests_inv s ?em" by (rule i(2) [OF e])
  then have ok: "requests_ok s ?n ?rs" by (simp add: requests_inv_def)
  have run: "rfold (zero_missing e) [0..<nat ?n] s = Inr (set_emg e ?em' s)"
    by (rule zero_missing_loop [where n = "nat ?n"]) (use ok in \<open>simp_all add: requests_ok_def\<close>)
  note z = requests_zeroed [OF ok]
  have miss: "missing ?em' = 0" by (simp add: missing_def z(1) total_count_zeroed)
  have req: "requests_inv s ?em'"
    using ri z by (simp add: requests_inv_def wanted_def o_def)
  have act: "active_twins ?em' = active_twins ?em" by (simp add: active_twins_def)
  have "links_inv (set_emg e ?em' s) {} ((\<lambda>x. if x = e then 0 else missing (emg_at s x))(e := 0))"
  proof (rule links_inv_set_emg [OF inv e _ req])
    show "slots_inv s {} e ?em'" using i(3) [OF e] by (simp add: slots_inv_def act wanted_def)
    show "counts_inv s ?em' 0" using i(4) [OF e] by (simp add: counts_inv_def act)
    show "Some t \<in> set (active_twins ?em')" if "known s t" "emergency (twin_at s t) = Some e" for t
      using i(6) that act by simp
  qed simp_all
  moreover have "(\<lambda>x. if x = e then 0 else missing (emg_at s x))(e := 0)
      = (\<lambda>x. missing (emg_at (set_emg e ?em' s) x))" using miss by auto
  ultimately have "server_inv (set_emg e ?em' s)" by (simp add: server_inv_def)
  moreover have "no_flags (set_emg e ?em' s)"
  proof -
    obtain ta ea where "s = s0\<lparr>twin_at := ta, emg_at := ea\<rparr>" using F by blast
    then have "known s = known s0" by (simp add: known_def fun_eq_iff)
    then show ?thesis using flags F by (simp add: no_flags_def)
  qed
  moreover have "None \<notin> set (active_twins ?em)"
  proof -
    have "length (active_twins ?em) = nat (rescuer_count (emg_at s0 e))"
      using active_nth(2) [OF ri] F by auto
    then show ?thesis using F by (metis in_set_conv_nth)
  qed
  ultimately show ?thesis using run miss by blast
qed

text \<open>The array of candidates is read where it was written.\<close>

lemma candidate_at_cand: "k < length cs \<Longrightarrow> candidate_at (cand_array n cs) (int k) = Inr (cs ! k)"
  by (simp add: candidate_at_def cand_array_def arr_get_def nth_append)

lemma candidate_at_past: "candidate_at (cand_array (length cs) cs) (int (length cs)) = Inl OutOfBounds"
  by (simp add: candidate_at_def cand_array_def arr_get_def)

lemma total_count_nonneg: "\<forall>q \<in> set qs. 0 \<le> required_count q \<Longrightarrow> 0 \<le> total_count qs"
  by (induction qs) (auto simp: total_count_def)

lemma total_count_0:
  assumes "\<forall>q \<in> set qs. 0 \<le> required_count q" and "total_count qs = 0"
  shows "\<forall>q \<in> set qs. required_count q = 0"
  using assms
proof (induction qs)
  case (Cons q qs)
  then have "0 \<le> total_count qs" "0 \<le> required_count q" using total_count_nonneg by auto
  moreover have "required_count q + total_count qs = 0" using Cons.prems(2) by (simp add: total_count_def)
  ultimately have "required_count q = 0" "total_count qs = 0" by linarith+
  then show ?case using Cons by simp
qed simp

lemma total_count_nat:
  "\<forall>q \<in> set qs. 0 \<le> required_count q \<Longrightarrow> int (sum_list (map (\<lambda>q. nat (required_count q)) qs)) = total_count qs"
  by (induction qs) (auto simp: total_count_def)

definition locked :: "server \<Rightarrow> server" where
  "locked s = s\<lparr>rescuers_mutex := True, emergencies_mutex := True\<rparr>"

lemma locked_frame:
  "twin_at (locked s) = twin_at s" "emg_at (locked s) = emg_at s" "emg_brk (locked s) = emg_brk s"
  "rescuer_types (locked s) = rescuer_types s"
  "\<not> rescuers_mutex s \<Longrightarrow> \<not> emergencies_mutex s \<Longrightarrow> lock_system s = Inr (locked s)"
  "\<not> rescuers_mutex s \<Longrightarrow> \<not> emergencies_mutex s \<Longrightarrow> unlock_system (locked s) = s"
  by (simp_all add: locked_def lock_system_def unlock_system_def)

lemma unlock_frame:
  "twin_at (unlock_system s) = twin_at s" "emg_at (unlock_system s) = emg_at s"
  "emg_brk (unlock_system s) = emg_brk s" "rescuer_types (unlock_system s) = rescuer_types s"
  by (simp_all add: unlock_system_def)

text \<open>The search under the locks, when somebody is missing and nobody has finished.\<close>

lemma search_locked:
  assumes inv: "server_inv s" and flags: "no_flags s" and e: "e < emg_brk s"
    and d: "int d = rescuer_count (emg_at s e) - rescuers_not_done_yet (emg_at s e)"
  defines "em \<equiv> emg_at s e"
  defines "n \<equiv> rescuers_req_number (etype em)"
  defines "qs \<equiv> requests n (rescuers_missing em)"
  shows "\<exists>found cs. rfold (search_type e) [0..<nat n] (True, 0, replicate (nat (missing em)) None, s)
      = Inr (outcome (nat (missing em)) s found cs)
    \<and> rfold (clear_candidate (cand_array (nat (missing em)) cs)) [0..<length cs] (flagged s (set cs)) = Inr s
    \<and> (found \<longleftrightarrow> enough s e)
    \<and> (found \<longrightarrow> int (length cs) = missing em \<and> filling d s e 0 [] cs s \<and> distinct cs
        \<and> (\<exists>pss. cs = concat pss \<and> length pss = length qs
        \<and> (\<forall>i < length qs. int (length (pss ! i)) = required_count (qs ! i) \<and> picks s e (req_type (qs ! i)) (pss ! i))))"
proof -
  have l: "links_inv s {} (\<lambda>x. missing (emg_at s x))" using inv by (simp add: server_inv_def)
  note i = links_invD [OF l]
  have ri: "requests_inv s em" using i(2) [OF e] by (simp add: em_def)
  have ok: "requests_ok s n (rescuers_missing em)" using ri by (simp add: requests_inv_def n_def)
  have len: "length qs = nat n" using requests_cells(3) [OF ok] by (simp add: qs_def)
  have nn: "\<forall>q \<in> set qs. 0 \<le> required_count q" using ok by (simp add: requests_ok_def qs_def)
  have types: "type_ok s (req_type q)" if "q \<in> set qs" for q
    using ok that i(1) by (auto simp: requests_ok_def qs_def types_inv_def)
  have dist: "distinct (map req_type qs)"
  proof -
    have "map get_name_of_rescuer_requested qs = map rescuer_type_name (map req_type qs)"
      by (simp add: get_name_of_rescuer_requested_def)
    then show ?thesis using ok distinct_map unfolding requests_ok_def qs_def by metis
  qed
  have tot: "int (sum_list (map (\<lambda>q. nat (required_count q)) qs)) = missing em"
    using total_count_nat [OF nn] by (simp add: missing_def qs_def n_def)
  have cells: "arr_get (rescuers_missing (emg_at s e)) (int k) = Inr (Some (qs ! k))" if "k < length qs" for k
    using requests_nth [OF ok, of k] requests_cells(2) [OF ok] that len by (simp add: qs_def em_def)
  have bound: "sum_list (map (\<lambda>q. nat (required_count q)) qs) \<le> nat (missing em)" using tot by linarith
  from search_types [OF cells types dist bound order_refl] obtain pss found where
    run: "rfold (search_type e) [0..<length qs] (outcome (nat (missing em)) s True [])
      = Inr (outcome (nat (missing em)) s found (concat pss))"
    and lp: "length pss \<le> length qs" and pk: "\<forall>i < length pss. picks s e (req_type (qs ! i)) (pss ! i)"
    and fd: "found \<longrightarrow> length pss = length qs \<and> (\<forall>i < length qs. length (pss ! i) = nat (required_count (qs ! i)))"
    and nf: "\<not> found \<longrightarrow> (\<exists>i < length qs. available s e (req_type (qs ! i)) < required_count (qs ! i))"
    by blast
  let ?cs = "concat pss"
  have start: "(True, 0, replicate (nat (missing em)) None, s) = outcome (nat (missing em)) s True []"
    by (simp add: outcome_def cand_array_def)
  have donors: "donor s e t" if "t \<in> set ?cs" for t
  proof -
    from that obtain us where "us \<in> set pss" "t \<in> set us" by auto
    then obtain k where k: "k < length pss" "t \<in> set (pss ! k)" by (metis in_set_conv_nth)
    then have "qs ! k \<in> set qs" using lp by simp
    then show ?thesis using picks_donor [OF l e _ _ k(2)] pk k(1) by (simp add: qs_def n_def em_def)
  qed
  have dcs: "distinct ?cs"
    by (rule distinct_picks [of pss "take (length pss) qs" s e])
      (use lp pk types dist in \<open>auto simp: take_map [symmetric] dest: in_set_takeD\<close>)
  have clear: "rfold (clear_candidate (cand_array (nat (missing em)) ?cs)) [0..<length ?cs] (flagged s (set ?cs)) = Inr s"
    by (rule clear_candidates [OF flags _ dcs]) (use donors in \<open>auto simp: donor_def\<close>)
  have en: "found \<longleftrightarrow> enough s e"
  proof
    assume found
    then have "required_count (qs ! k) \<le> available s e (req_type (qs ! k))" if "k < length qs" for k
      using picks_available(1) [OF types [OF nth_mem [OF that]], of e "pss ! k"] fd pk nn that
      by (metis int_nat_eq nth_mem)
    then show "enough s e" unfolding enough_def qs_def [symmetric] n_def [symmetric] em_def [symmetric]
      by (metis in_set_conv_nth)
  next
    assume en: "enough s e"
    show found
    proof (rule ccontr)
      assume "\<not> found"
      then obtain k where "k < length qs" "available s e (req_type (qs ! k)) < required_count (qs ! k)"
        using nf by blast
      moreover from this have "required_count (qs ! k) \<le> available s e (req_type (qs ! k))"
        using en unfolding enough_def qs_def n_def em_def by simp
      ultimately show False by simp
    qed
  qed
  have tc: "int (length ?cs) = missing em" if found
  proof -
    have "length ?cs = sum_list (take (length qs) (map (\<lambda>q. nat (required_count q)) qs))"
      using fd that by (intro length_concat_take) auto
    then show ?thesis using tot by simp
  qed
  have fill: "filling d s e 0 [] ?cs s" if found
    by (rule filling_start [OF inv e d _ dcs]) (use donors tc that in \<open>auto simp: em_def\<close>)
  have pss: "\<forall>k < length qs. int (length (pss ! k)) = required_count (qs ! k) \<and> picks s e (req_type (qs ! k)) (pss ! k)"
    if found using that fd pk nn by auto
  show ?thesis unfolding start len [symmetric]
    using run clear en fill dcs pss fd tc by (intro exI [of _ found] exI [of _ ?cs]) auto
qed

lemma dispatched_nothing:
  assumes l: "server_inv s" and e: "e < emg_brk s" and m: "missing (emg_at s e) = 0"
    and fresh: "rescuers_not_done_yet (emg_at s e) = rescuer_count (emg_at s e)"
  shows "enough s e" and "dispatched s e s"
proof -
  let ?qs = "requests (rescuers_req_number (etype (emg_at s e))) (rescuers_missing (emg_at s e))"
  have l: "links_inv s {} (\<lambda>x. missing (emg_at s x))" using assms(1) by (simp add: server_inv_def)
  note i = links_invD [OF l]
  have ok: "requests_inv s (emg_at s e)" using i(2) [OF e] .
  then have nn: "\<forall>q \<in> set ?qs. 0 \<le> required_count q" by (simp add: requests_inv_def requests_ok_def)
  from total_count_0 [OF nn] m have z: "\<forall>q \<in> set ?qs. required_count q = 0" by (simp add: missing_def)
  show "enough s e" unfolding enough_def using z by (simp add: available_def)
  have "int (count_if (\<lambda>c. c = None) (active_twins (emg_at s e))) = 0"
    using empty_slots [OF i(4) [OF e] ok] fresh m by simp
  then have full: "None \<notin> set (active_twins (emg_at s e))" by (auto simp: count_if_0_iff)
  have "\<forall>k < length ?qs. int (length (map (\<lambda>_. [] :: twin_ptr list) ?qs ! k)) = required_count (?qs ! k)
      \<and> picks s e (req_type (?qs ! k)) (map (\<lambda>_. []) ?qs ! k)"
    using z by (simp add: picks_def)
  moreover have "concat (map (\<lambda>_. [] :: twin_ptr list) ?qs) = []" by simp
  ultimately have "\<exists>pss. length pss = length ?qs
        \<and> (\<forall>i < length ?qs. int (length (pss ! i)) = required_count (?qs ! i) \<and> picks s e (req_type (?qs ! i)) (pss ! i))
        \<and> (\<forall>t. t \<notin> set (concat pss) \<longrightarrow> twin_at s t = twin_at s t)
        \<and> (\<forall>t \<in> set (concat pss). sent_to s e (twin_at s t) (twin_at s t))"
    by (intro exI [of _ "map (\<lambda>_. []) ?qs"]) simp
  moreover have "\<exists>ta ea. s = s\<lparr>twin_at := ta, emg_at := ea\<rparr>"
    by (intro exI [of _ "twin_at s"] exI [of _ "emg_at s"]) simp
  moreover have "\<exists>ts ms. emg_at s e = (emg_at s e)\<lparr>rescuer_twins := ts, rescuers_missing := ms\<rparr>"
    by (intro exI [of _ "rescuer_twins (emg_at s e)"] exI [of _ "rescuers_missing (emg_at s e)"]) simp
  ultimately show "dispatched s e s" using m full unfolding dispatched_def Let_def by blast
qed

text \<open>The assignment under the locks.\<close>

lemma assign_locked:
  assumes inv: "server_inv s" and flags: "no_flags s" and e: "e < emg_brk s"
    and fill: "filling 0 s e 0 [] cs s" and dist: "distinct cs" and n: "n = length cs"
  shows "\<exists>s3 ms. rfold (assign_slot e (cand_array n cs)) [0..<nat (rescuer_count (emg_at s e))] (0, s)
        = Inr (int (length cs), s3)
    \<and> filling 0 s e (nat (rescuer_count (emg_at s e))) cs [] s3
    \<and> rfold (zero_missing e) [0..<nat (rescuers_req_number (etype (emg_at s e)))] s3
        = Inr (set_emg e ((emg_at s3 e)\<lparr>rescuers_missing := ms\<rparr>) s3)
    \<and> server_inv (set_emg e ((emg_at s3 e)\<lparr>rescuers_missing := ms\<rparr>) s3)
    \<and> no_flags (set_emg e ((emg_at s3 e)\<lparr>rescuers_missing := ms\<rparr>) s3)
    \<and> missing ((emg_at s3 e)\<lparr>rescuers_missing := ms\<rparr>) = 0
    \<and> None \<notin> set (active_twins (emg_at s3 e))"
proof -
  let ?c = "nat (rescuer_count (emg_at s e))"
  have past: "candidate_at (cand_array n cs) (int (length cs)) = Inl OutOfBounds"
    using n by (simp add: candidate_at_past)
  from assign_slots [OF fill e dist order_refl candidate_at_cand past] obtain k s3 where
    run: "rfold (assign_slot e (cand_array n cs)) [0..<?c] (0, s) = Inr (int k, s3)" and k: "k \<le> length cs"
    and f: "filling 0 s e ?c (take k cs) (drop k cs) s3" by auto
  note F = f [unfolded filling_def]
  have e3: "e < emg_brk s3" using F e by auto
  have inv3: "links_inv s3 {} (\<lambda>x. if x = e then int (length (drop k cs)) else missing (emg_at s3 x))"
    using F by blast
  have "rescuer_count (emg_at s3 e) = rescuer_count (emg_at s e)" using F by auto
  then have "length (active_twins (emg_at s3 e)) = ?c"
    using active_nth(2) [OF links_invD(2) [OF inv3 e3]] by simp
  then have "length (drop k cs) = 0" using F by simp
  then have kk: "k = length cs" using k by simp
  have f': "filling 0 s e ?c cs [] s3" using f kk by simp
  have "etype (emg_at s3 e) = etype (emg_at s e)" using F by auto
  then show ?thesis using run kk f' filling_finish [OF f' e3 flags] by auto
qed

lemma dispatched_intro:
  assumes fill: "filling 0 (locked s) e c cs [] s3" and unl: "\<not> rescuers_mutex s" "\<not> emergencies_mutex s"
    and m: "missing ((emg_at s3 e)\<lparr>rescuers_missing := ms\<rparr>) = 0" and full: "None \<notin> set (active_twins (emg_at s3 e))"
    and pss: "\<exists>pss. cs = concat pss
        \<and> length pss = length (requests (rescuers_req_number (etype (emg_at s e))) (rescuers_missing (emg_at s e)))
        \<and> (\<forall>i < length (requests (rescuers_req_number (etype (emg_at s e))) (rescuers_missing (emg_at s e))).
            int (length (pss ! i)) = required_count (requests (rescuers_req_number (etype (emg_at s e))) (rescuers_missing (emg_at s e)) ! i)
            \<and> picks s e (req_type (requests (rescuers_req_number (etype (emg_at s e))) (rescuers_missing (emg_at s e)) ! i)) (pss ! i))"
  shows "dispatched s e (unlock_system (set_emg e ((emg_at s3 e)\<lparr>rescuers_missing := ms\<rparr>) s3))"
proof -
  note F = fill [unfolded filling_def]
  note hc = heap_cong [OF locked_frame(1,2,4) [of s]]
  let ?s5 = "unlock_system (set_emg e ((emg_at s3 e)\<lparr>rescuers_missing := ms\<rparr>) s3)"
  let ?em' = "(emg_at s3 e)\<lparr>rescuers_missing := ms\<rparr>"
  obtain ta ea where s3: "s3 = (locked s)\<lparr>twin_at := ta, emg_at := ea\<rparr>" using F by blast
  have s5: "?s5 = s\<lparr>twin_at := ta, emg_at := ea(e := ?em')\<rparr>"
    using unl by (simp add: s3 unlock_system_def set_emg_def locked_def)
  obtain ts where ts: "emg_at s3 e = (emg_at s e)\<lparr>rescuer_twins := ts\<rparr>" using F locked_frame(2) by metis
  have act: "active_twins ?em' = active_twins (emg_at s3 e)" by (simp add: active_twins_def)
  have oth: "\<forall>x. x \<noteq> e \<longrightarrow> emg_at ?s5 x = emg_at s x \<or> robbed (emg_at s x) (emg_at ?s5 x) \<and> lower_priority s x e"
    using F unfolding hc locked_frame(2) by (simp add: s5) (simp add: s3)
  have tw: "\<forall>t. t \<notin> set cs \<longrightarrow> twin_at ?s5 t = twin_at s t"
    "\<forall>t \<in> set cs. sent_to s e (twin_at s t) (twin_at ?s5 t)"
    using F unfolding hc locked_frame(1) by (simp_all add: s5) (simp_all add: s3)
  have "emg_at ?s5 e = ?em'" by (simp add: s5)
  moreover have "?em' = (emg_at s e)\<lparr>rescuer_twins := ts, rescuers_missing := ms\<rparr>" using ts by simp
  ultimately show ?thesis using pss tw oth m full act s5 unfolding dispatched_def Let_def by metis
qed

lemma find_rescuers_total:
  assumes "server_inv s" and "no_flags s" and "e < emg_brk s"
    and "rescuers_not_done_yet (emg_at s e) = rescuer_count (emg_at s e)"
    and "\<not> rescuers_mutex s" and "\<not> emergencies_mutex s"
  shows "\<exists>found s'. find_rescuers e s = Inr (found, s') \<and> server_inv s' \<and> no_flags s'
    \<and> (found \<longleftrightarrow> enough s e) \<and> (\<not> found \<longrightarrow> s' = s) \<and> (found \<longrightarrow> dispatched s e s')"
proof -
  let ?s = "locked s"
  note lf = locked_frame [of s]
  have lock: "lock_system s = Inr ?s" "unlock_system ?s = s" using lf(5,6) assms(5,6) by simp_all
  have inv: "server_inv ?s"
    using assms(1) links_inv_cong [OF lf(1-4)] lf(2) by (simp add: server_inv_def)
  note hc = heap_cong [OF lf(1,2,4)]
  have flags: "no_flags ?s" using assms(2) hc(5) by simp
  have e: "e < emg_brk ?s" using assms(3) lf(3) by simp
  have fresh: "int 0 = rescuer_count (emg_at ?s e) - rescuers_not_done_yet (emg_at ?s e)" using assms(4) lf(2) by simp
  have enough_eq: "enough ?s e = enough s e" by (simp add: enough_def lf hc)
  have "links_inv s {} (\<lambda>x. missing (emg_at s x))" using assms(1) by (simp add: server_inv_def)
  then have ri: "requests_inv s (emg_at s e)" using links_invD(2) assms(3) by blast
  note sum = sum_missing_correct [OF ri]
  show ?thesis
  proof (cases "missing (emg_at s e) = 0")
    case True
    then have "find_rescuers e s = Inr (True, s)" using lock sum lf by (simp add: find_rescuers_def)
    then show ?thesis
      using assms(1,2) dispatched_nothing [OF assms(1,3) True assms(4)] by blast
  next
    case False
    let ?n = "nat (rescuers_req_number (etype (emg_at s e)))" and ?m = "nat (missing (emg_at s e))"
    from search_locked [OF inv flags e fresh] obtain found cs where
      run: "rfold (search_type e) [0..<?n] (True, 0, replicate ?m None, ?s) = Inr (outcome ?m ?s found cs)"
      and clear: "rfold (clear_candidate (cand_array ?m cs)) [0..<length cs] (flagged ?s (set cs)) = Inr ?s"
      and en: "found \<longleftrightarrow> enough ?s e"
      and fd: "found \<longrightarrow> int (length cs) = missing (emg_at s e) \<and> filling 0 ?s e 0 [] cs ?s \<and> distinct cs \<and> (\<exists>pss. cs = concat pss
        \<and> length pss = length (requests (rescuers_req_number (etype (emg_at s e))) (rescuers_missing (emg_at s e)))
        \<and> (\<forall>i < length (requests (rescuers_req_number (etype (emg_at s e))) (rescuers_missing (emg_at s e))).
            int (length (pss ! i)) = required_count (requests (rescuers_req_number (etype (emg_at s e))) (rescuers_missing (emg_at s e)) ! i)
            \<and> picks ?s e (req_type (requests (rescuers_req_number (etype (emg_at s e))) (rescuers_missing (emg_at s e)) ! i)) (pss ! i)))"
      unfolding lf(2) by blast
    have pre: "find_rescuers e s = (if \<not> found then Inr (False, s)
        else rbind (rfold (assign_slot e (cand_array ?m cs)) [0..<nat (rescuer_count (emg_at s e))] (0, ?s)) (\<lambda>(k2, s3).
          rbind (rfold (zero_missing e) [0..<?n] s3) (\<lambda>s4. Inr (found, unlock_system s4))))"
      using lock sum run clear False lf by (simp add: find_rescuers_def outcome_def)
    show ?thesis
    proof (cases found)
      case False
      then show ?thesis using pre assms(1,2) en enough_eq by (intro exI [of _ False] exI [of _ s]) simp
    next
      case True
      have fill: "filling 0 ?s e 0 [] cs ?s" and dist: "distinct cs" and m: "?m = length cs"
        using fd True by auto
      from assign_locked [OF inv flags e fill dist m, unfolded lf(2)] obtain s3 ms where
        a: "rfold (assign_slot e (cand_array ?m cs)) [0..<nat (rescuer_count (emg_at s e))] (0, ?s) = Inr (int (length cs), s3)"
        "filling 0 ?s e (nat (rescuer_count (emg_at s e))) cs [] s3"
        "rfold (zero_missing e) [0..<?n] s3 = Inr (set_emg e ((emg_at s3 e)\<lparr>rescuers_missing := ms\<rparr>) s3)"
        "server_inv (set_emg e ((emg_at s3 e)\<lparr>rescuers_missing := ms\<rparr>) s3)"
        "no_flags (set_emg e ((emg_at s3 e)\<lparr>rescuers_missing := ms\<rparr>) s3)"
        "missing ((emg_at s3 e)\<lparr>rescuers_missing := ms\<rparr>) = 0" "None \<notin> set (active_twins (emg_at s3 e))" by blast
      let ?s4 = "set_emg e ((emg_at s3 e)\<lparr>rescuers_missing := ms\<rparr>) s3"
      let ?s5 = "unlock_system ?s4"
      have fin: "find_rescuers e s = Inr (True, ?s5)" using pre a(1,3) True by simp
      have "server_inv ?s5" using a(4) links_inv_cong [OF unlock_frame] by (simp add: server_inv_def unlock_frame)
      moreover have "no_flags ?s5" using a(5) heap_cong(5) [OF unlock_frame(1,2,4)] by simp
      moreover have "dispatched s e ?s5"
      proof (rule dispatched_intro [OF a(2) assms(5,6) a(6,7)])
        show "\<exists>pss. cs = concat pss
            \<and> length pss = length (requests (rescuers_req_number (etype (emg_at s e))) (rescuers_missing (emg_at s e)))
            \<and> (\<forall>i < length (requests (rescuers_req_number (etype (emg_at s e))) (rescuers_missing (emg_at s e))).
                int (length (pss ! i)) = required_count (requests (rescuers_req_number (etype (emg_at s e))) (rescuers_missing (emg_at s e)) ! i)
                \<and> picks s e (req_type (requests (rescuers_req_number (etype (emg_at s e))) (rescuers_missing (emg_at s e)) ! i)) (pss ! i))"
          using fd True unfolding hc(6) by blast
      qed
      ultimately show ?thesis using fin True en enough_eq by auto
    qed
  qed
qed


lemma find_rescuers_past:
  assumes "server_inv s" and "no_flags s" and "e < emg_brk s"
    and "rescuers_not_done_yet (emg_at s e) < rescuer_count (emg_at s e)"
    and "missing (emg_at s e) \<noteq> 0" and "enough s e"
    and "\<not> rescuers_mutex s" and "\<not> emergencies_mutex s"
  shows "find_rescuers e s = Inl OutOfBounds"
proof -
  let ?s = "locked s" and ?m = "nat (missing (emg_at s e))" and ?c = "nat (rescuer_count (emg_at s e))"
  note lf = locked_frame [of s]
  have lock: "lock_system s = Inr ?s" using lf(5) assms(7,8) by simp
  have inv: "server_inv ?s"
    using assms(1) links_inv_cong [OF lf(1-4)] lf(2) by (simp add: server_inv_def)
  note hc = heap_cong [OF lf(1,2,4)]
  have flags: "no_flags ?s" using assms(2) hc(5) by simp
  have e: "e < emg_brk ?s" using assms(3) lf(3) by simp
  obtain d where d: "int d = rescuer_count (emg_at ?s e) - rescuers_not_done_yet (emg_at ?s e)" "0 < d"
    using assms(4) lf(2) by (intro that [of "nat (rescuer_count (emg_at s e) - rescuers_not_done_yet (emg_at s e))"]) auto
  have "links_inv s {} (\<lambda>x. missing (emg_at s x))" using assms(1) by (simp add: server_inv_def)
  then have ri: "requests_inv s (emg_at s e)" using links_invD(2) assms(3) by blast
  have en: "enough ?s e" using assms(6) by (simp add: enough_def lf hc)
  from search_locked [OF inv flags e d(1)] en obtain cs where
    run: "rfold (search_type e) [0..<nat (rescuers_req_number (etype (emg_at s e)))] (True, 0, replicate ?m None, ?s)
      = Inr (outcome ?m ?s True cs)"
    and clear: "rfold (clear_candidate (cand_array ?m cs)) [0..<length cs] (flagged ?s (set cs)) = Inr ?s"
    and fill: "int (length cs) = missing (emg_at s e)" "filling d ?s e 0 [] cs ?s" "distinct cs"
    unfolding lf(2) by auto
  have m: "?m = length cs" using fill(1) by simp
  have past: "candidate_at (cand_array ?m cs) (int (length cs)) = Inl OutOfBounds"
    unfolding m by (rule candidate_at_past)
  have oob: "rfold (assign_slot e (cand_array ?m cs)) [0..<?c] (0, ?s) = Inl OutOfBounds"
  proof -
    have le: "?c \<le> nat (rescuer_count (emg_at ?s e))" by (simp add: lf)
    consider k s3 where "filling d ?s e ?c (take k cs) (drop k cs) s3"
      | "rfold (assign_slot e (cand_array ?m cs)) [0..<?c] (0, ?s) = Inl OutOfBounds"
      using assign_slots [OF fill(2) e fill(3) le candidate_at_cand past] by auto
    then show ?thesis
    proof cases
      case F: (1 k s3)
    note F = F [unfolded filling_def]
    have inv3: "links_inv s3 {} (\<lambda>x. if x = e then int (length (drop k cs)) else missing (emg_at s3 x))"
      using F by blast
    have "rescuer_count (emg_at s3 e) = rescuer_count (emg_at s e)" "e < emg_brk s3"
      using F e lf(2) by auto
    then have "length (active_twins (emg_at s3 e)) = ?c"
      using active_nth(2) [OF links_invD(2) [OF inv3]] by simp
    then show ?thesis using F d(2) by simp
    qed
  qed
  show ?thesis using lock sum_missing_correct [OF ri] assms(5) run clear oob
    by (simp add: find_rescuers_def lf outcome_def)
qed

text \<open>A search that fails leaves no trace, whether rescuers have finished or not.\<close>

lemma find_rescuers_fails:
  assumes "server_inv s" and "no_flags s" and "e < emg_brk s" and "missing (emg_at s e) \<noteq> 0" and "\<not> enough s e"
    and "\<not> rescuers_mutex s" and "\<not> emergencies_mutex s"
  shows "find_rescuers e s = Inr (False, s)"
proof -
  let ?s = "locked s" and ?m = "nat (missing (emg_at s e))"
  note lf = locked_frame [of s]
  have lock: "lock_system s = Inr ?s" "unlock_system ?s = s" using lf(5,6) assms(6,7) by simp_all
  have inv: "server_inv ?s"
    using assms(1) links_inv_cong [OF lf(1-4)] lf(2) by (simp add: server_inv_def)
  note hc = heap_cong [OF lf(1,2,4)]
  have flags: "no_flags ?s" using assms(2) hc(5) by simp
  have e: "e < emg_brk ?s" using assms(3) lf(3) by simp
  have l: "links_inv s {} (\<lambda>x. missing (emg_at s x))" using assms(1) by (simp add: server_inv_def)
  have ri: "requests_inv s (emg_at s e)" using links_invD(2) [OF l assms(3)] .
  have "rescuers_not_done_yet (emg_at s e) \<le> rescuer_count (emg_at s e)"
    using links_invD(4) [OF l assms(3)] by (simp add: counts_inv_def)
  then obtain d where d: "int d = rescuer_count (emg_at ?s e) - rescuers_not_done_yet (emg_at ?s e)"
    using lf(2) by (intro that [of "nat (rescuer_count (emg_at s e) - rescuers_not_done_yet (emg_at s e))"]) auto
  have ne: "\<not> enough ?s e" using assms(5) by (simp add: enough_def lf hc)
  from search_locked [OF inv flags e d] obtain found cs where
    run0: "rfold (search_type e) [0..<nat (rescuers_req_number (etype (emg_at s e)))] (True, 0, replicate ?m None, ?s)
      = Inr (outcome ?m ?s found cs)"
    and clear: "rfold (clear_candidate (cand_array ?m cs)) [0..<length cs] (flagged ?s (set cs)) = Inr ?s"
    and fd: "found \<longleftrightarrow> enough ?s e"
    unfolding lf(2) by blast
  have run: "rfold (search_type e) [0..<nat (rescuers_req_number (etype (emg_at s e)))] (True, 0, replicate ?m None, ?s)
      = Inr (outcome ?m ?s False cs)"
    using run0 fd ne by simp
  show ?thesis using lock sum_missing_correct [OF ri] assms(4) run clear
    by (simp add: find_rescuers_def lf outcome_def)
qed

lemma find_rescuers_nothing_missing:
  assumes "server_inv s" and "e < emg_brk s" and "missing (emg_at s e) = 0"
    and "\<not> rescuers_mutex s" and "\<not> emergencies_mutex s"
  shows "find_rescuers e s = Inr (True, s)"
proof -
  have "links_inv s {} (\<lambda>x. missing (emg_at s x))" using assms(1) by (simp add: server_inv_def)
  then have ri: "requests_inv s (emg_at s e)" using links_invD(2) assms(2) by blast
  show ?thesis using locked_frame [of s] sum_missing_correct [OF ri] assms(3-5)
    by (simp add: find_rescuers_def)
qed

text \<open>All outcomes of a search on a consistent state.\<close>

lemma find_rescuers_outcome:
  assumes "server_inv s" and "no_flags s" and "e < emg_brk s"
    and "\<not> rescuers_mutex s" and "\<not> emergencies_mutex s"
  shows "find_rescuers e s = Inr (True, s) \<and> missing (emg_at s e) = 0
    \<or> find_rescuers e s = Inr (False, s)
    \<or> (\<exists>s'. find_rescuers e s = Inr (True, s') \<and> server_inv s' \<and> no_flags s' \<and> dispatched s e s')
    \<or> find_rescuers e s = Inl OutOfBounds \<and> rescuers_not_done_yet (emg_at s e) < rescuer_count (emg_at s e)"
proof -
  have "links_inv s {} (\<lambda>x. missing (emg_at s x))" using assms(1) by (simp add: server_inv_def)
  then have "rescuers_not_done_yet (emg_at s e) \<le> rescuer_count (emg_at s e)"
    using links_invD(4) assms(3) unfolding counts_inv_def by blast
  then consider "missing (emg_at s e) = 0" | "missing (emg_at s e) \<noteq> 0" "\<not> enough s e"
    | "rescuers_not_done_yet (emg_at s e) = rescuer_count (emg_at s e)"
    | "missing (emg_at s e) \<noteq> 0" "enough s e" "rescuers_not_done_yet (emg_at s e) < rescuer_count (emg_at s e)"
    by linarith
  then show ?thesis
  proof cases
    case 1
    then show ?thesis using find_rescuers_nothing_missing [OF assms(1,3) _ assms(4,5)] by blast
  next
    case 2
    then show ?thesis using find_rescuers_fails [OF assms(1-3) _ _ assms(4,5)] by blast
  next
    case 3
    from find_rescuers_total [OF assms(1-3) this assms(4,5)] obtain found s' where
      f: "find_rescuers e s = Inr (found, s')" "server_inv s'" "no_flags s'" "\<not> found \<longrightarrow> s' = s"
        "found \<longrightarrow> dispatched s e s'" by blast
    then show ?thesis by (cases found) auto
  next
    case 4
    then show ?thesis using find_rescuers_past [OF assms(1-3) _ _ _ assms(4,5)] by blast
  qed
qed

text \<open>
  C12. What the previous property excludes does happen: when a rescuer of the emergency has
  already finished and left, another one was taken away and enough twins are eligible, the loop over the slots
  takes the finished rescuer's empty slot for one to fill and reads past the array of candidates.
  The array has one cell per missing rescuer, but the loop runs over all empty slots.
\<close>

theorem find_rescuers_reads_past_candidates:
  assumes "server_inv s" and "no_flags s" and "e < emg_brk s"
    and "rescuers_not_done_yet (emg_at s e) < rescuer_count (emg_at s e)"
    and "missing (emg_at s e) \<noteq> 0" and "enough s e"
    and "\<not> rescuers_mutex s" and "\<not> emergencies_mutex s"
  shows "find_rescuers e s = Inl OutOfBounds"
  using assms by (rule find_rescuers_past)

section \<open>The sample state\<close>

lemma sample_types:
  "type_twins van = [0, 1]" "known sample_server t \<longleftrightarrow> t = 0 \<or> t = 1"
  by (auto simp: van_def type_twins_def numeral_2_eq_2 known_def sample_server_def)

lemma sample_server_inv: "server_inv sample_server" "no_flags sample_server"
proof -
  have tw: "twin_ok sample_server 0" "twin_ok sample_server 1"
    by (simp_all add: twin_ok_def sample_server_def sample_twin_def van_def mallocate_bresenham_trajectory_def
        change_bresenham_trajectory_def Let_def)
  have ty: "type_ok sample_server van" using tw
    by (auto simp: type_ok_def type_twins_def van_def numeral_2_eq_2 sample_server_def sample_twin_def)
  have types: "types_inv sample_server" unfolding types_inv_def
  proof (intro conjI)
    show "inj_on (\<lambda>t. twin_id (twin_at sample_server t)) {t. known sample_server t}"
      by (auto simp: inj_on_def sample_types) (simp_all add: sample_server_def sample_twin_def)
  qed (use ty in \<open>auto simp: sample_server_def\<close>)
  have e: "requests_inv sample_server (sample_emg k) \<and> slots_inv sample_server {} k (sample_emg k)
      \<and> counts_inv sample_server (sample_emg k) (missing (sample_emg k))" if "k < 2" for k
    using that
    by (cases "k = 0")
      (auto simp: sample_emg_def requests_inv_def slots_inv_def counts_inv_def active_twins_def wanted_def
        requests_ok_def requests_def missing_def total_count_def sample_types numeral_2_eq_2
        small_fire_def big_fire_def en_route_def, auto simp: sample_server_def sample_twin_def)
  have l: "k < emg_brk sample_server \<and> Some t \<in> set (active_twins (emg_at sample_server k))"
    if "known sample_server t" "emergency (twin_at sample_server t) = Some k" for t k
    using that by (auto simp: sample_types) (auto simp: sample_server_def sample_twin_def sample_emg_def active_twins_def)
  have "inj_on (\<lambda>k. eid (sample_emg k)) {..<2}" by (auto simp: inj_on_def sample_emg_def)
  then have "inj_on (\<lambda>k. eid (emg_at sample_server k)) {..<emg_brk sample_server}"
    by (simp add: sample_server_def)
  moreover have "\<forall>k < emg_brk sample_server. requests_inv sample_server (emg_at sample_server k)
      \<and> slots_inv sample_server {} k (emg_at sample_server k)
      \<and> counts_inv sample_server (emg_at sample_server k) (missing (emg_at sample_server k))"
    using e by (simp add: sample_server_def)
  ultimately show "server_inv sample_server" using types l unfolding server_inv_def links_inv_def by blast
  show "no_flags sample_server" unfolding no_flags_def sample_types
    by (auto simp: sample_server_def sample_twin_def)
qed

lemma sample_eligible: "eligible sample_server 1 0" "eligible sample_server 1 1"
  "type_ok sample_server van"
proof -
  show "eligible sample_server 1 0" "eligible sample_server 1 1"
    by (simp_all add: eligible_def sample_server_def lower_priority_def eta_def the_level_def MANHATTAN_def
        sample_twin_def sample_emg_def van_def)
  have "links_inv sample_server {} (\<lambda>x. missing (emg_at sample_server x))"
    using sample_server_inv(1) by (simp add: server_inv_def)
  moreover have "Some van \<in> set (rescuer_types sample_server)" by (simp add: sample_server_def)
  ultimately show "type_ok sample_server van" using links_invD(1) by (auto simp: types_inv_def)
qed

theorem find_best_twin_correct_witness: "find_best_twin sample_server 1 van = Inr (Some 0)"
proof -
  have "rank sample_server 1 0 < rank sample_server 1 1"
    by (simp add: rank_def sample_server_def sample_twin_def)
  then have "b = Some 0" if "best_of (eligible sample_server 1) (rank sample_server 1) [0, 1] b" for b
    using that sample_eligible by (cases b) (auto simp: best_of_def Cons_eq_append_conv)
  then show ?thesis using find_best_twin_correct [OF sample_eligible(3), of 1]
    by (auto simp: sample_types)
qed


text \<open>The same state after the big fire got two rescuers and one of them has finished and gone.\<close>

definition sample_finished :: server where
  "sample_finished = set_twin 1 ((sample_twin 1)\<lparr>twin_status := RETURNING_TO_BASE, emergency := None\<rparr>)
    (set_emg 0 ((sample_emg 0)\<lparr>rescuer_twins := [None, None], rescuers_not_done_yet := 0\<rparr>)
    (set_emg 1 ((sample_emg 1)\<lparr>
      rescuers_missing := [Some \<lparr>req_type = van, required_count = 1, time_to_manage = 5\<rparr>, None],
      rescuers_not_done_yet := 1, rescuers_not_arrived_yet := 1\<rparr>) sample_server))"

lemmas sample_defs = sample_server_def sample_twin_def sample_emg_def small_fire_def big_fire_def
  van_def mallocate_bresenham_trajectory_def change_bresenham_trajectory_def Let_def

lemma sample_finished_twins:
  "known sample_finished t \<longleftrightarrow> t = 0 \<or> t = 1" "rescuer_types sample_finished = [Some van, None]"
  "emg_brk sample_finished = 2"
  by (simp_all add: sample_finished_def sample_types) (simp_all add: sample_server_def)

lemma sample_finished_inv: "server_inv sample_finished" "no_flags sample_finished"
proof -
  have tw: "twin_ok sample_finished 0" "twin_ok sample_finished 1"
    by (simp_all add: twin_ok_def sample_finished_def) (simp_all add: sample_defs)
  have rt: "rescuer (twin_at sample_finished 0) = van" "rescuer (twin_at sample_finished 1) = van"
    by (simp_all add: sample_finished_def) (simp_all add: sample_server_def sample_twin_def)
  have ty: "type_ok sample_finished van" using tw rt
    by (auto simp: type_ok_def sample_types) (auto simp: van_def numeral_2_eq_2)
  have types: "types_inv sample_finished" unfolding types_inv_def
  proof (intro conjI)
    show "inj_on (\<lambda>t. twin_id (twin_at sample_finished t)) {t. known sample_finished t}"
      by (auto simp: inj_on_def sample_finished_twins) (simp_all add: sample_finished_def sample_server_def sample_twin_def)
  qed (use ty in \<open>auto simp: sample_finished_twins\<close>)
  have at: "emg_at sample_finished 0 = (sample_emg 0)\<lparr>rescuer_twins := [None, None], rescuers_not_done_yet := 0\<rparr>"
    "emg_at sample_finished 1 = (sample_emg 1)\<lparr>
      rescuers_missing := [Some \<lparr>req_type = van, required_count = 1, time_to_manage = 5\<rparr>, None],
      rescuers_not_done_yet := 1, rescuers_not_arrived_yet := 1\<rparr>"
    by (simp_all add: sample_finished_def)
  have e: "requests_inv sample_finished (emg_at sample_finished k) \<and> slots_inv sample_finished {} k (emg_at sample_finished k)
      \<and> counts_inv sample_finished (emg_at sample_finished k) (missing (emg_at sample_finished k))"
    if "k = 0 \<or> k = 1" for k
    using that
    by (elim disjE; simp only: at)
      (simp_all add: sample_emg_def requests_inv_def slots_inv_def counts_inv_def active_twins_def wanted_def
        requests_ok_def requests_def missing_def total_count_def sample_finished_twins numeral_2_eq_2
        small_fire_def big_fire_def en_route_def)
  have l: "k < emg_brk sample_finished \<and> Some t \<in> set (active_twins (emg_at sample_finished k))"
    if "known sample_finished t" "emergency (twin_at sample_finished t) = Some k" for t k
    using that by (auto simp: sample_finished_twins) (auto simp: sample_finished_def sample_server_def sample_twin_def)
  have "inj_on (\<lambda>k. eid (emg_at sample_finished k)) {..<emg_brk sample_finished}"
    by (auto simp: inj_on_def sample_finished_twins) (auto simp: sample_finished_def sample_server_def sample_emg_def split: if_splits)
  then show "server_inv sample_finished" using types l e unfolding server_inv_def links_inv_def
    by (auto simp: sample_finished_twins less_2_cases_iff)
  show "no_flags sample_finished" unfolding no_flags_def sample_finished_twins
    by (auto simp: sample_finished_def) (simp_all add: sample_server_def sample_twin_def)
qed

theorem find_rescuers_reads_past_candidates_witness:
  "server_inv sample_finished \<and> find_rescuers 1 sample_finished = Inl OutOfBounds"
proof -
  have el: "eligible sample_finished 1 0"
    by (simp add: eligible_def sample_finished_def lower_priority_def eta_def the_level_def MANHATTAN_def)
      (simp add: sample_server_def sample_twin_def sample_emg_def van_def)
  have av: "1 \<le> available sample_finished 1 van" using el by (simp add: available_def sample_types)
  have at: "emg_at sample_finished 1 = (sample_emg 1)\<lparr>
      rescuers_missing := [Some \<lparr>req_type = van, required_count = 1, time_to_manage = 5\<rparr>, None],
      rescuers_not_done_yet := 1, rescuers_not_arrived_yet := 1\<rparr>"
    by (simp add: sample_finished_def)
  have "enough sample_finished 1" using av unfolding enough_def at
    by (simp add: requests_def sample_emg_def big_fire_def)
  moreover have "rescuers_not_done_yet (emg_at sample_finished 1) < rescuer_count (emg_at sample_finished 1)"
    "missing (emg_at sample_finished 1) \<noteq> 0" unfolding at
    by (simp_all add: sample_emg_def missing_def requests_def big_fire_def total_count_def)
  moreover have "\<not> rescuers_mutex sample_finished" "\<not> emergencies_mutex sample_finished" "1 < emg_brk sample_finished"
    by (simp_all add: sample_finished_def set_twin_def set_emg_def sample_server_def)
  ultimately show ?thesis using find_rescuers_reads_past_candidates [of sample_finished 1] sample_finished_inv
    by blast
qed

end
