(* ===== verification/Shutdown.thy ===== *)
theory Shutdown
  imports Server_State Samples
begin

text \<open>
  How the server stops: \<open>request_shutdown_from_thread\<close> and \<open>wake_everyone_now\<close> of
  \<^verbatim>\<open>main.c\<close>, which any thread may call, and the steps of the main thread after a
  signal. \<open>log_error_and_exit\<close> logs and calls the function it is given, so in a server thread it
  is \<open>request_shutdown_from_thread\<close> with \<^verbatim>\<open>EXIT_FAILURE\<close>, which returns to its caller.
\<close>

definition broadcast_slot :: "emg_ptr option \<Rightarrow> server \<Rightarrow> server" where
  "broadcast_slot ep s =
    (case ep of None \<Rightarrow> s | Some e \<Rightarrow> set_emg e ((emg_at s e)\<lparr>cond := cond (emg_at s e) + 1\<rparr>) s)"

definition wake_everyone_now :: "server \<Rightarrow> server res" where
  "wake_everyone_now s =
    (let s1 = s\<lparr>clock_updated := clock_updated s + 1\<rparr> in
     rbind (lock_emergencies s1) (\<lambda>s2.
     rbind (rfold (\<lambda>i s. rbind (arr_get (slots s) (int i)) (\<lambda>ep. Inr (broadcast_slot ep s)))
              [0..<WORKER_THREADS_NUMBER] s2) (\<lambda>s3.
     Inr (unlock_emergencies s3))))"

definition request_shutdown_from_thread :: "int \<Rightarrow> server \<Rightarrow> server res" where
  "request_shutdown_from_thread code s =
    (let s1 = (if code \<noteq> 0 then s\<lparr>exit_failure := True\<rparr> else s);
         already = shutting_down s1;
         s2 = s1\<lparr>shutting_down := True\<rparr>
     in if already then Inr s2
        else
          let s3 = s2\<lparr>server_must_stop := True\<rparr>;
              s4 = s3\<lparr>emergency_queue := lq_close (emergency_queue s3)\<rparr>
          in rbind (wake_everyone_now s4) (\<lambda>s5. Inr (s5\<lparr>stop_messages := stop_messages s5 + 1\<rparr>)))"

definition log_error_and_exit :: "(int \<Rightarrow> server \<Rightarrow> server res) \<Rightarrow> server \<Rightarrow> server res" where
  "log_error_and_exit exit_function s = exit_function 1 s"

text \<open>
  The main thread after \<^verbatim>\<open>sigwait\<close>, up to the joins: flag, stop message, queue closed,
  everybody woken.
\<close>

definition stop_on_signal :: "server \<Rightarrow> server res" where
  "stop_on_signal s =
    (let s1 = s\<lparr>server_must_stop := True, stop_messages := stop_messages s + 1\<rparr>;
         s2 = s1\<lparr>emergency_queue := lq_close (emergency_queue s1)\<rparr>;
         s3 = s2\<lparr>clock_updated := clock_updated s2 + 1\<rparr>
     in rbind (lock_emergencies s3) (\<lambda>s4.
        rbind (rfold (\<lambda>i s. rbind (arr_get (slots s) (int i)) (\<lambda>ep. Inr (broadcast_slot ep s)))
                 [0..<WORKER_THREADS_NUMBER] s4) (\<lambda>s5.
        Inr (unlock_emergencies s5))))"

section \<open>What a shutdown does\<close>

text \<open>Every emergency in a slot is signalled at least once.\<close>

lemma broadcast_slots:
  assumes "length (slots s) = WORKER_THREADS_NUMBER" and "n \<le> WORKER_THREADS_NUMBER"
  shows "\<exists>ea. rfold (\<lambda>i s. rbind (arr_get (slots s) (int i)) (\<lambda>ep. Inr (broadcast_slot ep s))) [0..<n] s
      = Inr (s\<lparr>emg_at := ea\<rparr>)
    \<and> (\<forall>e. \<exists>k. ea e = (emg_at s e)\<lparr>cond := cond (emg_at s e) + k\<rparr> \<and> (Some e \<in> set (take n (slots s)) \<longrightarrow> 0 < k))"
  using assms(2)
proof (induction n)
  case 0
  show ?case by (intro exI [of _ "emg_at s"]) (auto intro: exI [of _ 0])
next
  case (Suc n)
  then obtain ea where ea: "rfold (\<lambda>i s. rbind (arr_get (slots s) (int i)) (\<lambda>ep. Inr (broadcast_slot ep s))) [0..<n] s
      = Inr (s\<lparr>emg_at := ea\<rparr>)"
    and k: "\<And>e. \<exists>k. ea e = (emg_at s e)\<lparr>cond := cond (emg_at s e) + k\<rparr> \<and> (Some e \<in> set (take n (slots s)) \<longrightarrow> 0 < k)"
    by auto
  have n: "n < length (slots s)" using Suc.prems assms(1) by simp
  have tk: "take (Suc n) (slots s) = take n (slots s) @ [slots s ! n]" using n by (simp add: take_Suc_conv_app_nth)
  show ?case
  proof (cases "slots s ! n")
    case None
    then show ?thesis using ea k n
      by (intro exI [of _ ea]) (simp add: rfold_append broadcast_slot_def tk)
  next
    case (Some a)
    let ?ea = "ea(a := (ea a)\<lparr>cond := cond (ea a) + 1\<rparr>)"
    have "rfold (\<lambda>i s. rbind (arr_get (slots s) (int i)) (\<lambda>ep. Inr (broadcast_slot ep s))) [0..<Suc n] s
        = Inr (s\<lparr>emg_at := ?ea\<rparr>)"
      using ea n Some by (simp add: rfold_append broadcast_slot_def set_emg_def)
    moreover have "\<exists>k. ?ea e = (emg_at s e)\<lparr>cond := cond (emg_at s e) + k\<rparr>
        \<and> (Some e \<in> set (take (Suc n) (slots s)) \<longrightarrow> 0 < k)" for e
    proof -
      obtain j where j: "ea e = (emg_at s e)\<lparr>cond := cond (emg_at s e) + j\<rparr>"
        "Some e \<in> set (take n (slots s)) \<longrightarrow> 0 < j" using k by blast
      show ?thesis
      proof (cases "e = a")
        case True
        then show ?thesis using j by (intro exI [of _ "j + 1"]) simp
      next
        case False
        then show ?thesis using j Some by (intro exI [of _ j]) (simp add: tk)
      qed
    qed
    ultimately show ?thesis by blast
  qed
qed

lemma wake_everyone_now_correct:
  assumes "length (slots s) = WORKER_THREADS_NUMBER" and "\<not> emergencies_mutex s"
  shows "\<exists>ea. wake_everyone_now s = Inr (s\<lparr>clock_updated := clock_updated s + 1, emg_at := ea\<rparr>)
    \<and> (\<forall>e. \<exists>k. ea e = (emg_at s e)\<lparr>cond := cond (emg_at s e) + k\<rparr> \<and> (Some e \<in> set (slots s) \<longrightarrow> 0 < k))"
proof -
  let ?s = "s\<lparr>clock_updated := clock_updated s + 1, emergencies_mutex := True\<rparr>"
  from broadcast_slots [of ?s WORKER_THREADS_NUMBER] assms(1) obtain ea where
    "rfold (\<lambda>i s. rbind (arr_get (slots s) (int i)) (\<lambda>ep. Inr (broadcast_slot ep s))) [0..<WORKER_THREADS_NUMBER] ?s
      = Inr (?s\<lparr>emg_at := ea\<rparr>)"
    "\<forall>e. \<exists>k. ea e = (emg_at s e)\<lparr>cond := cond (emg_at s e) + k\<rparr> \<and> (Some e \<in> set (slots s) \<longrightarrow> 0 < k)"
    by auto
  then show ?thesis using assms(2)
    by (intro exI [of _ ea]) (simp add: wake_everyone_now_def lock_emergencies_def unlock_emergencies_def)
qed

lemma request_shutdown_first:
  assumes "length (slots s) = WORKER_THREADS_NUMBER" and "\<not> emergencies_mutex s" and "\<not> shutting_down s"
  shows "\<exists>s'. request_shutdown_from_thread code s = Inr s'
    \<and> server_must_stop s' \<and> lq_closed (emergency_queue s')
    \<and> clock_updated s' = clock_updated s + 1 \<and> stop_messages s' = stop_messages s + 1
    \<and> (\<forall>e. Some e \<in> set (slots s) \<longrightarrow> cond (emg_at s e) < cond (emg_at s' e))
    \<and> (code \<noteq> 0 \<longrightarrow> exit_failure s') \<and> request_shutdown_from_thread code s' = Inr s'"
proof -
  let ?s0 = "if code \<noteq> 0 then s\<lparr>exit_failure := True\<rparr> else s"
  let ?s = "?s0\<lparr>shutting_down := True, server_must_stop := True, emergency_queue := lq_close (emergency_queue s)\<rparr>"
  have "length (slots ?s) = WORKER_THREADS_NUMBER" "\<not> emergencies_mutex ?s" using assms by simp_all
  from wake_everyone_now_correct [OF this] obtain ea where
    ea: "wake_everyone_now ?s = Inr (?s\<lparr>clock_updated := clock_updated ?s + 1, emg_at := ea\<rparr>)"
    "\<And>e. \<exists>k. ea e = (emg_at ?s e)\<lparr>cond := cond (emg_at ?s e) + k\<rparr> \<and> (Some e \<in> set (slots ?s) \<longrightarrow> 0 < k)"
    by blast
  let ?s' = "?s\<lparr>clock_updated := clock_updated s + 1, emg_at := ea, stop_messages := stop_messages s + 1\<rparr>"
  have "cond (emg_at s e) < cond (ea e)" if "Some e \<in> set (slots s)" for e
    using ea(2) [of e] that by (cases "code = 0") auto
  moreover have "request_shutdown_from_thread code s = Inr ?s'"
    using ea(1) assms(3) by (cases "code = 0") (simp_all add: request_shutdown_from_thread_def)
  moreover have "request_shutdown_from_thread code ?s' = Inr ?s'"
    by (cases "code = 0") (simp_all add: request_shutdown_from_thread_def)
  ultimately show ?thesis
    by (intro exI [of _ ?s']) (simp add: lq_close_def)
qed

lemma request_shutdown_total:
  assumes "length (slots s) = WORKER_THREADS_NUMBER" and "\<not> emergencies_mutex s"
  shows "\<exists>s'. request_shutdown_from_thread code s = Inr s'"
proof (cases "shutting_down s")
  case True
  then show ?thesis by (cases "code = 0") (simp_all add: request_shutdown_from_thread_def)
next
  case False
  then show ?thesis using request_shutdown_first [OF assms] by blast
qed


text \<open>
  Called by a thread that holds that mutex, the first shutdown request never returns: it
  locks the plain mutex a second time. The updater makes its request, when a rescuer leaves the
  map, while it holds the lock of the system.
\<close>

theorem request_shutdown_under_lock_deadlocks:
  assumes "emergencies_mutex s" and "\<not> shutting_down s"
  shows "log_error_and_exit request_shutdown_from_thread s = Inl SelfDeadlock"
  using assms by (simp add: log_error_and_exit_def request_shutdown_from_thread_def wake_everyone_now_def
      lock_emergencies_def)


theorem request_shutdown_under_lock_deadlocks_witness:
  "rbind (lock_system sample_server) (log_error_and_exit request_shutdown_from_thread) = Inl SelfDeadlock"
proof -
  obtain s where s: "lock_system sample_server = Inr s" "emergencies_mutex s" "\<not> shutting_down s"
    by (simp add: lock_system_def sample_server_def)
  show ?thesis using request_shutdown_under_lock_deadlocks [OF s(2,3)] s(1) by simp
qed

end
