(* ===== verification/Updater.thy ===== *)
theory Updater
  imports Shutdown Dispatch_Correct
begin

text \<open>
  The updater thread of \<^verbatim>\<open>thread_updater.c\<close>: what one tick does to the twins, to the
  active emergencies and to the waiting ones. The functions that end in \<open>_blocked\<close> in the source
  run under the lock of the system.
\<close>

section \<open>Twins\<close>

definition MIN_X_COORDINATE :: int where
  "MIN_X_COORDINATE = 0"

definition MIN_Y_COORDINATE :: int where
  "MIN_Y_COORDINATE = 0"

definition send_rescuer_digital_twin_back_to_base :: "twin_ptr \<Rightarrow> server \<Rightarrow> server res" where
  "send_rescuer_digital_twin_back_to_base t s =
    (if twin_status (twin_at s t) = IDLE then Inr s
     else if twin_status (twin_at s t) = RETURNING_TO_BASE then Inr s
     else
       let v = twin_at s t;
           s1 = set_twin t (v\<lparr>twin_status := RETURNING_TO_BASE, twin_time_to_manage := INVALID_TIME,
                  time_left_before_leaving := INVALID_TIME\<rparr>) s
       in change_rescuer_digital_twin_destination (Some t)
            (base_x (rescuer (twin_at s1 t))) (base_y (rescuer (twin_at s1 t))) s1)"

text \<open>The twin leaves the scene; the emergency it works on must not be \<open>NULL\<close>.\<close>

definition leave_scene :: "twin_ptr \<Rightarrow> server \<Rightarrow> server res" where
  "leave_scene t s =
     rbind (deref (emergency (twin_at s t))) (\<lambda>e.
     let s1 = set_emg e ((emg_at s e)\<lparr>rescuers_not_done_yet := rescuers_not_done_yet (emg_at s e) - 1\<rparr>) s
     in rbind (remove_twin_from_its_emergency (Some t) s1) (\<lambda>s2.
        rbind (send_rescuer_digital_twin_back_to_base t s2) (\<lambda>s3.
        Inr (set_twin t ((twin_at s3 t)\<lparr>emergency := None\<rparr>) s3))))"

text \<open>The step along the trajectory and what follows it.\<close>

definition walk_twin :: "twin_ptr \<Rightarrow> int \<Rightarrow> int \<Rightarrow> int \<Rightarrow> int \<Rightarrow> server \<Rightarrow> (bool \<times> server) res" where
  "walk_twin t minx miny height width s =
    (let s1 = set_twin t ((twin_at s t)\<lparr>is_travelling := Some True\<rparr>) s;
         v = twin_at s1 t
     in rbind (compute_bresenham_step (twin_x v) (twin_y v) (trajectory v) (speed (rescuer v)) 0 0)
          (\<lambda>(we_have_arrived, tr, a, b).
        let s2 = set_twin t (v\<lparr>trajectory := tr, twin_x := twin_x v + a, twin_y := twin_y v + b\<rparr>) s1;
            w = twin_at s2 t
        in rbind (if twin_x w < minx \<or> twin_x w \<ge> width \<or> twin_y w < miny \<or> twin_y w \<ge> height
                  then log_error_and_exit request_shutdown_from_thread s2 else Inr s2) (\<lambda>s3.
           if \<not> we_have_arrived then Inr (True, s3)
           else
             let s4 = set_twin t ((twin_at s3 t)\<lparr>is_travelling := Some False\<rparr>) s3
             in case twin_status (twin_at s4 t) of
                  EN_ROUTE_TO_SCENE \<Rightarrow>
                    let u = twin_at s4 t;
                        s5 = set_twin t (u\<lparr>time_left_before_leaving := twin_time_to_manage u,
                               twin_status := ON_SCENE\<rparr>) s4
                    in rbind (deref (emergency (twin_at s5 t))) (\<lambda>e.
                       Inr (True, set_emg e ((emg_at s5 e)\<lparr>rescuers_not_arrived_yet :=
                         rescuers_not_arrived_yet (emg_at s5 e) - 1\<rparr>) s5))
                | RETURNING_TO_BASE \<Rightarrow>
                    Inr (True, set_twin t ((twin_at s4 t)\<lparr>twin_status := IDLE\<rparr>) s4)
                | _ \<Rightarrow> rbind (log_error_and_exit request_shutdown_from_thread s4) (\<lambda>s5. Inr (False, s5)))))"

definition update_rescuer_digital_twin_state ::
  "twin_ptr option \<Rightarrow> int \<Rightarrow> int \<Rightarrow> int \<Rightarrow> int \<Rightarrow> server \<Rightarrow> (bool \<times> server) res" where
  "update_rescuer_digital_twin_state tp minx miny height width s =
    (case tp of
       None \<Rightarrow> Inr (False, s)
     | Some t \<Rightarrow>
         if twin_status (twin_at s t) = IDLE then Inr (False, s)
         else if twin_status (twin_at s t) = ON_SCENE then
           let left = time_left_before_leaving (twin_at s t) - 1;
               s1 = set_twin t ((twin_at s t)\<lparr>time_left_before_leaving := left\<rparr>) s
           in if left > 0 then Inr (False, s1)
              else rbind (leave_scene t s1) (walk_twin t minx miny height width)
         else walk_twin t minx miny height width s)"

definition update_type :: "rescuer_type option \<Rightarrow> server \<Rightarrow> server res" where
  "update_type rp s =
    (case rp of
       None \<Rightarrow> Inr s
     | Some r \<Rightarrow>
         rfold (\<lambda>j s. rbind (arr_get (twins r) (int j)) (\<lambda>tp.
             rbind (update_rescuer_digital_twin_state tp MIN_X_COORDINATE MIN_Y_COORDINATE
                 (env_height s) (env_width s) s) (\<lambda>(_, s'). Inr s')))
           [0..<nat (amount r)] s)"

definition update_rescuers_states :: "server \<Rightarrow> server res" where
  "update_rescuers_states s =
     rfold (\<lambda>i s. rbind (arr_get (rescuer_types s) (int i)) (\<lambda>rp. update_type rp s))
       [0..<nat (rescuer_types_count s)] s"

section \<open>Active emergencies\<close>

definition promote_emergency :: "emg_ptr \<Rightarrow> server \<Rightarrow> server res" where
  "promote_emergency e s =
     rbind (get_next_priority (priority (emg_at s e))) (\<lambda>p.
     rbind (priority_to_timeout_timer p) (\<lambda>tt.
     rbind (priority_to_promotion_timer p) (\<lambda>pt.
       Inr (set_emg e ((emg_at s e)\<lparr>priority := p, timeout_timer := tt, promotion_timer := pt,
         how_many_times_was_promoted := how_many_times_was_promoted (emg_at s e) + 1\<rparr>) s))))"

definition update_active_emergency_state :: "emg_ptr option \<Rightarrow> server \<Rightarrow> server res" where
  "update_active_emergency_state ep s =
    (case ep of
       None \<Rightarrow> Inr s
     | Some e \<Rightarrow>
         let em = emg_at s e in
         if promotion_timer em \<noteq> NO_PROMOTION then
           let s1 = set_emg e (em\<lparr>promotion_timer := promotion_timer em - 1\<rparr>) s
           in if promotion_timer em \<le> 0 then promote_emergency e s1 else Inr s1
         else if status em = PAUSED then
           Inr (set_emg e (em\<lparr>timeout_timer := timeout_timer em - 1\<rparr>) s)
         else if rescuers_not_done_yet em \<le> 0 then
           Inr (set_emg e (em\<lparr>status := COMPLETED, cond := cond em + 1\<rparr>) s)
         else if rescuers_not_arrived_yet em \<le> 0 \<and> status em = ASSIGNED then
           Inr (set_emg e (em\<lparr>status := IN_PROGRESS\<rparr>) s)
         else Inr s)"

definition update_active_emergencies_states :: "server \<Rightarrow> server res" where
  "update_active_emergencies_states s =
     rfold (\<lambda>i s. rbind (arr_get (slots s) (int i)) (\<lambda>ep. update_active_emergency_state ep s))
       [0..<WORKER_THREADS_NUMBER] s"

section \<open>Waiting emergencies\<close>

definition update_waiting_emergency_state :: "emg_ptr \<Rightarrow> server \<Rightarrow> server" where
  "update_waiting_emergency_state e s =
    (let s1 = (if promotion_timer (emg_at s e) \<noteq> NO_PROMOTION
               then set_emg e ((emg_at s e)\<lparr>promotion_timer := promotion_timer (emg_at s e) - 1\<rparr>) s else s)
     in if timeout_timer (emg_at s1 e) \<noteq> NO_TIMEOUT
        then set_emg e ((emg_at s1 e)\<lparr>timeout_timer := timeout_timer (emg_at s1 e) - 1\<rparr>) s1 else s1)"

text \<open>\<open>pq_map\<close> runs over the levels from the lowest up.\<close>

definition update_waiting_emergencies_states :: "server \<Rightarrow> server" where
  "update_waiting_emergencies_states s =
     fold update_waiting_emergency_state (concat (lq_levels (emergency_queue s))) s"

definition emergency_has_expired :: "server \<Rightarrow> emg_ptr \<Rightarrow> bool" where
  "emergency_has_expired s e =
    (if timeout_timer (emg_at s e) = NO_TIMEOUT then False
     else if timeout_timer (emg_at s e) > 0 then False else True)"

definition emergency_is_to_promote :: "server \<Rightarrow> emg_ptr \<Rightarrow> bool" where
  "emergency_is_to_promote s e =
    (if promotion_timer (emg_at s e) = NO_PROMOTION then False
     else if promotion_timer (emg_at s e) > 0 then False else True)"

text \<open>
  The two \<^verbatim>\<open>while\<close> loops; one that does not end within the given number of
  extractions counts as not ending.
\<close>

fun remove_expired_loop :: "nat \<Rightarrow> server \<Rightarrow> server res" where
  "remove_expired_loop 0 s = Inl NonTermination"
| "remove_expired_loop (Suc fuel) s =
    (let (ep, q) = lq_extract (emergency_queue s) (emergency_has_expired s);
         s1 = s\<lparr>emergency_queue := q\<rparr>
     in case ep of
          None \<Rightarrow> Inr s1
        | Some e \<Rightarrow>
            let s2 = set_emg e ((emg_at s1 e)\<lparr>status := TIMEOUT\<rparr>) s1
            in rbind (priority_to_level (priority (emg_at s2 e))) (\<lambda>l.
               remove_expired_loop fuel
                 (s2\<lparr>canceled_emergencies := lq_push (canceled_emergencies s2) e l\<rparr>)))"

fun promote_loop :: "nat \<Rightarrow> server \<Rightarrow> server res" where
  "promote_loop 0 s = Inl NonTermination"
| "promote_loop (Suc fuel) s =
    (let (ep, q) = lq_extract (emergency_queue s) (emergency_is_to_promote s);
         s1 = s\<lparr>emergency_queue := q\<rparr>
     in case ep of
          None \<Rightarrow> Inr s1
        | Some e \<Rightarrow>
            rbind (promote_emergency e s1) (\<lambda>s2.
            rbind (priority_to_level (priority (emg_at s2 e))) (\<lambda>l.
              promote_loop fuel (s2\<lparr>emergency_queue := lq_push (emergency_queue s2) e l\<rparr>))))"

text \<open>As many rounds as there are waiting emergencies, and one that finds none, are enough.\<close>

definition queue_fuel :: "server \<Rightarrow> nat" where
  "queue_fuel s = Suc (length (lq_items (emergency_queue s)))"

definition remove_expired_waiting_emergencies :: "server \<Rightarrow> server res" where
  "remove_expired_waiting_emergencies s = remove_expired_loop (queue_fuel s) s"

definition promote_needing_waiting_emergencies :: "server \<Rightarrow> server res" where
  "promote_needing_waiting_emergencies s = promote_loop (queue_fuel s) s"

section \<open>One tick\<close>

text \<open>What the thread does after it has taken the tick; writing the simulation file is left out.\<close>

definition updater_tick :: "server \<Rightarrow> server res" where
  "updater_tick s =
     rbind (lock_system s) (\<lambda>s1.
     rbind (update_rescuers_states s1) (\<lambda>s2.
     rbind (update_active_emergencies_states s2) (\<lambda>s3.
     let s4 = unlock_system s3;
         s5 = update_waiting_emergencies_states s4
     in rbind (remove_expired_waiting_emergencies s5) promote_needing_waiting_emergencies)))"

end
