(* ===== verification/Updater_Twins.thy ===== *)
theory Updater_Twins
  imports Updater
begin

text \<open>
  The updater's pass over the rescuers: on a consistent state in which every rescuer under way has
  a course from where it stands to where it is bound, each rescuer makes its step, none leaves the
  map, and the state stays consistent.
\<close>

section \<open>Changes of one twin\<close>

text \<open>A change that leaves what the twin is and does.\<close>

lemma links_inv_same_twin:
  assumes inv: "links_inv s D f" and t: "known s t"
    and same: "twin_id v = twin_id (twin_at s t)" "rescuer v = rescuer (twin_at s t)"
      "twin_status v = twin_status (twin_at s t)" "emergency v = emergency (twin_at s t)" "trajectory v \<noteq> None"
  shows "links_inv (set_twin t v s) D f"
proof -
  note i = links_invD [OF inv]
  let ?s = "set_twin t v s"
  have ok: "twin_ok ?s t" using known_type(4) [OF i(1) t] same by (simp add: twin_ok_def)
  have em: "emergency (twin_at ?s u) = emergency (twin_at s u)" "rescuer (twin_at ?s u) = rescuer (twin_at s u)" for u
    using same by simp_all
  have "en_route ?s = en_route s" using same by (auto simp: en_route_def fun_eq_iff split: option.splits)
  then have "counts_inv ?s = counts_inv s" by (intro ext) (simp only: counts_inv_def)
  moreover have "slots_inv ?s = slots_inv s" unfolding slots_inv_def fun_eq_iff em inv_frame by simp
  moreover have "requests_inv ?s = requests_inv s" by (intro ext requests_inv_types) simp
  ultimately show ?thesis using types_inv_set_twin [OF i(1) ok same(1,2)] i(2-7)
    unfolding links_inv_def inv_frame em set_twin_simps(2) by simp
qed

text \<open>A change that leaves a twin without an emergency.\<close>

lemma links_inv_off_duty:
  assumes inv: "links_inv s {} f" and t: "known s t" "emergency (twin_at s t) = None"
    and v: "twin_id v = twin_id (twin_at s t)" "rescuer v = rescuer (twin_at s t)" "trajectory v \<noteq> None"
      "emergency v = None" "twin_status v = IDLE \<or> twin_status v = RETURNING_TO_BASE"
  shows "links_inv (set_twin t v s) {} f"
proof -
  have "0 < speed (rescuer (twin_at s t))" using twin_okD(1) known_type(4) [OF links_invD(1) [OF inv] t(1)] by blast
  then have ok: "twin_ok (set_twin t v s) t" using v by (auto simp: twin_ok_def)
  have "links_inv s {t} f" using links_inv_free_twin [OF inv t(2)] by simp
  from links_inv_set_twin [OF this _ ok v(1,2)] have "links_inv (set_twin t v s) {t} f" by simp
  then show ?thesis using links_inv_free_twin [of "set_twin t v s" "{t}" f t] v(4) by simp
qed

text \<open>The arrival of a twin: one rescuer less is awaited.\<close>

lemma arrival_count:
  assumes "distinct (filter (\<lambda>c. c \<noteq> None) xs)" and "Some t \<in> set xs"
    and "twin_status (twin_at s t) = EN_ROUTE_TO_SCENE" and "twin_status v \<noteq> EN_ROUTE_TO_SCENE"
  shows "count_if (en_route (set_twin t v s)) xs + 1 = count_if (en_route s) xs"
proof -
  obtain j where j: "j < length xs" "xs ! j = Some t" using assms(2) by (auto simp: in_set_conv_nth)
  have "Some t \<notin> set (xs[j := None])" using emptied_slot [OF assms(1) j] by simp
  then have "count_if (en_route (set_twin t v s)) (xs[j := None]) = count_if (en_route s) (xs[j := None])"
    by (intro count_if_cong) (auto simp: en_route_def split: option.splits)
  then show ?thesis
    using count_if_update [OF j(1), of "en_route s" None] count_if_update [OF j(1), of "en_route (set_twin t v s)" None]
      j(2) assms(3,4) by (simp add: en_route_def)
qed

lemma links_inv_arrival:
  assumes inv: "links_inv s {} f" and t: "known s t" "emergency (twin_at s t) = Some e"
      "twin_status (twin_at s t) = EN_ROUTE_TO_SCENE"
    and v: "twin_id v = twin_id (twin_at s t)" "rescuer v = rescuer (twin_at s t)" "trajectory v \<noteq> None"
      "emergency v = Some e" "twin_status v = ON_SCENE"
  shows "links_inv (set_emg e ((emg_at s e)\<lparr>rescuers_not_arrived_yet :=
    rescuers_not_arrived_yet (emg_at s e) - 1\<rparr>) (set_twin t v s)) {} f"
proof -
  note i = links_invD [OF inv]
  let ?s = "set_twin t v s" and ?em = "emg_at s e"
  let ?em' = "?em\<lparr>rescuers_not_arrived_yet := rescuers_not_arrived_yet ?em - 1\<rparr>"
  have e: "e < emg_brk s" using i(5) [OF t(1) _ t(2)] by simp
  have mem: "Some t \<in> set (active_twins ?em)" using i(6) [OF t(1) _ t(2)] by simp
  have "0 < speed (rescuer (twin_at s t))" using twin_okD(1) known_type(4) [OF i(1) t(1)] by blast
  then have ok: "twin_ok ?s t" using v by (simp add: twin_ok_def)
  have em: "emergency (twin_at ?s u) = emergency (twin_at s u)" "rescuer (twin_at ?s u) = rescuer (twin_at s u)" for u
    using v t by simp_all
  have slots: "slots_inv ?s = slots_inv s" unfolding slots_inv_def fun_eq_iff em inv_frame by simp
  have req: "requests_inv ?s = requests_inv s" by (intro ext requests_inv_types) simp
  have act: "active_twins ?em' = active_twins ?em" "wanted ?em' = wanted ?em"
    by (simp_all add: active_twins_def wanted_def)
  have rinv: "requests_inv s ?em'" using i(2) [OF e] act by (simp add: requests_inv_def)
  have sinv: "slots_inv s {} e ?em'" using i(3) [OF e] unfolding slots_inv_def act .
  have here: "counts_inv ?s ?em' (f e)"
    using i(4) [OF e] arrival_count [of "active_twins ?em" t s v] i(3) [OF e] mem t(3) v(5) act
    by (simp add: counts_inv_def slots_inv_def)
  have there: "counts_inv ?s (emg_at s e') (f e')" if "e' < emg_brk s" "e' \<noteq> e" for e'
  proof -
    have "Some t \<notin> set (active_twins (emg_at s e'))" using i(3) [OF that(1)] t(2) that(2) by (auto simp: slots_inv_def)
    then have "count_if (en_route ?s) (active_twins (emg_at s e')) = count_if (en_route s) (active_twins (emg_at s e'))"
      by (intro count_if_cong) (auto simp: en_route_def split: option.splits)
    then show ?thesis using i(4) [OF that(1)] by (simp add: counts_inv_def)
  qed
  have at: "emg_at (set_emg e ?em' ?s) e' = (if e' = e then ?em' else emg_at s e')" for e' by simp
  have "eid (if e' = e then ?em' else emg_at s e') = eid (emg_at s e')" for e' by simp
  moreover have "active_twins (if e' = e then ?em' else emg_at s e') = active_twins (emg_at s e')" for e'
    using act by simp
  ultimately show ?thesis
    unfolding links_inv_def inv_frame at req slots set_twin_simps(3) em
    using types_inv_set_twin [OF i(1) ok v(1,2)] i(2-7) here there rinv sinv by simp
qed

text \<open>What is missing does not change with these counters.\<close>

lemma server_inv_links:
  assumes "links_inv s' {} (\<lambda>e. missing (emg_at s e))" and "\<And>e. missing (emg_at s' e) = missing (emg_at s e)"
  shows "server_inv s'"
  using assms by (simp add: server_inv_def)

section \<open>Courses\<close>

definition in_map :: "server \<Rightarrow> int \<Rightarrow> int \<Rightarrow> bool" where
  "in_map s x y \<longleftrightarrow> MIN_X_COORDINATE \<le> x \<and> x < env_width s \<and> MIN_Y_COORDINATE \<le> y \<and> y < env_height s"

text \<open>A twin that has a usable course from where it stands to a cell.\<close>

definition bound_for :: "rescuer_digital_twin \<Rightarrow> int \<Rightarrow> int \<Rightarrow> bool" where
  "bound_for v x y \<longleftrightarrow>
     (\<exists>c. trajectory v = Some (Some c) \<and> valid_course c (twin_x v) (twin_y v) \<and> x_target c = x \<and> y_target c = y)"

definition on_course :: "server \<Rightarrow> rescuer_digital_twin \<Rightarrow> bool" where
  "on_course s v \<longleftrightarrow> in_map s (twin_x v) (twin_y v) \<and> in_map s (base_x (rescuer v)) (base_y (rescuer v)) \<and>
     (case twin_status v of
        IDLE \<Rightarrow> twin_x v = base_x (rescuer v) \<and> twin_y v = base_y (rescuer v)
      | EN_ROUTE_TO_SCENE \<Rightarrow>
          (case emergency v of None \<Rightarrow> False | Some e \<Rightarrow> bound_for v (emg_x (emg_at s e)) (emg_y (emg_at s e)))
      | ON_SCENE \<Rightarrow> bound_for v (twin_x v) (twin_y v)
      | RETURNING_TO_BASE \<Rightarrow> bound_for v (base_x (rescuer v)) (base_y (rescuer v)))"

definition courses_inv :: "server \<Rightarrow> bool" where
  "courses_inv s \<longleftrightarrow> (\<forall>t. known s t \<longrightarrow> on_course s (twin_at s t)) \<and>
     (\<forall>e < emg_brk s. in_map s (emg_x (emg_at s e)) (emg_y (emg_at s e)))"

lemma in_map_between:
  assumes "in_map s x y" and "in_map s x' y'" and "between x a x'" and "between y b y'"
  shows "in_map s a b"
  using assms by (auto simp: in_map_def between_def)

text \<open>The distance a twin still has to a cell.\<close>

definition way :: "rescuer_digital_twin \<Rightarrow> int \<Rightarrow> int \<Rightarrow> int" where
  "way v x y = MANHATTAN (twin_x v) (twin_y v) x y"

lemma way_0: "way v x y = 0 \<longleftrightarrow> twin_x v = x \<and> twin_y v = y"
  by (simp add: way_def MANHATTAN_eq_0)

text \<open>What a step along the course makes of a twin, before it may arrive.\<close>

definition stepped :: "server \<Rightarrow> int \<Rightarrow> int \<Rightarrow> rescuer_digital_twin \<Rightarrow> rescuer_digital_twin \<Rightarrow> bool" where
  "stepped s x y v w \<longleftrightarrow>
     twin_id w = twin_id v \<and> rescuer w = rescuer v \<and> twin_status w = twin_status v \<and> emergency w = emergency v
     \<and> is_a_candidate w = is_a_candidate v \<and> twin_time_to_manage w = twin_time_to_manage v
     \<and> time_left_before_leaving w = time_left_before_leaving v
     \<and> bound_for w x y \<and> in_map s (twin_x w) (twin_y w)
     \<and> way w x y = max 0 (way v x y - speed (rescuer v))"

definition arrive :: "twin_ptr \<Rightarrow> rescuer_digital_twin \<Rightarrow> server \<Rightarrow> server" where
  "arrive t w s =
    (if twin_status w = EN_ROUTE_TO_SCENE then
       (let e = the (emergency w)
        in set_emg e ((emg_at s e)\<lparr>rescuers_not_arrived_yet := rescuers_not_arrived_yet (emg_at s e) - 1\<rparr>)
             (set_twin t (w\<lparr>time_left_before_leaving := twin_time_to_manage w, twin_status := ON_SCENE\<rparr>) s))
     else set_twin t (w\<lparr>twin_status := IDLE\<rparr>) s)"

lemma walk_twin_correct:
  assumes "bound_for (twin_at s t) x y" and "0 < speed (rescuer (twin_at s t))"
    and "in_map s (twin_x (twin_at s t)) (twin_y (twin_at s t))" and "in_map s x y"
    and "twin_status (twin_at s t) = EN_ROUTE_TO_SCENE \<and> emergency (twin_at s t) \<noteq> None
      \<or> twin_status (twin_at s t) = RETURNING_TO_BASE"
  shows "\<exists>w. stepped s x y (twin_at s t) w
    \<and> walk_twin t MIN_X_COORDINATE MIN_Y_COORDINATE (env_height s) (env_width s) s
      = Inr (True, if way w x y = 0 then arrive t w s else set_twin t w s)"
proof -
  let ?v = "twin_at s t"
  obtain c where c: "trajectory ?v = Some (Some c)" "valid_course c (twin_x ?v) (twin_y ?v)"
    "x_target c = x" "y_target c = y" using assms(1) by (auto simp: bound_for_def)
  from compute_bresenham_step_correct [OF c(2) assms(2), of 0 0] obtain arrived er a b where
    st: "compute_bresenham_step (twin_x ?v) (twin_y ?v) (Some (Some c)) (speed (rescuer ?v)) 0 0
        = Inr (arrived, Some (Some (c\<lparr>err := er\<rparr>)), a, b)"
    and vc: "valid_course (c\<lparr>err := er\<rparr>) (twin_x ?v + a) (twin_y ?v + b)"
    and m: "MANHATTAN (twin_x ?v + a) (twin_y ?v + b) x y
        = max 0 (MANHATTAN (twin_x ?v) (twin_y ?v) x y - speed (rescuer ?v))"
    and btw: "between (twin_x ?v) (twin_x ?v + a) x" "between (twin_y ?v) (twin_y ?v + b) y"
    and arr: "arrived \<longleftrightarrow> twin_x ?v + a = x \<and> twin_y ?v + b = y"
    unfolding c(3,4) by blast
  define v1 where "v1 = ?v\<lparr>is_travelling := Some True\<rparr>"
  define w0 where "w0 = v1\<lparr>trajectory := Some (Some (c\<lparr>err := er\<rparr>)),
      twin_x := twin_x ?v + a, twin_y := twin_y ?v + b\<rparr>"
  define w where "w = (if arrived then w0\<lparr>is_travelling := Some False\<rparr> else w0)"
  have v1: "twin_x v1 = twin_x ?v" "twin_y v1 = twin_y ?v" "trajectory v1 = Some (Some c)" "rescuer v1 = rescuer ?v"
    using c(1) by (simp_all add: v1_def)
  have inm: "in_map s (twin_x ?v + a) (twin_y ?v + b)" by (rule in_map_between [OF assms(3,4) btw])
  have f: "twin_x w = twin_x ?v + a" "twin_y w = twin_y ?v + b" "trajectory w = Some (Some (c\<lparr>err := er\<rparr>))"
    "twin_status w = twin_status ?v" "emergency w = emergency ?v" "rescuer w = rescuer ?v" "twin_id w = twin_id ?v"
    "is_a_candidate w = is_a_candidate ?v" "twin_time_to_manage w = twin_time_to_manage ?v"
    "time_left_before_leaving w = time_left_before_leaving ?v"
    by (simp_all add: w_def w0_def v1_def)
  have wy: "way w x y = 0 \<longleftrightarrow> arrived" using arr f by (simp add: way_0)
  have "stepped s x y ?v w" using f inm vc m c(3,4) by (simp add: stepped_def bound_for_def way_def)
  moreover have "walk_twin t MIN_X_COORDINATE MIN_Y_COORDINATE (env_height s) (env_width s) s
      = Inr (True, if way w x y = 0 then arrive t w s else set_twin t w s)"
  proof (cases arrived)
    case False
    then show ?thesis using st inm v1 wy
      by (simp add: walk_twin_def v1_def [symmetric] w_def w0_def in_map_def)
  next
    case True
    then have w: "w = w0\<lparr>is_travelling := Some False\<rparr>" by (simp add: w_def)
    have st0: "twin_status w0 = twin_status ?v" by (simp add: w0_def v1_def)
    show ?thesis using st inm v1 wy True assms(5) f(4,5) st0
      by (auto simp: walk_twin_def v1_def [symmetric] w0_def [symmetric] w [symmetric] in_map_def arrive_def f Let_def)
  qed
  ultimately show ?thesis by blast
qed

section \<open>Leaving the scene\<close>

lemma bound_for_departure:
  assumes "trajectory v = Some c"
  shows "bound_for (v\<lparr>has_arrived := h, time_left_before_leaving := l,
    trajectory := change_bresenham_trajectory (trajectory v) (twin_x v) (twin_y v) x y\<rparr>) x y"
proof -
  obtain d where d: "change_bresenham_trajectory (Some c) (twin_x v) (twin_y v) x y = Some (Some d)"
    using change_bresenham_trajectory_Some by blast
  show ?thesis using change_bresenham_trajectory_on [OF d] assms d by (simp add: bound_for_def valid_course_def)
qed

lemma send_back_correct:
  assumes "twin_status (twin_at s t) = ON_SCENE" and "bound_for (twin_at s t) (twin_x (twin_at s t)) (twin_y (twin_at s t))"
  shows "\<exists>v. send_rescuer_digital_twin_back_to_base t s = Inr (set_twin t v s)
    \<and> twin_status v = RETURNING_TO_BASE \<and> bound_for v (base_x (rescuer v)) (base_y (rescuer v))
    \<and> twin_id v = twin_id (twin_at s t) \<and> rescuer v = rescuer (twin_at s t) \<and> is_a_candidate v = is_a_candidate (twin_at s t)
    \<and> emergency v = emergency (twin_at s t)
    \<and> twin_x v = twin_x (twin_at s t) \<and> twin_y v = twin_y (twin_at s t)"
proof -
  let ?v = "twin_at s t"
  define v1 where "v1 = ?v\<lparr>twin_status := RETURNING_TO_BASE, twin_time_to_manage := INVALID_TIME,
      time_left_before_leaving := INVALID_TIME\<rparr>"
  have f: "twin_x v1 = twin_x ?v" "twin_y v1 = twin_y ?v" "rescuer v1 = rescuer ?v" "twin_status v1 = RETURNING_TO_BASE"
    "twin_id v1 = twin_id ?v" "is_a_candidate v1 = is_a_candidate ?v" "emergency v1 = emergency ?v"
    "trajectory v1 = trajectory ?v"
    by (simp_all add: v1_def)
  obtain c where c: "trajectory ?v = Some c" using assms(2) by (auto simp: bound_for_def)
  have run: "send_rescuer_digital_twin_back_to_base t s = change_rescuer_digital_twin_destination (Some t)
      (base_x (rescuer ?v)) (base_y (rescuer ?v)) (set_twin t v1 s)"
    using assms(1) f by (simp add: send_rescuer_digital_twin_back_to_base_def v1_def [symmetric] Let_def)
  show ?thesis
  proof (cases "twin_x ?v = base_x (rescuer ?v) \<and> twin_y ?v = base_y (rescuer ?v)")
    case True
    then have "bound_for (v1\<lparr>has_arrived := Some True\<rparr>) (base_x (rescuer ?v)) (base_y (rescuer ?v))"
      using assms(2) f by (auto simp: bound_for_def)
    then show ?thesis using True run f
      by (intro exI [of _ "v1\<lparr>has_arrived := Some True\<rparr>"])
        (simp add: change_rescuer_digital_twin_destination_def)
  next
    case False
    note b = bound_for_departure [of v1 c "base_x (rescuer ?v)" "base_y (rescuer ?v)" INVALID_TIME "Some False"]
    show ?thesis using False run f b c
      by (intro exI [of _ "v1\<lparr>has_arrived := Some False, time_left_before_leaving := INVALID_TIME,
          trajectory := change_bresenham_trajectory (trajectory v1) (twin_x v1) (twin_y v1)
            (base_x (rescuer ?v)) (base_y (rescuer ?v))\<rparr>"])
        (auto simp: change_rescuer_digital_twin_destination_def Let_def)
  qed
qed

lemma leave_scene_correct:
  assumes inv: "server_inv s" and t: "known s t" "twin_status (twin_at s t) = ON_SCENE"
    and b: "bound_for (twin_at s t) (twin_x (twin_at s t)) (twin_y (twin_at s t))"
  shows "\<exists>e j v. emergency (twin_at s t) = Some e \<and> e < emg_brk s
    \<and> j < nat (rescuer_count (emg_at s e)) \<and> rescuer_twins (emg_at s e) ! j = Some t
    \<and> leave_scene t s = Inr (set_twin t v (set_emg e ((emg_at s e)\<lparr>
         rescuers_not_done_yet := rescuers_not_done_yet (emg_at s e) - 1,
         rescuer_twins := (rescuer_twins (emg_at s e))[j := None]\<rparr>) s))
    \<and> server_inv (set_twin t v (set_emg e ((emg_at s e)\<lparr>
         rescuers_not_done_yet := rescuers_not_done_yet (emg_at s e) - 1,
         rescuer_twins := (rescuer_twins (emg_at s e))[j := None]\<rparr>) s))
    \<and> twin_status v = RETURNING_TO_BASE \<and> bound_for v (base_x (rescuer v)) (base_y (rescuer v))
    \<and> twin_id v = twin_id (twin_at s t) \<and> rescuer v = rescuer (twin_at s t) \<and> is_a_candidate v = is_a_candidate (twin_at s t)
    \<and> emergency v = None \<and> twin_x v = twin_x (twin_at s t) \<and> twin_y v = twin_y (twin_at s t)"
proof -
  have l: "links_inv s {} (\<lambda>e. missing (emg_at s e))" using inv by (simp add: server_inv_def)
  note i = links_invD [OF l]
  have ok: "twin_ok s t" by (rule known_type(4) [OF i(1) t(1)])
  then obtain e where te: "emergency (twin_at s t) = Some e" using t(2) by (auto simp: twin_ok_def)
  have e: "e < emg_brk s" using i(5) [OF t(1) _ te] by simp
  define em where "em = (emg_at s e)\<lparr>rescuers_not_done_yet := rescuers_not_done_yet (emg_at s e) - 1\<rparr>"
  have em_f: "rescuer_twins em = rescuer_twins (emg_at s e)" "rescuer_count em = rescuer_count (emg_at s e)"
    by (simp_all add: em_def)
  have "t \<notin> {}" by simp
  from remove_twin_found [OF l t(1) this te em_f] obtain j where j:
    "j < nat (rescuer_count (emg_at s e))" "rescuer_twins (emg_at s e) ! j = Some t"
    "remove_twin_from_its_emergency (Some t) (set_emg e em s)
      = Inr (set_emg e (em\<lparr>rescuer_twins := (rescuer_twins (emg_at s e))[j := None]\<rparr>) s)"
    unfolding em_f by blast
  define em' where "em' = em\<lparr>rescuer_twins := (rescuer_twins (emg_at s e))[j := None]\<rparr>"
  let ?s2 = "set_emg e em' s"
  from send_back_correct [of ?s2 t] t(2) b obtain w where w:
    "send_rescuer_digital_twin_back_to_base t ?s2 = Inr (set_twin t w ?s2)"
    "twin_status w = RETURNING_TO_BASE" "bound_for w (base_x (rescuer w)) (base_y (rescuer w))"
    "twin_id w = twin_id (twin_at s t)" "rescuer w = rescuer (twin_at s t)" "is_a_candidate w = is_a_candidate (twin_at s t)"
    "twin_x w = twin_x (twin_at s t)" "twin_y w = twin_y (twin_at s t)"
    by auto
  define v where "v = w\<lparr>emergency := None\<rparr>"
  have v: "twin_status v = RETURNING_TO_BASE" "bound_for v (base_x (rescuer v)) (base_y (rescuer v))"
    "twin_id v = twin_id (twin_at s t)" "rescuer v = rescuer (twin_at s t)" "is_a_candidate v = is_a_candidate (twin_at s t)"
    "emergency v = None" "twin_x v = twin_x (twin_at s t)" "twin_y v = twin_y (twin_at s t)" "trajectory v \<noteq> None"
    using w by (auto simp: v_def bound_for_def)
  have run: "leave_scene t s = Inr (set_twin t v ?s2)"
    using te j(3) w(1) by (simp add: leave_scene_def em_def [symmetric] em'_def [symmetric] v_def)
  have mis: "missing em' = missing (emg_at s e)" by (simp add: missing_def em'_def em_def)
  have "links_inv ?s2 (insert t {}) ((\<lambda>e. missing (emg_at s e))(e := missing em'))"
  proof (rule links_inv_detach [OF l t(1) _ te j(1,2)])
    show "requests_inv s em'" using i(2) [OF e] by (simp add: requests_inv_def wanted_def em'_def em_def)
    show "rescuers_not_done_yet em' \<le> rescuer_count em'" "0 \<le> missing em'"
      using i(4) [OF e] mis by (simp_all add: counts_inv_def em'_def em_def)
  qed (simp_all add: em'_def em_def t(2) missing_def)
  moreover have "(\<lambda>e. missing (emg_at s e))(e := missing em') = (\<lambda>e'. missing (emg_at ?s2 e'))"
    by (auto simp: fun_eq_iff)
  ultimately have "links_inv ?s2 {t} (\<lambda>e'. missing (emg_at ?s2 e'))" by simp
  moreover have "twin_ok (set_twin t v ?s2) t" using v twin_okD(1) [OF ok] by (simp add: twin_ok_def)
  ultimately have "links_inv (set_twin t v ?s2) {t} (\<lambda>e'. missing (emg_at ?s2 e'))"
    using v by (intro links_inv_set_twin) simp_all
  then have "links_inv (set_twin t v ?s2) {} (\<lambda>e'. missing (emg_at ?s2 e'))"
    using links_inv_free_twin [of "set_twin t v ?s2" "{t}" _ t] v(6) by simp
  then have "server_inv (set_twin t v ?s2)" by (simp add: server_inv_def)
  moreover have "em' = (emg_at s e)\<lparr>rescuers_not_done_yet := rescuers_not_done_yet (emg_at s e) - 1,
         rescuer_twins := (rescuer_twins (emg_at s e))[j := None]\<rparr>"
    by (simp add: em'_def em_def)
  ultimately show ?thesis using te e j(1,2) run v by metis
qed

section \<open>The tick of one twin\<close>

text \<open>What a tick does to a twin, by what it was doing.\<close>

definition home_step :: "rescuer_digital_twin \<Rightarrow> rescuer_digital_twin \<Rightarrow> bool" where
  "home_step v w \<longleftrightarrow> (let x = base_x (rescuer v); y = base_y (rescuer v) in
     emergency w = None \<and> way w x y = max 0 (way v x y - speed (rescuer v))
     \<and> twin_status w = (if way w x y = 0 then IDLE else RETURNING_TO_BASE))"

definition scene_step :: "server \<Rightarrow> emg_ptr \<Rightarrow> rescuer_digital_twin \<Rightarrow> rescuer_digital_twin \<Rightarrow> bool" where
  "scene_step s e v w \<longleftrightarrow> (let x = emg_x (emg_at s e); y = emg_y (emg_at s e) in
     emergency w = Some e \<and> twin_time_to_manage w = twin_time_to_manage v \<and> way w x y = max 0 (way v x y - speed (rescuer v))
     \<and> twin_status w = (if way w x y = 0 then ON_SCENE else EN_ROUTE_TO_SCENE)
     \<and> (way w x y = 0 \<longrightarrow> time_left_before_leaving w = twin_time_to_manage v))"

definition ticked :: "server \<Rightarrow> rescuer_digital_twin \<Rightarrow> rescuer_digital_twin \<Rightarrow> bool" where
  "ticked s v w \<longleftrightarrow> twin_id w = twin_id v \<and> rescuer w = rescuer v \<and> is_a_candidate w = is_a_candidate v \<and>
     (case twin_status v of
        IDLE \<Rightarrow> w = v
      | EN_ROUTE_TO_SCENE \<Rightarrow> (\<exists>e. emergency v = Some e \<and> scene_step s e v w)
      | ON_SCENE \<Rightarrow>
          if 1 < time_left_before_leaving v
          then w = v\<lparr>time_left_before_leaving := time_left_before_leaving v - 1\<rparr>
          else home_step v w
      | RETURNING_TO_BASE \<Rightarrow> home_step v w)"

text \<open>What it leaves alone: the other twins, and of the emergencies all but slots and counters.\<close>

definition worked_on :: "emergency \<Rightarrow> emergency \<Rightarrow> bool" where
  "worked_on em em' \<longleftrightarrow> (\<exists>ts a d. em' = em\<lparr>rescuer_twins := ts, rescuers_not_arrived_yet := a, rescuers_not_done_yet := d\<rparr>
     \<and> a \<le> rescuers_not_arrived_yet em \<and> d \<le> rescuers_not_done_yet em)"

definition twins_frame :: "twin_ptr set \<Rightarrow> server \<Rightarrow> server \<Rightarrow> bool" where
  "twins_frame T s s' \<longleftrightarrow> (\<exists>ta ea. s' = s\<lparr>twin_at := ta, emg_at := ea\<rparr>) \<and>
     (\<forall>u. u \<notin> T \<longrightarrow> twin_at s' u = twin_at s u) \<and> (\<forall>e. worked_on (emg_at s e) (emg_at s' e))"

lemma worked_on_refl [simp]: "worked_on em em"
proof -
  have "em = em\<lparr>rescuer_twins := rescuer_twins em, rescuers_not_arrived_yet := rescuers_not_arrived_yet em,
      rescuers_not_done_yet := rescuers_not_done_yet em\<rparr>" by simp
  then show ?thesis unfolding worked_on_def by blast
qed

lemma worked_on_trans: "worked_on a b \<Longrightarrow> worked_on b c \<Longrightarrow> worked_on a c"
  unfolding worked_on_def by (elim exE conjE) (intro exI conjI, (rule emergency.equality; simp), simp_all)

lemma worked_onD:
  assumes "worked_on em em'"
  shows "emg_x em' = emg_x em" "emg_y em' = emg_y em" "eid em' = eid em" "etype em' = etype em"
    "priority em' = priority em" "status em' = status em" "rescuers_missing em' = rescuers_missing em"
    "missing em' = missing em" "rescuer_count em' = rescuer_count em"
  using assms by (auto simp: worked_on_def missing_def)

lemma twins_frame_refl [simp]: "twins_frame T s s"
proof -
  have "s = s\<lparr>twin_at := twin_at s, emg_at := emg_at s\<rparr>" by simp
  then show ?thesis unfolding twins_frame_def using worked_on_refl by blast
qed

lemma twins_frame_trans:
  assumes "twins_frame T s s'" and "twins_frame U s' s''"
  shows "twins_frame (T \<union> U) s s''"
proof -
  from assms obtain ta ea ta' ea' where "s' = s\<lparr>twin_at := ta, emg_at := ea\<rparr>" "s'' = s'\<lparr>twin_at := ta', emg_at := ea'\<rparr>"
    unfolding twins_frame_def by blast
  then have "s'' = s\<lparr>twin_at := ta', emg_at := ea'\<rparr>" by simp
  then have "\<exists>ta ea. s'' = s\<lparr>twin_at := ta, emg_at := ea\<rparr>" by blast
  moreover have "\<forall>e. worked_on (emg_at s e) (emg_at s'' e)"
    using assms worked_on_trans unfolding twins_frame_def by blast
  ultimately show ?thesis using assms unfolding twins_frame_def by auto
qed

lemma twins_frameD:
  assumes "twins_frame T s s'"
  shows "known s' = known s" "in_map s' = in_map s" "emg_brk s' = emg_brk s" "rescuer_types s' = rescuer_types s"
    "env_width s' = env_width s" "env_height s' = env_height s" "rescuer_types_count s' = rescuer_types_count s"
    "emg_x (emg_at s' e) = emg_x (emg_at s e)" "emg_y (emg_at s' e) = emg_y (emg_at s e)"
proof -
  from assms obtain ta ea where "s' = s\<lparr>twin_at := ta, emg_at := ea\<rparr>" unfolding twins_frame_def by blast
  then show "known s' = known s" "in_map s' = in_map s" "emg_brk s' = emg_brk s" "rescuer_types s' = rescuer_types s"
    "env_width s' = env_width s" "env_height s' = env_height s" "rescuer_types_count s' = rescuer_types_count s"
    by (simp_all add: known_def in_map_def fun_eq_iff)
  have "worked_on (emg_at s e) (emg_at s' e)" using assms unfolding twins_frame_def by blast
  then show "emg_x (emg_at s' e) = emg_x (emg_at s e)" "emg_y (emg_at s' e) = emg_y (emg_at s e)"
    by (rule worked_onD)+
qed

lemma on_course_frame:
  assumes "twins_frame T s s'"
  shows "on_course s' = on_course s" "ticked s' = ticked s"
proof -
  note f = twins_frameD [OF assms]
  show "on_course s' = on_course s" by (intro ext) (simp only: on_course_def f)
  have "scene_step s' = scene_step s" by (intro ext) (simp only: scene_step_def f)
  then show "ticked s' = ticked s" by (intro ext) (simp only: ticked_def)
qed

lemma courses_inv_frame:
  assumes "twins_frame T s s'" and "courses_inv s"
    and "\<And>t. t \<in> T \<Longrightarrow> known s t \<Longrightarrow> on_course s (twin_at s' t)"
  shows "courses_inv s'"
proof -
  have "twin_at s' t = twin_at s t" if "t \<notin> T" for t using assms(1) that by (simp add: twins_frame_def)
  then show ?thesis
    using assms(2,3) unfolding courses_inv_def on_course_frame(1) [OF assms(1)] twins_frameD [OF assms(1)] by metis
qed

lemma twins_frame_set_twin: "twins_frame {t} s (set_twin t v s)"
proof -
  have "set_twin t v s = s\<lparr>twin_at := (twin_at s)(t := v), emg_at := emg_at s\<rparr>" by (simp add: set_twin_def)
  then have "\<exists>ta ea. set_twin t v s = s\<lparr>twin_at := ta, emg_at := ea\<rparr>" by blast
  then show ?thesis unfolding twins_frame_def by simp
qed

lemma twins_frame_set_emg: "worked_on (emg_at s e) em \<Longrightarrow> twins_frame {} s (set_emg e em s)"
proof -
  assume w: "worked_on (emg_at s e) em"
  have "set_emg e em s = s\<lparr>twin_at := twin_at s, emg_at := (emg_at s)(e := em)\<rparr>" by (simp add: set_emg_def)
  then have "\<exists>ta ea. set_emg e em s = s\<lparr>twin_at := ta, emg_at := ea\<rparr>" by blast
  then show ?thesis using w unfolding twins_frame_def by simp
qed

lemma twin_base_in_map:
  "on_course s v \<Longrightarrow> in_map s (twin_x v) (twin_y v) \<and> in_map s (base_x (rescuer v)) (base_y (rescuer v))"
  by (simp add: on_course_def)

text \<open>A twin that is on its way walks.\<close>

lemma walk_tick:
  assumes inv: "server_inv s" and crs: "courses_inv s" and t: "known s t"
    and st: "twin_status (twin_at s t) = EN_ROUTE_TO_SCENE \<or> twin_status (twin_at s t) = RETURNING_TO_BASE"
  shows "\<exists>s'. walk_twin t MIN_X_COORDINATE MIN_Y_COORDINATE (env_height s) (env_width s) s = Inr (True, s')
    \<and> server_inv s' \<and> courses_inv s' \<and> ticked s (twin_at s t) (twin_at s' t) \<and> twins_frame {t} s s'"
proof -
  let ?v = "twin_at s t"
  have l: "links_inv s {} (\<lambda>e. missing (emg_at s e))" using inv by (simp add: server_inv_def)
  note i = links_invD [OF l]
  have ok: "twin_ok s t" by (rule known_type(4) [OF i(1) t])
  have oc: "on_course s ?v" using crs t by (simp add: courses_inv_def)
  note m = twin_base_in_map [OF oc]
  show ?thesis
  proof (cases "twin_status ?v = EN_ROUTE_TO_SCENE")
    case True
    then obtain e where e: "emergency ?v = Some e" using ok by (auto simp: twin_ok_def)
    let ?x = "emg_x (emg_at s e)" and ?y = "emg_y (emg_at s e)"
    have b: "bound_for ?v ?x ?y" using oc True e by (simp add: on_course_def)
    have eb: "e < emg_brk s" using i(5) [OF t _ e] by simp
    then have em: "in_map s ?x ?y" using crs by (simp add: courses_inv_def)
    obtain w where w: "stepped s ?x ?y ?v w"
      "walk_twin t MIN_X_COORDINATE MIN_Y_COORDINATE (env_height s) (env_width s) s
        = Inr (True, if way w ?x ?y = 0 then arrive t w s else set_twin t w s)"
      using walk_twin_correct [OF b twin_okD(1) [OF ok] _ em] m True e by auto
    note sw = w(1) [unfolded stepped_def]
    have tw: "trajectory w \<noteq> None" using sw by (auto simp: bound_for_def)
    show ?thesis
    proof (cases "way w ?x ?y = 0")
      case far: False
      have "server_inv (set_twin t w s)"
        using links_inv_same_twin [OF l t, of w] sw tw by (simp add: server_inv_def)
      moreover have "courses_inv (set_twin t w s)"
        using sw True e m by (intro courses_inv_frame [OF twins_frame_set_twin crs]) (auto simp: on_course_def)
      moreover have "ticked s ?v w" using sw True e far by (simp add: ticked_def scene_step_def)
      ultimately show ?thesis using w(2) far twins_frame_set_twin by auto
    next
      case near: True
      define w' where "w' = w\<lparr>time_left_before_leaving := twin_time_to_manage w, twin_status := ON_SCENE\<rparr>"
      define em' where "em' = (emg_at s e)\<lparr>rescuers_not_arrived_yet := rescuers_not_arrived_yet (emg_at s e) - 1\<rparr>"
      have ar: "arrive t w s = set_emg e em' (set_twin t w' s)"
        using sw True e by (simp add: arrive_def w'_def em'_def)
      have wo: "worked_on (emg_at s e) em'"
        unfolding worked_on_def em'_def
        by (intro exI [of _ "rescuer_twins (emg_at s e)"] exI [of _ "rescuers_not_arrived_yet (emg_at s e) - 1"]
            exI [of _ "rescuers_not_done_yet (emg_at s e)"]) simp
      have fr: "twins_frame {t} s (arrive t w s)"
        using twins_frame_trans [OF twins_frame_set_twin twins_frame_set_emg] wo unfolding ar by simp
      have "links_inv (arrive t w s) {} (\<lambda>e. missing (emg_at s e))"
        unfolding ar em'_def by (rule links_inv_arrival [OF l t e True]) (use sw e tw in \<open>simp_all add: w'_def\<close>)
      moreover have "missing (emg_at (arrive t w s) x) = missing (emg_at s x)" for x
        using fr worked_onD(8) unfolding twins_frame_def by blast
      ultimately have "server_inv (arrive t w s)" by (rule server_inv_links)
      moreover have at: "twin_at (arrive t w s) t = w'" by (simp add: ar)
      moreover have "on_course s w'" using sw m near by (simp add: on_course_def w'_def bound_for_def way_0)
      then have "courses_inv (arrive t w s)" using at by (intro courses_inv_frame [OF fr crs]) simp
      moreover have "ticked s ?v w'" using sw True e near by (simp add: ticked_def scene_step_def w'_def way_def)
      ultimately show ?thesis using w(2) near fr by auto
    qed
  next
    case False
    then have ret: "twin_status ?v = RETURNING_TO_BASE" using st by simp
    then have e: "emergency ?v = None" using ok by (auto simp: twin_ok_def)
    let ?x = "base_x (rescuer ?v)" and ?y = "base_y (rescuer ?v)"
    have b: "bound_for ?v ?x ?y" using oc ret by (simp add: on_course_def)
    obtain w where w: "stepped s ?x ?y ?v w"
      "walk_twin t MIN_X_COORDINATE MIN_Y_COORDINATE (env_height s) (env_width s) s
        = Inr (True, if way w ?x ?y = 0 then arrive t w s else set_twin t w s)"
      using walk_twin_correct [OF b twin_okD(1) [OF ok]] m ret by auto
    note sw = w(1) [unfolded stepped_def]
    have tw: "trajectory w \<noteq> None" using sw by (auto simp: bound_for_def)
    define w' where "w' = (if way w ?x ?y = 0 then w\<lparr>twin_status := IDLE\<rparr> else w)"
    have run: "walk_twin t MIN_X_COORDINATE MIN_Y_COORDINATE (env_height s) (env_width s) s = Inr (True, set_twin t w' s)"
      using w(2) sw ret by (simp add: w'_def arrive_def)
    have f: "twin_id w' = twin_id ?v" "rescuer w' = rescuer ?v" "emergency w' = None" "trajectory w' \<noteq> None"
      "is_a_candidate w' = is_a_candidate ?v" "twin_status w' = (if way w ?x ?y = 0 then IDLE else RETURNING_TO_BASE)"
      "way w' ?x ?y = way w ?x ?y" "twin_x w' = twin_x w" "twin_y w' = twin_y w" "trajectory w' = trajectory w"
      using sw tw e ret by (auto simp: w'_def way_def)
    have "server_inv (set_twin t w' s)"
      using links_inv_off_duty [OF l t e, of w'] f by (simp add: server_inv_def)
    moreover have "on_course s w'"
    proof (cases "way w ?x ?y = 0")
      case True
      then have "twin_x w = ?x" "twin_y w = ?y" by (simp_all add: way_0)
      then show ?thesis using f sw m True by (simp add: on_course_def)
    next
      case False
      then have "twin_status w' = RETURNING_TO_BASE" using f(6) by (simp only: if_False)
      moreover have "bound_for w' ?x ?y" using sw f(8-10) by (simp add: bound_for_def)
      ultimately show ?thesis using f(2,8,9) sw m by (simp add: on_course_def)
    qed
    then have "courses_inv (set_twin t w' s)"
      by (intro courses_inv_frame [OF twins_frame_set_twin crs]) simp
    moreover have "ticked s ?v w'" using f sw ret by (simp add: ticked_def home_step_def)
    ultimately show ?thesis using run twins_frame_set_twin by auto
  qed
qed

lemma tick_twin:
  assumes inv: "server_inv s" and crs: "courses_inv s" and t: "known s t"
  shows "\<exists>b s'. update_rescuer_digital_twin_state (Some t) MIN_X_COORDINATE MIN_Y_COORDINATE
      (env_height s) (env_width s) s = Inr (b, s')
    \<and> server_inv s' \<and> courses_inv s' \<and> ticked s (twin_at s t) (twin_at s' t) \<and> twins_frame {t} s s'"
proof -
  let ?v = "twin_at s t" and ?u = "update_rescuer_digital_twin_state (Some t) MIN_X_COORDINATE MIN_Y_COORDINATE
      (env_height s) (env_width s)"
  have l: "links_inv s {} (\<lambda>e. missing (emg_at s e))" using inv by (simp add: server_inv_def)
  have tr: "trajectory ?v \<noteq> None" by (rule twin_okD(2) [OF known_type(4) [OF links_invD(1) [OF l] t]])
  have oc: "on_course s ?v" using crs t by (simp add: courses_inv_def)
  consider "twin_status ?v = IDLE" | "twin_status ?v = ON_SCENE"
    | "twin_status ?v = EN_ROUTE_TO_SCENE \<or> twin_status ?v = RETURNING_TO_BASE"
    using rescuer_status.exhaust [of "twin_status ?v"] by blast
  then show ?thesis
  proof cases
    case 1
    then have "?u s = Inr (False, s)" by (simp add: update_rescuer_digital_twin_state_def)
    moreover have "ticked s ?v ?v" using 1 by (simp add: ticked_def)
    ultimately show ?thesis using inv crs by auto
  next
    case 2
    define v1 where "v1 = ?v\<lparr>time_left_before_leaving := time_left_before_leaving ?v - 1\<rparr>"
    let ?s1 = "set_twin t v1 s"
    have v1: "twin_id v1 = twin_id ?v" "rescuer v1 = rescuer ?v" "twin_status v1 = ON_SCENE" "emergency v1 = emergency ?v"
      "trajectory v1 = trajectory ?v" "twin_x v1 = twin_x ?v" "twin_y v1 = twin_y ?v" "is_a_candidate v1 = is_a_candidate ?v"
      using 2 by (simp_all add: v1_def)
    have "links_inv ?s1 {} (\<lambda>e. missing (emg_at s e))"
      by (rule links_inv_same_twin [OF l t]) (use v1 tr 2 in simp_all)
    then have inv1: "server_inv ?s1" by (simp add: server_inv_def)
    have oc1: "on_course s v1" using oc 2 v1 by (simp add: on_course_def bound_for_def)
    have crs1: "courses_inv ?s1" using oc1 by (intro courses_inv_frame [OF twins_frame_set_twin crs]) simp
    show ?thesis
    proof (cases "1 < time_left_before_leaving ?v")
      case True
      have "?u s = Inr (False, ?s1)"
        using 2 True by (simp add: update_rescuer_digital_twin_state_def v1_def Let_def)
      moreover have "ticked s ?v v1" using 2 True by (simp add: ticked_def v1_def)
      ultimately show ?thesis using inv1 crs1 twins_frame_set_twin by auto
    next
      case False
      have b1: "bound_for (twin_at ?s1 t) (twin_x (twin_at ?s1 t)) (twin_y (twin_at ?s1 t))"
        using oc1 v1(3) by (simp add: on_course_def)
      have "known ?s1 t" "twin_status (twin_at ?s1 t) = ON_SCENE" using t v1(3) by simp_all
      from leave_scene_correct [OF inv1 this b1] obtain e j v where lv:
        "leave_scene t ?s1 = Inr (set_twin t v (set_emg e ((emg_at ?s1 e)\<lparr>
           rescuers_not_done_yet := rescuers_not_done_yet (emg_at ?s1 e) - 1,
           rescuer_twins := (rescuer_twins (emg_at ?s1 e))[j := None]\<rparr>) ?s1))"
        "server_inv (set_twin t v (set_emg e ((emg_at ?s1 e)\<lparr>
           rescuers_not_done_yet := rescuers_not_done_yet (emg_at ?s1 e) - 1,
           rescuer_twins := (rescuer_twins (emg_at ?s1 e))[j := None]\<rparr>) ?s1))"
        "twin_status v = RETURNING_TO_BASE" "bound_for v (base_x (rescuer v)) (base_y (rescuer v))"
        "twin_id v = twin_id (twin_at ?s1 t)" "rescuer v = rescuer (twin_at ?s1 t)"
        "is_a_candidate v = is_a_candidate (twin_at ?s1 t)" "emergency v = None"
        "twin_x v = twin_x (twin_at ?s1 t)" "twin_y v = twin_y (twin_at ?s1 t)"
        by blast
      define em where "em = (emg_at ?s1 e)\<lparr>rescuers_not_done_yet := rescuers_not_done_yet (emg_at ?s1 e) - 1,
           rescuer_twins := (rescuer_twins (emg_at ?s1 e))[j := None]\<rparr>"
      define s2 where "s2 = set_twin t v (set_emg e em ?s1)"
      have wo: "worked_on (emg_at ?s1 e) em"
        unfolding worked_on_def em_def
        by (intro exI [of _ "(rescuer_twins (emg_at ?s1 e))[j := None]"] exI [of _ "rescuers_not_arrived_yet (emg_at ?s1 e)"]
            exI [of _ "rescuers_not_done_yet (emg_at ?s1 e) - 1"]) simp
      have fr: "twins_frame {t} s s2"
        using twins_frame_trans [OF twins_frame_trans [OF twins_frame_set_twin twins_frame_set_emg [OF wo]]
            twins_frame_set_twin [of t _ v]]
        unfolding s2_def by simp
      have lv1: "leave_scene t ?s1 = Inr s2" "server_inv s2" using lv(1,2) by (simp_all add: s2_def em_def)
      have at: "twin_at s2 t = v" by (simp add: s2_def)
      have "on_course s v" using lv(3-10) oc1 v1 twin_base_in_map [OF oc] by (simp add: on_course_def)
      then have crs2: "courses_inv s2" using at by (intro courses_inv_frame [OF fr crs]) simp
      note D = twins_frameD [OF fr]
      have "known s2 t" using t D by simp
      from walk_tick [OF lv1(2) crs2 this] obtain s' where s':
        "walk_twin t MIN_X_COORDINATE MIN_Y_COORDINATE (env_height s) (env_width s) s2 = Inr (True, s')"
        "server_inv s'" "courses_inv s'" "ticked s2 v (twin_at s' t)" "twins_frame {t} s2 s'"
        unfolding at D using lv(3) by blast
      have "?u s = Inr (True, s')"
        using 2 False lv1(1) s'(1) by (simp add: update_rescuer_digital_twin_state_def v1_def Let_def)
      moreover have "ticked s ?v (twin_at s' t)"
        using s'(4) 2 False lv(3-10) v1 unfolding on_course_frame(2) [OF fr]
        by (simp add: ticked_def home_step_def way_def)
      ultimately show ?thesis using s'(2,3) twins_frame_trans [OF fr s'(5)] by auto
    qed
  next
    case 3
    then have "?u s = walk_twin t MIN_X_COORDINATE MIN_Y_COORDINATE (env_height s) (env_width s) s"
      by (auto simp: update_rescuer_digital_twin_state_def)
    then show ?thesis using walk_tick [OF inv crs t 3] by auto
  qed
qed

section \<open>The pass over all twins\<close>

text \<open>A list of different twins: each of them ticks once.\<close>

definition all_ticked :: "twin_ptr list \<Rightarrow> server \<Rightarrow> server \<Rightarrow> bool" where
  "all_ticked ts s s' \<longleftrightarrow> server_inv s' \<and> courses_inv s' \<and> twins_frame (set ts) s s'
     \<and> (\<forall>t \<in> set ts. ticked s (twin_at s t) (twin_at s' t))"

lemma tick_list:
  assumes "server_inv s" and "courses_inv s" and "\<And>t. t \<in> set ts \<Longrightarrow> known s t" and "distinct ts"
  shows "\<exists>s'. rfold (\<lambda>t s. rbind (update_rescuer_digital_twin_state (Some t) MIN_X_COORDINATE MIN_Y_COORDINATE
      (env_height s) (env_width s) s) (\<lambda>(_, s'). Inr s')) ts s = Inr s' \<and> all_ticked ts s s'"
  using assms
proof (induction ts arbitrary: s)
  case Nil
  then show ?case by (simp add: all_ticked_def)
next
  case (Cons t ts)
  have "known s t" using Cons.prems by simp
  from tick_twin [OF Cons.prems(1,2) this] obtain b s1 where s1:
    "update_rescuer_digital_twin_state (Some t) MIN_X_COORDINATE MIN_Y_COORDINATE (env_height s) (env_width s) s = Inr (b, s1)"
    "server_inv s1" "courses_inv s1" "ticked s (twin_at s t) (twin_at s1 t)" "twins_frame {t} s s1"
    by blast
  have "\<And>u. u \<in> set ts \<Longrightarrow> known s1 u" using Cons.prems(3) twins_frameD(1) [OF s1(5)] by simp
  moreover have "distinct ts" using Cons.prems(4) by simp
  ultimately obtain s' where s': "rfold (\<lambda>t s. rbind (update_rescuer_digital_twin_state (Some t) MIN_X_COORDINATE
      MIN_Y_COORDINATE (env_height s) (env_width s) s) (\<lambda>(_, s'). Inr s')) ts s1 = Inr s'"
    "server_inv s'" "courses_inv s'" "twins_frame (set ts) s1 s'" "\<forall>u \<in> set ts. ticked s1 (twin_at s1 u) (twin_at s' u)"
    using Cons.IH [OF s1(2,3)] unfolding all_ticked_def by blast
  have "twins_frame (set (t # ts)) s s'" using twins_frame_trans [OF s1(5) s'(4)] by simp
  moreover have "ticked s (twin_at s u) (twin_at s' u)" if "u \<in> set (t # ts)" for u
  proof (cases "u = t")
    case True
    then have "twin_at s' u = twin_at s1 u" using Cons.prems(4) s'(4) by (simp add: twins_frame_def)
    then show ?thesis using True s1(4) by simp
  next
    case False
    then have "twin_at s1 u = twin_at s u" "u \<in> set ts" using that s1(5) by (simp_all add: twins_frame_def)
    then show ?thesis using s'(5) unfolding on_course_frame(2) [OF s1(5)] by metis
  qed
  moreover have "rfold (\<lambda>t s. rbind (update_rescuer_digital_twin_state (Some t) MIN_X_COORDINATE
      MIN_Y_COORDINATE (env_height s) (env_width s) s) (\<lambda>(_, s'). Inr s')) (t # ts) s = Inr s'"
    using s1(1) s'(1) by simp
  ultimately show ?case using s'(2,3) unfolding all_ticked_def by blast
qed

lemma all_ticked_append:
  assumes "all_ticked ts s s1" and "all_ticked us s1 s'" and "set ts \<inter> set us = {}"
  shows "all_ticked (ts @ us) s s'"
proof -
  have fr: "twins_frame (set ts) s s1" "twins_frame (set us) s1 s'" using assms unfolding all_ticked_def by blast+
  have "ticked s (twin_at s u) (twin_at s' u)" if "u \<in> set ts" for u
  proof -
    have "twin_at s' u = twin_at s1 u" using that assms(3) fr(2) unfolding twins_frame_def by blast
    then show ?thesis using that assms(1) unfolding all_ticked_def by simp
  qed
  moreover have "ticked s (twin_at s u) (twin_at s' u)" if "u \<in> set us" for u
  proof -
    have "twin_at s1 u = twin_at s u" using that assms(3) fr(1) unfolding twins_frame_def by blast
    then show ?thesis using that assms(2) on_course_frame(2) [OF fr(1)] unfolding all_ticked_def by metis
  qed
  ultimately show ?thesis
    using assms(1,2) twins_frame_trans [OF fr] unfolding all_ticked_def by auto
qed

definition cell_twins :: "rescuer_type option \<Rightarrow> twin_ptr list" where
  "cell_twins c = (case c of None \<Rightarrow> [] | Some r \<Rightarrow> type_twins r)"

lemma cell_twins_simps [simp]: "cell_twins None = []" "cell_twins (Some r) = type_twins r"
  by (simp_all add: cell_twins_def)

definition fleet :: "server \<Rightarrow> twin_ptr list" where
  "fleet s = concat (map cell_twins (take (nat (rescuer_types_count s)) (rescuer_types s)))"

lemma fleet_known: "t \<in> set (concat (map cell_twins (take n (rescuer_types s)))) \<Longrightarrow> known s t"
  by (auto simp: cell_twins_def known_def dest!: in_set_takeD split: option.splits)

lemma cells_distinct:
  assumes "types_inv s" and "distinct (filter (\<lambda>c. c \<noteq> None) cs)" and "set cs \<subseteq> set (rescuer_types s)"
  shows "distinct (concat (map cell_twins cs))"
  using assms(2,3)
proof (induction cs)
  case (Cons c cs)
  show ?case
  proof (cases c)
    case None
    then show ?thesis using Cons by (simp add: cell_twins_def)
  next
    case (Some r)
    have ok: "type_ok s r'" if "Some r' \<in> set (c # cs)" for r' using that Cons.prems(2) assms(1) by (auto simp: types_inv_def)
    have "t \<notin> set (cell_twins c')" if "t \<in> set (type_twins r)" "c' \<in> set cs" for t c'
    proof
      assume "t \<in> set (cell_twins c')"
      then obtain r' where "c' = Some r'" "t \<in> set (type_twins r')" by (auto simp: cell_twins_def split: option.splits)
      then have "r' = r" using that ok [of r] ok [of r'] Some by (auto simp: type_ok_def)
      then show False using \<open>c' = Some r'\<close> that(2) Cons.prems(1) Some by simp
    qed
    moreover have "distinct (type_twins r)" using ok [of r] Some by (simp add: type_ok_def)
    moreover have "distinct (concat (map cell_twins cs))" using Cons Some by simp
    ultimately show ?thesis using Some by auto
  qed
qed simp

lemma update_type_ticks:
  assumes "server_inv s" and "courses_inv s" and "Some r \<in> set (rescuer_types s)"
  shows "\<exists>s'. update_type (Some r) s = Inr s' \<and> all_ticked (type_twins r) s s'"
proof -
  have ok: "type_ok s r" using assms(1,3) by (simp add: server_inv_def links_inv_def types_inv_def)
  have "t \<in> set (type_twins r) \<Longrightarrow> known s t" for t using assms(3) by (auto simp: known_def)
  moreover have "distinct (type_twins r)" using ok by (simp add: type_ok_def)
  ultimately obtain s' where "rfold (\<lambda>t s. rbind (update_rescuer_digital_twin_state (Some t) MIN_X_COORDINATE
      MIN_Y_COORDINATE (env_height s) (env_width s) s) (\<lambda>(_, s'). Inr s')) (type_twins r) s = Inr s'"
    "all_ticked (type_twins r) s s'"
    using tick_list [OF assms(1,2)] by blast
  then show ?thesis
    using rfold_arr [OF type_ok_cells [OF ok], where f = "\<lambda>tp s. rbind (update_rescuer_digital_twin_state tp
      MIN_X_COORDINATE MIN_Y_COORDINATE (env_height s) (env_width s) s) (\<lambda>(_, s'). Inr s')"]
    by (simp add: update_type_def)
qed

lemma update_types_tick:
  assumes inv: "server_inv s" "courses_inv s" and n: "n \<le> length (rescuer_types s)"
    and dist: "distinct (filter (\<lambda>c. c \<noteq> None) (take n (rescuer_types s)))"
  shows "\<exists>s'. rfold (\<lambda>i s. rbind (arr_get (rescuer_types s) (int i)) (\<lambda>rp. update_type rp s)) [0..<n] s = Inr s'
    \<and> all_ticked (concat (map cell_twins (take n (rescuer_types s)))) s s'"
  using n dist
proof (induction n)
  case 0
  then show ?case using inv by (simp add: all_ticked_def)
next
  case (Suc n)
  have tk: "take (Suc n) (rescuer_types s) = take n (rescuer_types s) @ [rescuer_types s ! n]"
    using Suc.prems(1) by (simp add: take_Suc_conv_app_nth)
  have d: "distinct (filter (\<lambda>c. c \<noteq> None) (take n (rescuer_types s)))" using Suc.prems(2) unfolding tk by simp
  from Suc.IH [OF _ d] Suc.prems(1) obtain s1 where s1:
    "rfold (\<lambda>i s. rbind (arr_get (rescuer_types s) (int i)) (\<lambda>rp. update_type rp s)) [0..<n] s = Inr s1"
    "all_ticked (concat (map cell_twins (take n (rescuer_types s)))) s s1" by auto
  have fr: "rescuer_types s1 = rescuer_types s" using s1(2) twins_frameD(4) unfolding all_ticked_def by blast
  have inv1: "server_inv s1" "courses_inv s1" using s1(2) unfolding all_ticked_def by blast+
  have c: "arr_get (rescuer_types s1) (int n) = Inr (rescuer_types s ! n)" using Suc.prems(1) fr by simp
  obtain s' where s': "update_type (rescuer_types s ! n) s1 = Inr s'" "all_ticked (cell_twins (rescuer_types s ! n)) s1 s'"
  proof (cases "rescuer_types s ! n")
    case None
    then show ?thesis using that [of s1] inv1 by (simp add: update_type_def cell_twins_def all_ticked_def)
  next
    case (Some r)
    have "rescuer_types s ! n \<in> set (rescuer_types s)" using Suc.prems(1) by simp
    then have "Some r \<in> set (rescuer_types s1)" using Some fr by simp
    from update_type_ticks [OF inv1 this] show ?thesis using that Some by (auto simp: cell_twins_def)
  qed
  have "types_inv s" using inv(1) by (simp add: server_inv_def links_inv_def)
  from cells_distinct [OF this Suc.prems(2) set_take_subset]
  have "set (concat (map cell_twins (take n (rescuer_types s)))) \<inter> set (cell_twins (rescuer_types s ! n)) = {}"
    unfolding tk by auto
  from all_ticked_append [OF s1(2) s'(2) this]
  have "all_ticked (concat (map cell_twins (take (Suc n) (rescuer_types s)))) s s'" unfolding tk by simp
  moreover have "rfold (\<lambda>i s. rbind (arr_get (rescuer_types s) (int i)) (\<lambda>rp. update_type rp s)) [0..<Suc n] s = Inr s'"
    using s1(1) s'(1) c by (simp add: rfold_append)
  ultimately show ?case by blast
qed

lemma update_rescuers_tick:
  assumes "server_inv s" and "courses_inv s" and "rescuer_types_count s \<le> int (length (rescuer_types s))"
    and "distinct (filter (\<lambda>c. c \<noteq> None) (take (nat (rescuer_types_count s)) (rescuer_types s)))"
  shows "\<exists>s'. update_rescuers_states s = Inr s' \<and> all_ticked (fleet s) s s'"
proof -
  have "nat (rescuer_types_count s) \<le> length (rescuer_types s)" using assms(3) by simp
  from update_types_tick [OF assms(1,2) this assms(4)] show ?thesis
    unfolding update_rescuers_states_def fleet_def .
qed

text \<open>
  C15. The updater's pass over the rescuers. On a consistent state in which every rescuer that is
  under way has a course from where it stands to where it is bound, inside the map, the pass ends
  without a memory error and without a shutdown request, keeps the state consistent and the
  courses usable, and does to each rescuer what its status says, once: an idle one stays, one on
  its way comes nearer by its speed and is on the scene, for the time the request tells, or idle
  at its base, when nothing is left of the way; one on the scene works one tick less, and when its
  time is over it leaves the emergency and makes its first step home. Nothing else changes but
  the slots and the counters of emergencies, which never grow.
\<close>

theorem update_rescuers_correct:
  assumes "server_inv s" and "courses_inv s" and "rescuer_types_count s \<le> int (length (rescuer_types s))"
    and "distinct (filter (\<lambda>c. c \<noteq> None) (take (nat (rescuer_types_count s)) (rescuer_types s)))"
  shows "\<exists>s'. update_rescuers_states s = Inr s' \<and> server_inv s' \<and> courses_inv s'
    \<and> (\<forall>t \<in> set (fleet s). ticked s (twin_at s t) (twin_at s' t))
    \<and> twins_frame (set (fleet s)) s s'"
  using update_rescuers_tick [OF assms] unfolding all_ticked_def by blast

section \<open>Everybody gets home\<close>

text \<open>A bound on the ticks until a twin is idle again when nobody sends it anywhere else.\<close>

definition rest :: "server \<Rightarrow> rescuer_digital_twin \<Rightarrow> nat" where
  "rest s v = (let bx = base_x (rescuer v); by = base_y (rescuer v) in
     case twin_status v of
       IDLE \<Rightarrow> 0
     | RETURNING_TO_BASE \<Rightarrow> nat (way v bx by) + 1
     | ON_SCENE \<Rightarrow> nat (max 1 (time_left_before_leaving v)) + nat (way v bx by) + 1
     | EN_ROUTE_TO_SCENE \<Rightarrow> (let em = emg_at s (the (emergency v)) in
         nat (way v (emg_x em) (emg_y em)) + 1 + nat (max 1 (twin_time_to_manage v))
         + nat (MANHATTAN (emg_x em) (emg_y em) bx by) + 1))"

lemma rest_home_step:
  assumes "home_step v w" and "0 < speed (rescuer v)" and "rescuer w = rescuer v"
  shows "rest s w \<le> nat (way v (base_x (rescuer v)) (base_y (rescuer v)))"
  using assms by (auto simp: rest_def home_step_def Let_def)

lemma rest_decreases:
  assumes "ticked s v w" and "0 < speed (rescuer v)"
  shows "rest s w \<le> rest s v - 1"
proof (cases "twin_status v")
  case IDLE
  then show ?thesis using assms(1) by (simp add: ticked_def rest_def)
next
  case RETURNING_TO_BASE
  then have "rest s w \<le> nat (way v (base_x (rescuer v)) (base_y (rescuer v)))"
    using assms by (intro rest_home_step) (simp_all add: ticked_def)
  then show ?thesis using RETURNING_TO_BASE by (simp add: rest_def Let_def)
next
  case ON_SCENE
  show ?thesis
  proof (cases "1 < time_left_before_leaving v")
    case True
    then have "w = v\<lparr>time_left_before_leaving := time_left_before_leaving v - 1\<rparr>"
      using assms(1) ON_SCENE by (simp add: ticked_def)
    then show ?thesis using ON_SCENE True by (simp add: rest_def Let_def way_def)
  next
    case False
    then have "rest s w \<le> nat (way v (base_x (rescuer v)) (base_y (rescuer v)))"
      using assms ON_SCENE by (intro rest_home_step) (simp_all add: ticked_def)
    then show ?thesis using ON_SCENE False by (simp add: rest_def Let_def)
  qed
next
  case EN_ROUTE_TO_SCENE
  then obtain e where e: "emergency v = Some e" "scene_step s e v w" "rescuer w = rescuer v"
    using assms(1) by (auto simp: ticked_def)
  let ?x = "emg_x (emg_at s e)" and ?y = "emg_y (emg_at s e)"
  show ?thesis
  proof (cases "way w ?x ?y = 0")
    case True
    then have "twin_x w = ?x" "twin_y w = ?y" by (simp_all add: way_0)
    then show ?thesis using e EN_ROUTE_TO_SCENE True by (simp add: rest_def Let_def scene_step_def way_def)
  next
    case False
    then have "way w ?x ?y = way v ?x ?y - speed (rescuer v)" "0 < way w ?x ?y"
      using e(2) by (auto simp: scene_step_def Let_def max_def split: if_splits)
    then show ?thesis using e EN_ROUTE_TO_SCENE False assms(2) by (simp add: rest_def Let_def scene_step_def)
  qed
qed

fun passes :: "nat \<Rightarrow> server \<Rightarrow> server res" where
  "passes 0 s = Inr s"
| "passes (Suc n) s = rbind (update_rescuers_states s) (passes n)"

lemma rest_frame: "twins_frame T s s' \<Longrightarrow> rest s' = rest s"
  by (intro ext) (simp add: rest_def Let_def twins_frameD(8,9) cong: rescuer_status.case_cong)

text \<open>
  C16. If nobody is sent anywhere, every rescuer is idle at its base again after as many passes as
  its way to the scene, the time to manage and its way home add up to, however it was under way.
\<close>

theorem all_rescuers_return:
  assumes "server_inv s" and "courses_inv s" and "rescuer_types_count s \<le> int (length (rescuer_types s))"
    and "distinct (filter (\<lambda>c. c \<noteq> None) (take (nat (rescuer_types_count s)) (rescuer_types s)))"
    and "\<forall>t \<in> set (fleet s). rest s (twin_at s t) \<le> n"
  shows "\<exists>s'. passes n s = Inr s' \<and> (\<forall>t \<in> set (fleet s). twin_status (twin_at s' t) = IDLE
    \<and> twin_x (twin_at s' t) = base_x (rescuer (twin_at s' t)) \<and> twin_y (twin_at s' t) = base_y (rescuer (twin_at s' t)))"
  using assms
proof (induction n arbitrary: s)
  case 0
  have "twin_status (twin_at s t) = IDLE" "on_course s (twin_at s t)" if "t \<in> set (fleet s)" for t
  proof -
    show "twin_status (twin_at s t) = IDLE"
      using 0 that by (cases "twin_status (twin_at s t)") (auto simp: rest_def Let_def)
    show "on_course s (twin_at s t)" using 0 that fleet_known unfolding courses_inv_def fleet_def by blast
  qed
  then show ?case by (simp add: on_course_def)
next
  case (Suc n)
  from update_rescuers_tick [OF Suc.prems(1-4)] obtain s1 where s1: "update_rescuers_states s = Inr s1"
    "server_inv s1" "courses_inv s1" "\<forall>t \<in> set (fleet s). ticked s (twin_at s t) (twin_at s1 t)"
    "twins_frame (set (fleet s)) s s1" unfolding all_ticked_def by blast
  note D = twins_frameD [OF s1(5)]
  have fl: "fleet s1 = fleet s" by (simp add: fleet_def D)
  have "rest s1 (twin_at s1 t) \<le> n" if "t \<in> set (fleet s)" for t
  proof -
    have "known s t" using that fleet_known unfolding fleet_def by blast
    moreover have "types_inv s" using Suc.prems(1) by (simp add: server_inv_def links_inv_def)
    ultimately have "0 < speed (rescuer (twin_at s t))" using known_type(4) twin_okD(1) by blast
    then have "rest s (twin_at s1 t) \<le> rest s (twin_at s t) - 1" using s1(4) that by (intro rest_decreases) blast
    then show ?thesis using Suc.prems(5) that unfolding rest_frame [OF s1(5)] by fastforce
  qed
  then show ?case using Suc.IH [OF s1(2,3)] Suc.prems(3,4) s1(1) unfolding D fl by simp
qed

section \<open>Courses and dispatch\<close>

lemma bound_for_change:
  assumes "trajectory v = Some c" and "trajectory v' = change_bresenham_trajectory (trajectory v) (twin_x v) (twin_y v) x y"
    and "twin_x v' = twin_x v" "twin_y v' = twin_y v"
  shows "bound_for v' x y"
proof -
  obtain d where d: "change_bresenham_trajectory (Some c) (twin_x v) (twin_y v) x y = Some (Some d)"
    using change_bresenham_trajectory_Some by blast
  show ?thesis using change_bresenham_trajectory_on [OF d] assms d by (simp add: bound_for_def valid_course_def)
qed

text \<open>
  A twin may be sent to a cell it stands on; then its course stays as it is, and this must be a
  course to that very cell.
\<close>

definition ready_for :: "server \<Rightarrow> emg_ptr \<Rightarrow> bool" where
  "ready_for s e \<longleftrightarrow> (\<forall>t. known s t \<longrightarrow> eligible s e t \<longrightarrow>
     way (twin_at s t) (emg_x (emg_at s e)) (emg_y (emg_at s e)) = 0 \<longrightarrow>
     bound_for (twin_at s t) (emg_x (emg_at s e)) (emg_y (emg_at s e)))"

lemma sent_to_on_course:
  assumes "sent_to s e v v'" and "trajectory v \<noteq> None" and "on_course s v"
    and "way v (emg_x (emg_at s e)) (emg_y (emg_at s e)) = 0 \<Longrightarrow> bound_for v (emg_x (emg_at s e)) (emg_y (emg_at s e))"
  shows "on_course s v'"
proof -
  let ?x = "emg_x (emg_at s e)" and ?y = "emg_y (emg_at s e)"
  note st = assms(1) [unfolded sent_to_def]
  have "bound_for v' ?x ?y"
  proof (cases "way v ?x ?y = 0")
    case True
    then have "twin_x v = ?x \<and> twin_y v = ?y" by (simp add: way_0)
    then show ?thesis using assms(4) [OF True] st by (simp add: bound_for_def)
  next
    case False
    then have "twin_x v \<noteq> ?x \<or> twin_y v \<noteq> ?y" by (simp add: way_0)
    moreover obtain c where "trajectory v = Some c" using assms(2) by blast
    ultimately show ?thesis using st by (intro bound_for_change [of v c v']) simp_all
  qed
  then show ?thesis using st assms(3) by (simp add: on_course_def)
qed

lemma dispatched_courses:
  assumes inv: "server_inv s" "courses_inv s" and d: "dispatched s e s'" and r: "ready_for s e"
  shows "courses_inv s'"
proof -
  define qs where "qs = requests (rescuers_req_number (etype (emg_at s e))) (rescuers_missing (emg_at s e))"
  obtain pss where pss: "length pss = length qs" "\<forall>i < length qs. picks s e (req_type (qs ! i)) (pss ! i)"
    "\<forall>t. t \<notin> set (concat pss) \<longrightarrow> twin_at s' t = twin_at s t"
    "\<forall>t \<in> set (concat pss). sent_to s e (twin_at s t) (twin_at s' t)"
    using d unfolding dispatched_def Let_def qs_def by blast
  obtain ts ms where em: "emg_at s' e = (emg_at s e)\<lparr>rescuer_twins := ts, rescuers_missing := ms\<rparr>"
    using d unfolding dispatched_def Let_def by blast
  have oth: "\<forall>x. x \<noteq> e \<longrightarrow> emg_at s' x = emg_at s x \<or> robbed (emg_at s x) (emg_at s' x)"
    using d unfolding dispatched_def Let_def by blast
  obtain ta ea where s': "s' = s\<lparr>twin_at := ta, emg_at := ea\<rparr>" using d unfolding dispatched_def Let_def by blast
  have fr: "known s' = known s" "in_map s' = in_map s" "emg_brk s' = emg_brk s"
    by (simp_all add: s' known_def in_map_def fun_eq_iff)
  have pos: "emg_x (emg_at s' x) = emg_x (emg_at s x) \<and> emg_y (emg_at s' x) = emg_y (emg_at s x)" for x
  proof (cases "x = e")
    case False
    then consider "emg_at s' x = emg_at s x" | "robbed (emg_at s x) (emg_at s' x)" using oth by blast
    then show ?thesis by cases (simp_all add: robbed_def)
  qed (simp add: em)
  have oc: "on_course s' = on_course s" by (intro ext) (simp only: on_course_def fr pos)
  have "on_course s (twin_at s' t)" if t: "known s t" for t
  proof (cases "t \<in> set (concat pss)")
    case False
    then show ?thesis using inv(2) t pss(3) by (simp add: courses_inv_def)
  next
    case True
    then obtain ps where "ps \<in> set pss" "t \<in> set ps" by auto
    then obtain i where i: "i < length qs" "t \<in> set (pss ! i)" using pss(1) in_set_conv_nth [of ps pss] by metis
    then have el: "eligible s e t" using picks_set pss(2) by blast
    have "trajectory (twin_at s t) \<noteq> None"
      using inv(1) t known_type(4) twin_okD(2) unfolding server_inv_def links_inv_def by blast
    moreover have "sent_to s e (twin_at s t) (twin_at s' t)" using pss(4) True by blast
    moreover have "on_course s (twin_at s t)" using inv(2) t by (simp add: courses_inv_def)
    ultimately show ?thesis using sent_to_on_course r t el by (simp add: ready_for_def)
  qed
  then show ?thesis using inv(2) pos unfolding courses_inv_def fr oc by simp
qed


text \<open>
  What \<open>ready_for\<close> excludes does happen: a rescuer that never travelled has a trajectory that
  was never written, and sending it to an emergency on the cell of its base leaves it so; the
  next tick reads it.
\<close>

theorem fresh_twin_reads_uninitialised:
  assumes "requests_inv s (emg_at s e)" and "twin_ok s t" and "rescuer (twin_at s t) \<in> set (wanted (emg_at s e))"
    and "twin_status (twin_at s t) = IDLE" and "trajectory (twin_at s t) = mallocate_bresenham_trajectory"
    and "twin_x (twin_at s t) = emg_x (emg_at s e)" and "twin_y (twin_at s t) = emg_y (emg_at s e)"
  shows "rbind (send_rescuer_digital_twin_to_scene t e s)
    (update_rescuer_digital_twin_state (Some t) minx miny height width) = Inl UninitialisedRead"
proof -
  have "emergency (twin_at s t) = None" using assms(2,4) by (auto simp: twin_ok_def)
  from send_correct [OF assms(1-3)] this obtain v where
    "send_rescuer_digital_twin_to_scene t e s = Inr (set_twin t v s)" and st: "sent_to s e (twin_at s t) v" by auto
  moreover have "trajectory v = Some None"
    using st assms(5-7) by (simp add: sent_to_def mallocate_bresenham_trajectory_def)
  moreover have "\<not> speed (rescuer v) < 0" using st twin_okD(1) [OF assms(2)] by (simp add: sent_to_def)
  ultimately show ?thesis using st
    by (simp add: update_rescuer_digital_twin_state_def walk_twin_def compute_bresenham_step_def sent_to_def)
qed

section \<open>The sample state\<close>

lemma sample_courses: "courses_inv sample_server" "fleet sample_server = [0, 1]"
  "rescuer_types_count sample_server \<le> int (length (rescuer_types sample_server))"
  "distinct (filter (\<lambda>c. c \<noteq> None) (take (nat (rescuer_types_count sample_server)) (rescuer_types sample_server)))"
proof -
  have m: "in_map sample_server x y \<longleftrightarrow> 0 \<le> x \<and> x < 20 \<and> 0 \<le> y \<and> y < 20" for x y
    by (simp add: in_map_def sample_server_def MIN_X_COORDINATE_def MIN_Y_COORDINATE_def)
  have s: "twin_at sample_server = sample_twin" "emg_at sample_server = sample_emg" "emg_brk sample_server = 2"
    by (simp_all add: sample_server_def)
  show "courses_inv sample_server"
    unfolding courses_inv_def sample_types(2) on_course_def m s
    by (auto simp: sample_twin_def sample_emg_def van_def bound_for_def valid_course_def
        mallocate_bresenham_trajectory_def change_bresenham_trajectory_def Let_def)
  show "fleet sample_server = [0, 1]"
    using sample_types(1) by (simp add: fleet_def) (simp add: sample_server_def)
qed (simp_all add: sample_server_def)

theorem update_rescuers_correct_witness:
  "\<exists>s'. update_rescuers_states sample_server = Inr s' \<and> server_inv s' \<and> twin_at s' 0 = sample_twin 0
    \<and> twin_at s' 1 = (sample_twin 1)\<lparr>time_left_before_leaving := 1\<rparr>"
proof -
  from update_rescuers_correct [OF sample_server_inv(1) sample_courses(1,3,4)] obtain s' where
    "update_rescuers_states sample_server = Inr s'" "server_inv s'"
    "\<forall>t \<in> set (fleet sample_server). ticked sample_server (twin_at sample_server t) (twin_at s' t)" by blast
  moreover have "twin_at sample_server = sample_twin" by (simp add: sample_server_def)
  ultimately show ?thesis
    by (intro exI [of _ s']) (auto simp: sample_courses(2) ticked_def sample_twin_def)
qed

theorem all_rescuers_return_witness:
  "\<exists>s'. passes 13 sample_server = Inr s' \<and> twin_status (twin_at s' 1) = IDLE \<and> twin_status (sample_twin 1) = ON_SCENE"
proof -
  have at: "twin_at sample_server = sample_twin" by (simp add: sample_server_def)
  have "\<forall>t \<in> set (fleet sample_server). rest sample_server (twin_at sample_server t) \<le> 13"
    by (auto simp: sample_courses(2) at rest_def sample_twin_def van_def way_def MANHATTAN_def)
  from all_rescuers_return [OF sample_server_inv(1) sample_courses(1,3,4) this] show ?thesis
    by (auto simp: sample_courses(2) sample_twin_def)
qed


theorem fresh_twin_reads_uninitialised_witness:
  "rbind (send_rescuer_digital_twin_to_scene 0 1 (set_emg 1 ((sample_emg 1)\<lparr>emg_x := 0, emg_y := 0\<rparr>) sample_server))
    (update_rescuer_digital_twin_state (Some 0) 0 0 20 20) = Inl UninitialisedRead"
proof -
  let ?s = "set_emg 1 ((sample_emg 1)\<lparr>emg_x := 0, emg_y := 0\<rparr>) sample_server"
  have l: "links_inv sample_server {} (\<lambda>x. missing (emg_at sample_server x))"
    using sample_server_inv(1) by (simp add: server_inv_def)
  have "requests_inv sample_server (emg_at sample_server 1)" by (rule links_invD(2) [OF l]) (simp add: sample_server_def)
  then have r: "requests_inv ?s (emg_at ?s 1)" "rescuer (twin_at ?s 0) \<in> set (wanted (emg_at ?s 1))"
    by (simp_all add: requests_inv_def requests_ok_def wanted_def)
      (simp_all add: sample_server_def sample_emg_def sample_twin_def big_fire_def requests_def)
  have "twin_ok sample_server 0" by (rule known_type(4) [OF links_invD(1) [OF l]]) (simp add: sample_types)
  then have "twin_ok ?s 0" by (simp add: twin_ok_def)
  then show ?thesis using r by (intro fresh_twin_reads_uninitialised) (simp_all add: sample_server_def sample_twin_def)
qed

end
