(* ===== verification/Updater_Waiting.thy ===== *)
theory Updater_Waiting
  imports Updater "HOL-Library.Multiset"
begin

text \<open>
  The updater's passes over the waiting emergencies: the loops end, what has expired is moved to
  the canceled ones, what is due is promoted and queued again, and nothing is lost.
\<close>

section \<open>Expired emergencies\<close>

lemma lq_extract_total:
  assumes "lq_inv q"
  obtains r q' where "lq_extract q P = (r, q')" and "lq_inv q'" and "lq_closed q' = lq_closed q"
    and "r = (if filter P (lq_items q) = [] then None else Some (hd (filter P (lq_items q))))"
    and "lq_items q' = remove_first P (lq_items q)"
  using lq.extract_total [OF assms, of P] by auto

lemma lq_push_items:
  assumes "lq_inv q"
  shows "lq_inv (lq_push q x p)" and "lq_closed (lq_push q x p) = lq_closed q"
    and "\<exists>us vs. lq_items q = us @ vs \<and> lq_items (lq_push q x p) = (if lq_closed q then us @ vs else us @ x # vs)"
proof -
  have pos: "0 < length (lq_levels q)" using assms by (simp add: lq_inv_def)
  have "length (push_level x p (lq_levels q)) \<noteq> 0" using pos by simp
  then have "push_level x p (lq_levels q) \<noteq> []" by (metis length_0_conv)
  then show "lq_inv (lq_push q x p)" "lq_closed (lq_push q x p) = lq_closed q"
    using assms by (simp_all add: lq_push_def lq_inv_def)
  show "\<exists>us vs. lq_items q = us @ vs \<and> lq_items (lq_push q x p) = (if lq_closed q then us @ vs else us @ x # vs)"
    using drain_push_level [OF pos, of x p] by (auto simp: lq_push_def intro: exI [of _ "[]"])
qed

lemma lq_push_set:
  assumes "lq_inv q"
  shows "set (lq_items (lq_push q x p)) = (if lq_closed q then {} else {x}) \<union> set (lq_items q)"
proof -
  obtain us vs where "lq_items q = us @ vs" "lq_items (lq_push q x p) = (if lq_closed q then us @ vs else us @ x # vs)"
    using lq_push_items(3) [OF assms] by blast
  then show ?thesis by (simp del: set_drain)
qed

lemma lq_push_mset:
  assumes "lq_inv q" and "\<not> lq_closed q"
  shows "mset (lq_items (lq_push q x p)) = add_mset x (mset (lq_items q))"
proof -
  obtain us vs where "lq_items q = us @ vs" "lq_items (lq_push q x p) = (if lq_closed q then us @ vs else us @ x # vs)"
    using lq_push_items(3) [OF assms(1)] by blast
  then show ?thesis using assms(2) by simp
qed

lemma mset_remove_first: "filter P xs = e # es \<Longrightarrow> add_mset e (mset (remove_first P xs)) = mset xs"
  by (induction xs) (auto split: if_splits)

lemma remove_first_none: "filter P xs = [] \<Longrightarrow> remove_first P xs = xs"
  by (induction xs) (auto split: if_splits)

text \<open>The emergencies of a set time out, the others stay as they are.\<close>

definition timed_out :: "emg_ptr set \<Rightarrow> (emg_ptr \<Rightarrow> emergency) \<Rightarrow> emg_ptr \<Rightarrow> emergency" where
  "timed_out E h e = (if e \<in> E then (h e)\<lparr>status := TIMEOUT\<rparr> else h e)"

lemma expired_frame: "emergency_has_expired (s\<lparr>emg_at := timed_out E (emg_at s)\<rparr>) = emergency_has_expired s"
  by (simp add: emergency_has_expired_def timed_out_def fun_eq_iff)

lemma remove_expired_loop_correct:
  assumes "lq_inv (emergency_queue s)" and "lq_inv (canceled_emergencies s)" and "\<not> lq_closed (canceled_emergencies s)"
    and "length (filter (emergency_has_expired s) (lq_items (emergency_queue s))) < fuel"
  shows "\<exists>q c. remove_expired_loop fuel s = Inr (s\<lparr>emergency_queue := q,
        emg_at := timed_out (set (filter (emergency_has_expired s) (lq_items (emergency_queue s)))) (emg_at s),
        canceled_emergencies := c\<rparr>)
    \<and> lq_inv q \<and> lq_closed q = lq_closed (emergency_queue s) \<and> lq_inv c \<and> \<not> lq_closed c
    \<and> lq_items q = filter (\<lambda>e. \<not> emergency_has_expired s e) (lq_items (emergency_queue s))
    \<and> mset (lq_items c) = mset (lq_items (canceled_emergencies s))
        + mset (filter (emergency_has_expired s) (lq_items (emergency_queue s)))"
  using assms
proof (induction fuel arbitrary: s)
  case (Suc fuel)
  let ?P = "emergency_has_expired s" and ?xs = "lq_items (emergency_queue s)"
  obtain r q1 where ex: "lq_extract (emergency_queue s) ?P = (r, q1)" "lq_inv q1"
    "lq_closed q1 = lq_closed (emergency_queue s)"
    "r = (if filter ?P ?xs = [] then None else Some (hd (filter ?P ?xs)))" "lq_items q1 = remove_first ?P ?xs"
    using lq_extract_total [OF Suc.prems(1)] .
  show ?case
  proof (cases "filter ?P ?xs")
    case Nil
    have h: "emg_at s = timed_out {} (emg_at s)" by (simp add: timed_out_def fun_eq_iff)
    have same: "filter (\<lambda>e. \<not> ?P e) ?xs = ?xs" using Nil by (auto simp: filter_empty_conv)
    have items: "lq_items q1 = ?xs" using ex(5) remove_first_none [OF Nil] by simp
    have run: "remove_expired_loop (Suc fuel) s = Inr (s\<lparr>emergency_queue := q1,
        emg_at := timed_out {} (emg_at s), canceled_emergencies := canceled_emergencies s\<rparr>)"
      using ex(1,4) Nil by (subst h [symmetric]) simp
    have eq: "set (filter ?P ?xs) = {}" "mset (filter ?P ?xs) = {#}" using Nil by simp_all
    show ?thesis
      by (rule exI [of _ q1], rule exI [of _ "canceled_emergencies s"], unfold eq, intro conjI)
        (use run ex(2,3) Suc.prems(2,3) items same in \<open>simp_all\<close>)
  next
    case (Cons e es)
    let ?l = "the_level (priority (emg_at s e))"
    let ?c1 = "lq_push (canceled_emergencies s) e ?l"
    let ?s1 = "s\<lparr>emergency_queue := q1, emg_at := timed_out {e} (emg_at s), canceled_emergencies := ?c1\<rparr>"
    have h1: "(emg_at s)(e := (emg_at s e)\<lparr>status := TIMEOUT\<rparr>) = timed_out {e} (emg_at s)"
      by (auto simp: timed_out_def)
    have step: "remove_expired_loop (Suc fuel) s = remove_expired_loop fuel ?s1"
      using ex(1,4) Cons by (simp add: set_emg_def h1)
    have P1: "emergency_has_expired ?s1 = ?P"
      by (simp add: emergency_has_expired_def timed_out_def fun_eq_iff)
    have it: "filter ?P (remove_first ?P ?xs) = es" "filter (\<lambda>x. \<not> ?P x) (remove_first ?P ?xs) = filter (\<lambda>x. \<not> ?P x) ?xs"
      using Cons by (simp_all add: remove_first_filter)
    from Suc.IH [of ?s1] Suc.prems ex(2,5) lq_push_items [OF Suc.prems(2), of e ?l] it Cons
    obtain q c where qc: "remove_expired_loop fuel ?s1 = Inr (?s1\<lparr>emergency_queue := q,
        emg_at := timed_out (set es) (timed_out {e} (emg_at s)), canceled_emergencies := c\<rparr>)"
      "lq_inv q" "lq_closed q = lq_closed (emergency_queue s)" "lq_inv c" "\<not> lq_closed c"
      "lq_items q = filter (\<lambda>x. \<not> ?P x) ?xs" "mset (lq_items c) = mset (lq_items ?c1) + mset es"
      unfolding P1 by (auto simp: ex(3) simp del: set_drain)
    have h2: "timed_out (set es) (timed_out {e} (emg_at s)) = timed_out (set (filter ?P ?xs)) (emg_at s)"
      using Cons by (auto simp: timed_out_def fun_eq_iff)
    have set_c: "mset (lq_items c) = mset (lq_items (canceled_emergencies s)) + mset (filter ?P ?xs)"
      using qc(7) lq_push_mset [OF Suc.prems(2,3), of e ?l] Cons by simp
    have run: "remove_expired_loop (Suc fuel) s = Inr (s\<lparr>emergency_queue := q,
        emg_at := timed_out (set (filter ?P ?xs)) (emg_at s), canceled_emergencies := c\<rparr>)"
      unfolding step qc(1) h2 by simp
    show ?thesis
      by (rule exI [of _ q], rule exI [of _ c], intro conjI)
        (use run qc(2-6) set_c in \<open>simp_all del: set_drain set_filter mset_filter\<close>)
  qed
qed simp

section \<open>Promotions\<close>

definition promoted :: "emergency \<Rightarrow> emergency" where
  "promoted em = (let p = (if priority em = 1 \<or> priority em = 2 then 2 else 1) in
     em\<lparr>priority := p, timeout_timer := (if p = 1 then 60 else 30), promotion_timer := NO_PROMOTION,
       how_many_times_was_promoted := how_many_times_was_promoted em + 1\<rparr>)"

lemma promote_emergency [simp]: "promote_emergency e s = Inr (set_emg e (promoted (emg_at s e)) s)"
  by (simp add: promote_emergency_def promoted_def)

definition promoted_in :: "emg_ptr set \<Rightarrow> (emg_ptr \<Rightarrow> emergency) \<Rightarrow> emg_ptr \<Rightarrow> emergency" where
  "promoted_in E h e = (if e \<in> E then promoted (h e) else h e)"

lemma promoted_not_due: "promotion_timer (promoted em) = NO_PROMOTION"
  by (simp add: promoted_def Let_def)

lemma set_remove_first_insert:
  "filter P xs = e # es \<Longrightarrow> insert e (set (remove_first P xs)) = set xs"
  by (induction xs) (auto split: if_splits)

lemma promote_loop_correct:
  assumes "lq_inv (emergency_queue s)"
    and "length (filter (emergency_is_to_promote s) (lq_items (emergency_queue s))) < fuel"
  shows "\<exists>q. promote_loop fuel s = Inr (s\<lparr>
        emg_at := promoted_in (set (filter (emergency_is_to_promote s) (lq_items (emergency_queue s)))) (emg_at s),
        emergency_queue := q\<rparr>)
    \<and> lq_inv q \<and> lq_closed q = lq_closed (emergency_queue s)
    \<and> (\<not> lq_closed q \<longrightarrow> mset (lq_items q) = mset (lq_items (emergency_queue s)))
    \<and> set (lq_items q) \<subseteq> set (lq_items (emergency_queue s))
    \<and> set (filter (\<lambda>e. \<not> emergency_is_to_promote s e) (lq_items (emergency_queue s))) \<subseteq> set (lq_items q)"
  using assms
proof (induction fuel arbitrary: s)
  case (Suc fuel)
  let ?P = "emergency_is_to_promote s" and ?xs = "lq_items (emergency_queue s)"
  obtain r q1 where ex: "lq_extract (emergency_queue s) ?P = (r, q1)" "lq_inv q1"
    "lq_closed q1 = lq_closed (emergency_queue s)"
    "r = (if filter ?P ?xs = [] then None else Some (hd (filter ?P ?xs)))" "lq_items q1 = remove_first ?P ?xs"
    using lq_extract_total [OF Suc.prems(1)] .
  show ?case
  proof (cases "filter ?P ?xs")
    case Nil
    have h: "promoted_in {} (emg_at s) = emg_at s" by (simp add: promoted_in_def fun_eq_iff)
    have same: "filter (\<lambda>e. \<not> ?P e) ?xs = ?xs" using Nil by (auto simp: filter_empty_conv)
    have items: "lq_items q1 = ?xs" using ex(5) remove_first_none [OF Nil] by simp
    have s0: "s\<lparr>emg_at := emg_at s, emergency_queue := q1\<rparr> = s\<lparr>emergency_queue := q1\<rparr>" by simp
    have run: "promote_loop (Suc fuel) s = Inr (s\<lparr>emg_at := promoted_in {} (emg_at s), emergency_queue := q1\<rparr>)"
      unfolding h s0 using ex(1,4) Nil by simp
    have eq: "set (filter ?P ?xs) = {}" using Nil by simp
    show ?thesis
      by (rule exI [of _ q1], unfold eq, intro conjI) (use run ex(2,3) items same in \<open>simp_all del: set_drain\<close>)
  next
    case (Cons e es)
    define h1 where "h1 = promoted_in {e} (emg_at s)"
    let ?q2 = "lq_push q1 e (the_level (priority (h1 e)))"
    let ?s1 = "s\<lparr>emg_at := h1, emergency_queue := ?q2\<rparr>"
    have h1e: "(emg_at s)(e := h1 e) = h1" "promoted (emg_at s e) = h1 e"
      by (auto simp: promoted_in_def h1_def)
    have step: "promote_loop (Suc fuel) s = promote_loop fuel ?s1"
      using ex(1,4) Cons by (simp add: set_emg_def h1e)
    have P1: "emergency_is_to_promote ?s1 x \<longleftrightarrow> ?P x \<and> x \<noteq> e" for x
      by (auto simp: emergency_is_to_promote_def h1_def promoted_in_def promoted_not_due)
    have "e \<in> set (filter ?P ?xs)" unfolding Cons by simp
    then have e: "?P e" "e \<in> set ?xs" by (simp_all del: set_drain)
    obtain us vs where uv: "remove_first ?P ?xs = us @ vs"
      "lq_items ?q2 = (if lq_closed q1 then us @ vs else us @ e # vs)"
      using lq_push_items(3) [OF ex(2), of e] ex(5) by metis
    have flt: "filter (emergency_is_to_promote ?s1) (lq_items ?q2) = filter (\<lambda>x. x \<noteq> e) es"
    proof -
      have "filter (emergency_is_to_promote ?s1) (lq_items ?q2) = filter (emergency_is_to_promote ?s1) (us @ vs)"
        unfolding uv(2) using P1 [of e] by simp
      also have "\<dots> = filter (\<lambda>x. x \<noteq> e) (filter ?P (remove_first ?P ?xs))"
        unfolding uv(1) filter_filter P1 by (simp add: conj_commute)
      also have "\<dots> = filter (\<lambda>x. x \<noteq> e) es" using Cons by (simp add: remove_first_filter)
      finally show ?thesis .
    qed
    have "length (filter (emergency_is_to_promote ?s1) (lq_items (emergency_queue ?s1))) < fuel"
      using flt Suc.prems(2) Cons le_less_trans [OF length_filter_le] by simp
    moreover have "lq_inv (emergency_queue ?s1)" using lq_push_items(1) [OF ex(2)] by simp
    ultimately obtain q where q: "promote_loop fuel ?s1 = Inr (?s1\<lparr>
        emg_at := promoted_in (set (filter (\<lambda>x. x \<noteq> e) es)) h1, emergency_queue := q\<rparr>)" "lq_inv q" "lq_closed q = lq_closed ?q2"
      "\<not> lq_closed q \<longrightarrow> mset (lq_items q) = mset (lq_items ?q2)" "set (lq_items q) \<subseteq> set (lq_items ?q2)"
      "set (filter (\<lambda>x. \<not> emergency_is_to_promote ?s1 x) (lq_items ?q2)) \<subseteq> set (lq_items q)"
      using Suc.IH [of ?s1] flt by auto
    have cl: "lq_closed ?q2 = lq_closed (emergency_queue s)" using lq_push_items(2) [OF ex(2)] ex(3) by simp
    have h2: "promoted_in (set (filter (\<lambda>x. x \<noteq> e) es)) h1 = promoted_in (set (filter ?P ?xs)) (emg_at s)"
      unfolding Cons by (auto simp: promoted_in_def h1_def fun_eq_iff)
    have run: "promote_loop (Suc fuel) s = Inr (s\<lparr>
        emg_at := promoted_in (set (filter ?P ?xs)) (emg_at s), emergency_queue := q\<rparr>)"
      unfolding step q(1) h2 by simp
    have all: "insert e (set (us @ vs)) = set ?xs"
      unfolding uv(1) [symmetric] by (rule set_remove_first_insert [OF Cons])
    have i2: "set (lq_items ?q2) = (if lq_closed q1 then set (us @ vs) else set ?xs)"
      unfolding uv(2) all [symmetric] by simp
    have keep: "set (filter (\<lambda>x. \<not> ?P x) ?xs) \<subseteq> set (lq_items q)"
    proof
      fix x assume "x \<in> set (filter (\<lambda>x. \<not> ?P x) ?xs)"
      then have x: "x \<in> set ?xs" "\<not> ?P x" by (simp_all del: set_drain)
      then have "x \<noteq> e" using e(1) by blast
      then have "x \<in> set (us @ vs)" using x(1) unfolding all [symmetric] by blast
      then have "x \<in> set (lq_items ?q2)" using x(1) unfolding i2 by simp
      then have "x \<in> set (filter (\<lambda>x. \<not> emergency_is_to_promote ?s1 x) (lq_items ?q2))"
        using x(2) P1 [of x] by (simp del: set_drain)
      then show "x \<in> set (lq_items q)" using q(6) by blast
    qed
    have sub: "set (lq_items q) \<subseteq> set ?xs"
      using q(5) i2 all by (metis Un_upper2 insert_is_Un order_trans order_refl)
    have "mset (lq_items ?q2) = mset ?xs" if "\<not> lq_closed q1"
      using that lq_push_mset [OF ex(2) that, of e] mset_remove_first [OF Cons] ex(5) by simp
    then have open_eq: "\<not> lq_closed q \<longrightarrow> mset (lq_items q) = mset ?xs" using q(3,4) cl ex(3) by simp
    show ?thesis
      by (rule exI [of _ q], intro conjI)
        (use run q(2,3) cl keep sub open_eq in \<open>simp_all del: set_drain set_filter promote_loop.simps\<close>)
  qed
qed simp

section \<open>The whole pass\<close>

text \<open>What one tick takes from the timers of a waiting emergency, and what then happens to it.\<close>

definition aged :: "emergency \<Rightarrow> emergency" where
  "aged em = (let em1 = (if promotion_timer em \<noteq> NO_PROMOTION
                         then em\<lparr>promotion_timer := promotion_timer em - 1\<rparr> else em)
              in if timeout_timer em \<noteq> NO_TIMEOUT then em1\<lparr>timeout_timer := timeout_timer em - 1\<rparr> else em1)"

definition runs_out :: "emergency \<Rightarrow> bool" where
  "runs_out em \<longleftrightarrow> timeout_timer em \<noteq> NO_TIMEOUT \<and> timeout_timer em \<le> 0"

definition falls_due :: "emergency \<Rightarrow> bool" where
  "falls_due em \<longleftrightarrow> promotion_timer em \<noteq> NO_PROMOTION \<and> promotion_timer em \<le> 0"

definition after_tick :: "emergency \<Rightarrow> emergency" where
  "after_tick em = (if runs_out (aged em) then (aged em)\<lparr>status := TIMEOUT\<rparr>
     else if falls_due (aged em) then promoted (aged em) else aged em)"

lemma update_waiting_emergency_state: "update_waiting_emergency_state e s = set_emg e (aged (emg_at s e)) s"
  by (simp add: update_waiting_emergency_state_def aged_def Let_def)

lemma expired_iff: "emergency_has_expired s e \<longleftrightarrow> runs_out (emg_at s e)"
  by (simp add: emergency_has_expired_def runs_out_def not_less)

lemma to_promote_iff: "emergency_is_to_promote s e \<longleftrightarrow> falls_due (emg_at s e)"
  by (simp add: emergency_is_to_promote_def falls_due_def not_less)

lemma age_all:
  assumes "distinct es"
  shows "fold update_waiting_emergency_state es s
    = s\<lparr>emg_at := \<lambda>e. if e \<in> set es then aged (emg_at s e) else emg_at s e\<rparr>"
  using assms
proof (induction es arbitrary: s)
  case (Cons e es)
  let ?h = "emg_at (set_emg e (aged (emg_at s e)) s)"
  have "fold update_waiting_emergency_state (e # es) s
      = (set_emg e (aged (emg_at s e)) s)\<lparr>emg_at := \<lambda>x. if x \<in> set es then aged (?h x) else ?h x\<rparr>"
    using Cons.IH [of "set_emg e (aged (emg_at s e)) s"] Cons.prems
      update_waiting_emergency_state [of e s] by simp
  moreover have "(\<lambda>x. if x \<in> set es then aged (?h x) else ?h x)
      = (\<lambda>x. if x \<in> set (e # es) then aged (emg_at s x) else emg_at s x)"
    using Cons.prems by (auto simp: fun_eq_iff)
  ultimately show ?case by (simp only: set_emg_def) simp
qed simp

lemma drain_levels:
  "set (concat ls) = set (drain ls)" "distinct (concat ls) \<longleftrightarrow> distinct (drain ls)"
  by (simp, induction ls) (auto simp: drain_def)

lemma update_waiting_emergencies_states:
  assumes "distinct (lq_items (emergency_queue s))"
  shows "update_waiting_emergencies_states s = s\<lparr>emg_at := \<lambda>e.
    if e \<in> set (lq_items (emergency_queue s)) then aged (emg_at s e) else emg_at s e\<rparr>"
  using assms age_all [of "concat (lq_levels (emergency_queue s))" s]
  by (simp only: update_waiting_emergencies_states_def drain_levels)

lemma promoted_fine: "\<not> runs_out (promoted em)" "\<not> falls_due (promoted em)"
  by (simp_all add: promoted_def runs_out_def falls_due_def NO_TIMEOUT_def NO_PROMOTION_def)

lemma after_tick_fine: "\<not> runs_out (aged em) \<Longrightarrow> \<not> runs_out (after_tick em) \<and> \<not> falls_due (after_tick em)"
  by (simp add: after_tick_def promoted_fine)

lemma waiting_pass_total:
  assumes "lq_inv (emergency_queue s)" and "lq_inv (canceled_emergencies s)"
    and "\<not> lq_closed (emergency_queue s)" and "\<not> lq_closed (canceled_emergencies s)"
    and "distinct (lq_items (emergency_queue s))"
    and W: "W = set (lq_items (emergency_queue s))" and X: "X = {e \<in> W. runs_out (aged (emg_at s e))}"
  shows "\<exists>q c. rbind (remove_expired_waiting_emergencies (update_waiting_emergencies_states s))
        promote_needing_waiting_emergencies
      = Inr (s\<lparr>emergency_queue := q, canceled_emergencies := c,
          emg_at := \<lambda>e. if e \<in> W then after_tick (emg_at s e) else emg_at s e\<rparr>)
    \<and> lq_inv q \<and> \<not> lq_closed q \<and> lq_inv c \<and> \<not> lq_closed c
    \<and> distinct (lq_items q) \<and> set (lq_items q) = W - X
    \<and> mset (lq_items q) + mset (lq_items c) = mset (lq_items (emergency_queue s)) + mset (lq_items (canceled_emergencies s))
    \<and> set (lq_items c) = set (lq_items (canceled_emergencies s)) \<union> X"
proof -
  define s1 where "s1 = update_waiting_emergencies_states s"
  let ?xs = "lq_items (emergency_queue s)"
  have s1: "s1 = s\<lparr>emg_at := \<lambda>e. if e \<in> W then aged (emg_at s e) else emg_at s e\<rparr>"
    unfolding s1_def W using assms(5) by (rule update_waiting_emergencies_states)
  have q1: "emergency_queue s1 = emergency_queue s" "canceled_emergencies s1 = canceled_emergencies s"
    unfolding s1 by simp_all
  have ex: "set (filter (emergency_has_expired s1) ?xs) = X"
    unfolding X by (auto simp: expired_iff s1 W simp del: set_drain)
  have "lq_inv (emergency_queue s1)" "lq_inv (canceled_emergencies s1)" "\<not> lq_closed (canceled_emergencies s1)"
    "length (filter (emergency_has_expired s1) (lq_items (emergency_queue s1))) < queue_fuel s1"
    using assms(1,2,4) q1 by (simp_all add: queue_fuel_def le_imp_less_Suc)
  from remove_expired_loop_correct [OF this] obtain q c where rem:
    "remove_expired_waiting_emergencies s1 = Inr (s1\<lparr>emergency_queue := q,
        emg_at := timed_out X (emg_at s1), canceled_emergencies := c\<rparr>)"
    and q: "lq_inv q" "\<not> lq_closed q" "lq_items q = filter (\<lambda>e. \<not> emergency_has_expired s1 e) ?xs"
    and c: "lq_inv c" "\<not> lq_closed c"
      "mset (lq_items c) = mset (lq_items (canceled_emergencies s)) + mset (filter (emergency_has_expired s1) ?xs)"
    unfolding q1 ex remove_expired_waiting_emergencies_def using assms(3) by blast
  have c_set: "set (lq_items c) = set (lq_items (canceled_emergencies s)) \<union> X"
    using c(3) ex by (metis set_append set_mset_mset mset_append)
  define s2 where "s2 = s1\<lparr>emergency_queue := q, emg_at := timed_out X (emg_at s1), canceled_emergencies := c\<rparr>"
  have W2: "set (lq_items q) = W - X"
    using ex W unfolding q(3) by (auto simp del: set_drain)
  have split: "mset (lq_items q) + mset (filter (emergency_has_expired s1) ?xs) = mset ?xs"
    unfolding q(3) by (simp add: union_commute)
  have "lq_inv (emergency_queue s2)"
    "length (filter (emergency_is_to_promote s2) (lq_items (emergency_queue s2))) < queue_fuel s2"
    using q(1) by (simp_all add: s2_def queue_fuel_def le_imp_less_Suc)
  from promote_loop_correct [OF this] obtain q' where pro:
    "promote_needing_waiting_emergencies s2 = Inr (s2\<lparr>emg_at := promoted_in
        (set (filter (emergency_is_to_promote s2) (lq_items q))) (emg_at s2), emergency_queue := q'\<rparr>)"
    and q': "lq_inv q'" "\<not> lq_closed q'" "mset (lq_items q') = mset (lq_items q)"
    unfolding promote_needing_waiting_emergencies_def using q(2) by (auto simp: s2_def simp del: set_drain)
  define s' where "s' = s2\<lparr>emg_at := promoted_in
        (set (filter (emergency_is_to_promote s2) (lq_items q))) (emg_at s2), emergency_queue := q'\<rparr>"
  have heap: "emg_at s' e = (if e \<in> W then after_tick (emg_at s e) else emg_at s e)" for e
  proof (cases "e \<in> W - X")
    case True
    then have "emg_at s2 e = aged (emg_at s e)" "\<not> runs_out (aged (emg_at s e))"
      by (auto simp: s2_def s1 timed_out_def X)
    moreover have "e \<in> set (filter (emergency_is_to_promote s2) (lq_items q)) \<longleftrightarrow> falls_due (emg_at s2 e)"
      using True W2 by (simp add: to_promote_iff del: set_drain)
    ultimately show ?thesis using True by (simp add: s'_def promoted_in_def after_tick_def del: set_filter)
  next
    case False
    then have "e \<notin> set (filter (emergency_is_to_promote s2) (lq_items q))" using W2 by (simp del: set_drain)
    then show ?thesis using False
      by (auto simp: s'_def promoted_in_def s2_def s1 timed_out_def X after_tick_def simp del: set_filter)
  qed
  have "emg_at s' = (\<lambda>e. if e \<in> W then after_tick (emg_at s e) else emg_at s e)" using heap by (intro ext)
  then have s'_eq: "s' = s\<lparr>emergency_queue := q', canceled_emergencies := c,
      emg_at := \<lambda>e. if e \<in> W then after_tick (emg_at s e) else emg_at s e\<rparr>"
    by (intro server.equality) (simp_all add: s'_def s2_def s1)
  have "rbind (remove_expired_waiting_emergencies s1) promote_needing_waiting_emergencies = Inr s'"
    using rem pro by (simp add: s'_def s2_def)
  then have run: "rbind (remove_expired_waiting_emergencies (update_waiting_emergencies_states s))
      promote_needing_waiting_emergencies = Inr (s\<lparr>emergency_queue := q', canceled_emergencies := c,
      emg_at := \<lambda>e. if e \<in> W then after_tick (emg_at s e) else emg_at s e\<rparr>)"
    unfolding s1_def [symmetric] s'_eq .
  have "distinct (lq_items q)" unfolding q(3) using assms(5) by (rule distinct_filter)
  then have dist: "distinct (lq_items q')" using mset_eq_imp_distinct_iff [OF q'(3)] by simp
  have W': "set (lq_items q') = W - X" using mset_eq_setD [OF q'(3)] W2 by simp
  have M: "mset (lq_items q') + mset (lq_items c) = mset ?xs + mset (lq_items (canceled_emergencies s))"
    unfolding q'(3) c(3) split [symmetric] by (simp only: ac_simps)
  show ?thesis
    by (rule exI [of _ q'], rule exI [of _ c], intro conjI)
      (rule run q'(1) q'(2) c(1) c(2) dist W' M c_set)+
qed

text \<open>
  C14. The updater's pass over the waiting emergencies. While the queue is open and holds each
  emergency once, the pass ends and does to each of them what its timers say: one whose time is
  over leaves the queue for the canceled ones with status \<open>TIMEOUT\<close>, one that is due is promoted
  and queued again, the others only age; nothing is lost, no other emergency is touched, and no
  emergency left in the queue is over time or due.
\<close>

theorem waiting_emergencies_pass:
  assumes "lq_inv (emergency_queue s)" and "lq_inv (canceled_emergencies s)"
    and "\<not> lq_closed (emergency_queue s)" and "\<not> lq_closed (canceled_emergencies s)"
    and "distinct (lq_items (emergency_queue s))"
    and W: "W = set (lq_items (emergency_queue s))" and X: "X = {e \<in> W. runs_out (aged (emg_at s e))}"
  shows "\<exists>s'. rbind (remove_expired_waiting_emergencies (update_waiting_emergencies_states s))
      promote_needing_waiting_emergencies = Inr s'
    \<and> set (lq_items (emergency_queue s')) = W - X
    \<and> mset (lq_items (emergency_queue s')) + mset (lq_items (canceled_emergencies s'))
      = mset (lq_items (emergency_queue s)) + mset (lq_items (canceled_emergencies s))
    \<and> set (lq_items (canceled_emergencies s')) = set (lq_items (canceled_emergencies s)) \<union> X
    \<and> emg_at s' = (\<lambda>e. if e \<in> W then after_tick (emg_at s e) else emg_at s e)
    \<and> (\<forall>e \<in> W - X. \<not> emergency_has_expired s' e \<and> \<not> emergency_is_to_promote s' e)"
proof -
  from waiting_pass_total [OF assms] obtain q c where
    run: "rbind (remove_expired_waiting_emergencies (update_waiting_emergencies_states s))
        promote_needing_waiting_emergencies
      = Inr (s\<lparr>emergency_queue := q, canceled_emergencies := c,
          emg_at := \<lambda>e. if e \<in> W then after_tick (emg_at s e) else emg_at s e\<rparr>)"
    and qc: "set (lq_items q) = W - X"
    "mset (lq_items q) + mset (lq_items c) = mset (lq_items (emergency_queue s)) + mset (lq_items (canceled_emergencies s))"
    "set (lq_items c) = set (lq_items (canceled_emergencies s)) \<union> X"
    by blast
  show ?thesis
    by (rule exI, intro conjI, rule run)
      (use qc after_tick_fine in \<open>auto simp: expired_iff to_promote_iff X simp del: set_drain\<close>)
qed

definition waiting_server :: server where
  "waiting_server = (sample_server\<lparr>emergency_queue := lq_push (lq_push (lq_create 3) 0 0) 1 2\<rparr>)
     \<lparr>emg_at := \<lambda>e. (sample_emg e)\<lparr>timeout_timer := (if e = 1 then 1 else NO_TIMEOUT)\<rparr>\<rparr>"

theorem waiting_emergencies_pass_witness:
  "\<exists>s'. rbind (remove_expired_waiting_emergencies (update_waiting_emergencies_states waiting_server))
      promote_needing_waiting_emergencies = Inr s'
    \<and> set (lq_items (emergency_queue s')) = {0} \<and> set (lq_items (canceled_emergencies s')) = {1}
    \<and> status (emg_at s' 1) = TIMEOUT"
proof -
  have q: "emergency_queue waiting_server = lq_push (lq_push (lq_create 3) 0 0) 1 2"
    "canceled_emergencies waiting_server = lq_create 3"
    "emg_at waiting_server = (\<lambda>e. (sample_emg e)\<lparr>timeout_timer := (if e = 1 then 1 else NO_TIMEOUT)\<rparr>)"
    by (simp_all add: waiting_server_def sample_server_def)
  have items: "lq_items (emergency_queue waiting_server) = [1, 0]" "lq_items (lq_create 3) = ([] :: emg_ptr list)"
    unfolding q by code_simp+
  have inv: "lq_inv (emergency_queue waiting_server)" "lq_inv (canceled_emergencies waiting_server)"
    "\<not> lq_closed (emergency_queue waiting_server)" "\<not> lq_closed (canceled_emergencies waiting_server)"
    unfolding q by code_simp+
  have X: "{1} = {e \<in> {1, 0}. runs_out (aged (emg_at waiting_server e))}"
    by (auto simp: q runs_out_def aged_def NO_TIMEOUT_def sample_emg_def Let_def)
  have t: "runs_out (aged (emg_at waiting_server 1))" using X by blast
  have "distinct (lq_items (emergency_queue waiting_server))" "{1, 0} = set (lq_items (emergency_queue waiting_server))"
    unfolding items by simp_all
  from waiting_emergencies_pass [OF inv this(1) this(2) X] t show ?thesis
    by (elim exE conjE) (rule exI, intro conjI, assumption, auto simp: q items after_tick_def simp del: set_drain)
qed

end
