(* ===== verification/Updater_Tick.thy ===== *)
theory Updater_Tick
  imports Updater_Twins Updater_Waiting
begin

text \<open>
  The updater's pass over the active emergencies, and one whole tick of the updater.
\<close>

section \<open>Active emergencies\<close>

text \<open>
  What the pass does to an emergency in a slot. Only an emergency whose promotion timer is off
  and that is not paused can change its status.
\<close>

definition active_next :: "emergency \<Rightarrow> emergency" where
  "active_next em =
    (if promotion_timer em \<noteq> NO_PROMOTION then
       (let em1 = em\<lparr>promotion_timer := promotion_timer em - 1\<rparr>
        in if promotion_timer em \<le> 0 then promoted em1 else em1)
     else if status em = PAUSED then em\<lparr>timeout_timer := timeout_timer em - 1\<rparr>
     else if rescuers_not_done_yet em \<le> 0 then em\<lparr>status := COMPLETED, cond := cond em + 1\<rparr>
     else if rescuers_not_arrived_yet em \<le> 0 \<and> status em = ASSIGNED then em\<lparr>status := IN_PROGRESS\<rparr>
     else em)"

lemma update_active_emergency_state:
  "update_active_emergency_state (Some e) s = Inr (set_emg e (active_next (emg_at s e)) s)"
  "update_active_emergency_state None s = Inr s"
  by (simp_all add: update_active_emergency_state_def active_next_def Let_def)

text \<open>A change of status, timers, priority or signals keeps the invariant.\<close>

definition same_links :: "emergency \<Rightarrow> emergency \<Rightarrow> bool" where
  "same_links em em' \<longleftrightarrow> eid em' = eid em \<and> etype em' = etype em \<and> rescuer_count em' = rescuer_count em
     \<and> rescuers_missing em' = rescuers_missing em \<and> rescuer_twins em' = rescuer_twins em
     \<and> rescuers_not_arrived_yet em' = rescuers_not_arrived_yet em
     \<and> rescuers_not_done_yet em' = rescuers_not_done_yet em
     \<and> emg_x em' = emg_x em \<and> emg_y em' = emg_y em"

lemma same_links_refl [simp]: "same_links em em"
  by (simp add: same_links_def)

lemma same_links_trans: "same_links a b \<Longrightarrow> same_links b c \<Longrightarrow> same_links a c"
  by (simp add: same_links_def)

lemma active_next_links: "same_links em (active_next em)"
  by (simp add: same_links_def active_next_def promoted_def Let_def)

lemma same_links_inv:
  assumes "same_links em em'"
  shows "requests_inv s em' = requests_inv s em" "slots_inv s D e em' = slots_inv s D e em"
    "counts_inv s em' m = counts_inv s em m" "missing em' = missing em" "active_twins em' = active_twins em"
  using assms
  by (simp_all add: same_links_def requests_inv_def slots_inv_def counts_inv_def missing_def active_twins_def wanted_def)

lemma server_inv_same_links:
  assumes inv: "server_inv s" and same: "\<And>e. same_links (emg_at s e) (emg_at s' e)"
    and fr: "twin_at s' = twin_at s" "emg_brk s' = emg_brk s" "rescuer_types s' = rescuer_types s"
  shows "server_inv s'"
proof -
  note L = same_links_inv [OF same]
  have k: "known s' = known s" using fr by (simp add: known_def fun_eq_iff)
  have r: "requests_inv s' = requests_inv s" using fr by (intro ext requests_inv_types)
  have sl: "slots_inv s' = slots_inv s" using fr by (intro ext) (simp only: slots_inv_def k)
  have "en_route s' = en_route s" using fr by (intro ext) (simp only: en_route_def)
  then have c: "counts_inv s' = counts_inv s" by (intro ext) (simp only: counts_inv_def)
  have ty: "types_inv s' = types_inv s"
    using fr k by (simp add: types_inv_def type_ok_def twin_ok_def)
  have "eid (emg_at s' e) = eid (emg_at s e)" for e using same [of e] by (simp add: same_links_def)
  then show ?thesis using inv
    unfolding server_inv_def links_inv_def k r sl c ty L fr by simp
qed

lemma courses_inv_same_links:
  assumes "courses_inv s" and same: "\<And>e. same_links (emg_at s e) (emg_at s' e)"
    and fr: "twin_at s' = twin_at s" "emg_brk s' = emg_brk s" "rescuer_types s' = rescuer_types s"
      "env_width s' = env_width s" "env_height s' = env_height s"
  shows "courses_inv s'"
proof -
  have k: "known s' = known s" "in_map s' = in_map s" using fr by (simp_all add: known_def in_map_def fun_eq_iff)
  have pos: "emg_x (emg_at s' e) = emg_x (emg_at s e)" "emg_y (emg_at s' e) = emg_y (emg_at s e)" for e
    using same [of e] by (simp_all add: same_links_def)
  have "on_course s' = on_course s" by (intro ext) (simp only: on_course_def k pos)
  then show ?thesis using assms(1) unfolding courses_inv_def k pos fr by simp
qed

text \<open>The pass steps every emergency in a slot once.\<close>

lemma active_pass:
  assumes "n \<le> length (slots s)" and "distinct (filter (\<lambda>c. c \<noteq> None) (take n (slots s)))"
  shows "rfold (\<lambda>i s. rbind (arr_get (slots s) (int i)) (\<lambda>ep. update_active_emergency_state ep s)) [0..<n] s
    = Inr (s\<lparr>emg_at := \<lambda>e. if Some e \<in> set (take n (slots s)) then active_next (emg_at s e) else emg_at s e\<rparr>)"
  using assms
proof (induction n)
  case (Suc n)
  let ?h = "\<lambda>e. if Some e \<in> set (take n (slots s)) then active_next (emg_at s e) else emg_at s e"
  have tk: "take (Suc n) (slots s) = take n (slots s) @ [slots s ! n]"
    using Suc.prems(1) by (simp add: take_Suc_conv_app_nth)
  have d: "distinct (filter (\<lambda>c. c \<noteq> None) (take n (slots s)))" using Suc.prems(2) unfolding tk by simp
  have IH: "rfold (\<lambda>i s. rbind (arr_get (slots s) (int i)) (\<lambda>ep. update_active_emergency_state ep s)) [0..<n] s
      = Inr (s\<lparr>emg_at := ?h\<rparr>)" using Suc.IH d Suc.prems(1) by simp
  have c: "arr_get (slots (s\<lparr>emg_at := ?h\<rparr>)) (int n) = Inr (slots s ! n)" using Suc.prems(1) by simp
  have "update_active_emergency_state (slots s ! n) (s\<lparr>emg_at := ?h\<rparr>)
      = Inr (s\<lparr>emg_at := \<lambda>e. if Some e \<in> set (take (Suc n) (slots s)) then active_next (emg_at s e) else emg_at s e\<rparr>)"
  proof (cases "slots s ! n")
    case None
    then show ?thesis by (simp add: update_active_emergency_state(2) tk)
  next
    case (Some e)
    then have "Some e \<notin> set (take n (slots s))" using Suc.prems(2) unfolding tk by auto
    then have "?h(e := active_next (?h e))
        = (\<lambda>x. if Some x \<in> set (take (Suc n) (slots s)) then active_next (emg_at s x) else emg_at s x)"
      using Some by (auto simp: tk fun_eq_iff)
    then show ?thesis unfolding Some update_active_emergency_state(1) set_emg_def by simp
  qed
  then show ?case using IH c by (simp add: rfold_append)
qed simp

text \<open>How a pass may change the status of an emergency.\<close>

definition status_step :: "emergency \<Rightarrow> emergency \<Rightarrow> bool" where
  "status_step em em' \<longleftrightarrow>
     status em' = status em
     \<or> status em = ASSIGNED \<and> status em' = IN_PROGRESS \<and> rescuers_not_arrived_yet em \<le> 0
     \<or> status em \<noteq> PAUSED \<and> status em' = COMPLETED \<and> rescuers_not_done_yet em \<le> 0 \<and> cond em < cond em'"

lemma active_next_status: "status_step em (active_next em)"
  by (simp add: status_step_def active_next_def promoted_def Let_def)

lemma active_next_completes:
  assumes "promotion_timer em = NO_PROMOTION" and "status em \<noteq> PAUSED" and "rescuers_not_done_yet em \<le> 0"
  shows "status (active_next em) = COMPLETED \<and> cond (active_next em) = cond em + 1"
  using assms by (simp add: active_next_def)

lemma active_next_paused: "status em = PAUSED \<Longrightarrow> status (active_next em) = PAUSED"
  by (simp add: active_next_def promoted_def Let_def)

text \<open>A consistent emergency is completed only when every rescuer has come and gone.\<close>

lemma nobody_left:
  assumes "server_inv s" and "e < emg_brk s" and "rescuers_not_done_yet (emg_at s e) \<le> 0"
  shows "missing (emg_at s e) = 0 \<and> set (active_twins (emg_at s e)) \<subseteq> {None}
    \<and> (\<forall>t. known s t \<longrightarrow> emergency (twin_at s t) \<noteq> Some e)"
proof -
  have l: "links_inv s {} (\<lambda>e. missing (emg_at s e))" using assms(1) by (simp add: server_inv_def)
  have "missing (emg_at s e) = 0" "count_if (\<lambda>c. c \<noteq> None) (active_twins (emg_at s e)) = 0"
    using links_invD(4) [OF l assms(2)] assms(3) by (simp_all add: counts_inv_def)
  moreover from this(2) have "set (active_twins (emg_at s e)) \<subseteq> {None}" by (auto simp: count_if_0_iff)
  ultimately show ?thesis using links_invD(6) [OF l] by auto
qed

section \<open>One tick\<close>

lemma after_tick_links: "same_links em (after_tick em)"
  by (simp add: same_links_def after_tick_def aged_def promoted_def Let_def)

lemma worked_on_links:
  assumes "worked_on em em'"
  shows "status em' = status em \<and> cond em' = cond em \<and> timeout_timer em' = timeout_timer em
    \<and> promotion_timer em' = promotion_timer em \<and> rescuers_not_arrived_yet em' \<le> rescuers_not_arrived_yet em
    \<and> rescuers_not_done_yet em' \<le> rescuers_not_done_yet em"
  using assms by (auto simp: worked_on_def)

text \<open>The states in which the updater works: nobody holds the locks, the queues are in order.\<close>

definition updater_ready :: "server \<Rightarrow> bool" where
  "updater_ready s \<longleftrightarrow> server_inv s \<and> courses_inv s
     \<and> rescuer_types_count s \<le> int (length (rescuer_types s))
     \<and> distinct (filter (\<lambda>c. c \<noteq> None) (take (nat (rescuer_types_count s)) (rescuer_types s)))
     \<and> length (slots s) = WORKER_THREADS_NUMBER \<and> distinct (filter (\<lambda>c. c \<noteq> None) (slots s))
     \<and> \<not> rescuers_mutex s \<and> \<not> emergencies_mutex s
     \<and> lq_inv (emergency_queue s) \<and> \<not> lq_closed (emergency_queue s)
     \<and> lq_inv (canceled_emergencies s) \<and> \<not> lq_closed (canceled_emergencies s)
     \<and> distinct (lq_items (emergency_queue s))
     \<and> (\<forall>e \<in> set (lq_items (emergency_queue s)). Some e \<notin> set (slots s))"

text \<open>What a tick leaves as it is.\<close>

definition tick_frame :: "server \<Rightarrow> server \<Rightarrow> bool" where
  "tick_frame s s' \<longleftrightarrow> (\<exists>q c ta ea. s' = s\<lparr>emergency_queue := q, canceled_emergencies := c, twin_at := ta, emg_at := ea\<rparr>)"

lemma updater_tick_total:
  assumes "updater_ready s"
  shows "\<exists>s'. updater_tick s = Inr s' \<and> updater_ready s' \<and> tick_frame s s'
    \<and> (\<forall>t \<in> set (fleet s). ticked s (twin_at s t) (twin_at s' t))
    \<and> (\<forall>e. Some e \<in> set (slots s) \<longrightarrow> (\<exists>em. worked_on (emg_at s e) em \<and> emg_at s' e = active_next em))
    \<and> mset (lq_items (emergency_queue s')) + mset (lq_items (canceled_emergencies s'))
      = mset (lq_items (emergency_queue s)) + mset (lq_items (canceled_emergencies s))
    \<and> (\<forall>e \<in> set (lq_items (emergency_queue s')). \<not> emergency_has_expired s' e \<and> \<not> emergency_is_to_promote s' e)"
proof -
  note r = assms [unfolded updater_ready_def]
  let ?s1 = "locked s"
  have lk: "lock_system s = Inr ?s1" using r locked_frame(5) by blast
  have inv1: "server_inv ?s1" using server_inv_frame [OF locked_frame(1-4) [of s]] r by blast
  have crs1: "courses_inv ?s1" by (rule courses_inv_same_links [of s]) (use r in \<open>simp_all add: locked_def\<close>)
  have ty: "rescuer_types_count ?s1 \<le> int (length (rescuer_types ?s1))"
    "distinct (filter (\<lambda>c. c \<noteq> None) (take (nat (rescuer_types_count ?s1)) (rescuer_types ?s1)))"
    using r by (simp_all add: locked_def)
  from update_rescuers_tick [OF inv1 crs1 ty] obtain s2 where s2: "update_rescuers_states ?s1 = Inr s2"
    "server_inv s2" "courses_inv s2" "twins_frame (set (fleet ?s1)) ?s1 s2"
    "\<forall>t \<in> set (fleet ?s1). ticked ?s1 (twin_at ?s1 t) (twin_at s2 t)" unfolding all_ticked_def by blast
  obtain ta ea where s2_eq: "s2 = ?s1\<lparr>twin_at := ta, emg_at := ea\<rparr>" using s2(4) unfolding twins_frame_def by blast
  have wo: "worked_on (emg_at s e) (ea e)" for e
    using s2(4) locked_frame(2) unfolding twins_frame_def s2_eq by simp
  define ea' where "ea' = (\<lambda>e. if Some e \<in> set (slots s) then active_next (ea e) else ea e)"
  have len: "length (slots s) = 10" using r by (simp add: WORKER_THREADS_NUMBER_def)
  have sl: "slots s2 = slots s" by (simp add: s2_eq locked_def)
  have act: "update_active_emergencies_states s2 = Inr (s2\<lparr>emg_at := ea'\<rparr>)"
  proof -
    have tk: "take WORKER_THREADS_NUMBER (slots s2) = slots s" "WORKER_THREADS_NUMBER \<le> length (slots s2)"
      using len sl by (simp_all add: WORKER_THREADS_NUMBER_def)
    have e2: "emg_at s2 = ea" by (simp add: s2_eq)
    have "distinct (filter (\<lambda>c. c \<noteq> None) (take WORKER_THREADS_NUMBER (slots s2)))" unfolding tk using r by blast
    from active_pass [OF tk(2) this] show ?thesis
      unfolding update_active_emergencies_states_def ea'_def tk(1) e2 .
  qed
  define s4 where "s4 = s\<lparr>twin_at := ta, emg_at := ea'\<rparr>"
  have s4: "unlock_system (s2\<lparr>emg_at := ea'\<rparr>) = s4"
    using r by (simp add: s4_def s2_eq unlock_system_def locked_def)
  have sml: "same_links (emg_at s2 e) (emg_at s4 e)" for e
    by (simp add: s4_def s2_eq ea'_def active_next_links)
  have inv4: "server_inv s4"
    using s2(2) sml by (rule server_inv_same_links) (simp_all add: s4_def s2_eq locked_def)
  have crs4: "courses_inv s4"
    using s2(3) sml by (rule courses_inv_same_links) (simp_all add: s4_def s2_eq locked_def)
  define W where "W = set (lq_items (emergency_queue s4))"
  have q4: "emergency_queue s4 = emergency_queue s" "canceled_emergencies s4 = canceled_emergencies s"
    by (simp_all add: s4_def)
  have "lq_inv (emergency_queue s4)" "lq_inv (canceled_emergencies s4)" "\<not> lq_closed (emergency_queue s4)"
    "\<not> lq_closed (canceled_emergencies s4)" "distinct (lq_items (emergency_queue s4))"
    using r unfolding q4 by blast+
  from waiting_pass_total [OF this W_def refl] obtain q c where
    wt: "rbind (remove_expired_waiting_emergencies (update_waiting_emergencies_states s4))
        promote_needing_waiting_emergencies
      = Inr (s4\<lparr>emergency_queue := q, canceled_emergencies := c,
          emg_at := \<lambda>e. if e \<in> W then after_tick (emg_at s4 e) else emg_at s4 e\<rparr>)"
    and q: "lq_inv q" "\<not> lq_closed q" "lq_inv c" "\<not> lq_closed c" and dq: "distinct (lq_items q)"
    and qW: "set (lq_items q) = W - {e \<in> W. runs_out (aged (emg_at s4 e))}"
    and qM: "mset (lq_items q) + mset (lq_items c) = mset (lq_items (emergency_queue s4)) + mset (lq_items (canceled_emergencies s4))"
    by blast
  define s' where "s' = s4\<lparr>emergency_queue := q, canceled_emergencies := c,
          emg_at := \<lambda>e. if e \<in> W then after_tick (emg_at s4 e) else emg_at s4 e\<rparr>"
  have run: "updater_tick s = Inr s'"
    using lk s2(1) act s4 wt by (simp add: updater_tick_def s'_def Let_def)
  have sml': "same_links (emg_at s4 e) (emg_at s' e)" for e by (simp add: s'_def after_tick_links)
  have inv': "server_inv s'" "courses_inv s'"
    using server_inv_same_links [OF inv4 sml'] courses_inv_same_links [OF crs4 sml'] by (simp_all add: s'_def)
  have fr: "tick_frame s s'" unfolding tick_frame_def
    by (rule exI [of _ q], rule exI [of _ c], rule exI [of _ ta], rule exI [of _ "emg_at s'"])
      (intro server.equality; simp add: s'_def s4_def)
  have Wq: "W = set (lq_items (emergency_queue s))" unfolding W_def q4 ..
  have rd: "updater_ready s'"
    using inv' r q(1-4) qW dq Wq unfolding updater_ready_def by (auto simp: s'_def s4_def simp del: set_drain)
  have slots: "\<exists>em. worked_on (emg_at s e) em \<and> emg_at s' e = active_next em" if "Some e \<in> set (slots s)" for e
  proof -
    have "e \<notin> W" using r that Wq by blast
    then have "emg_at s' e = active_next (ea e)" using that by (simp add: s'_def s4_def ea'_def)
    then show ?thesis using wo by blast
  qed
  have tk: "ticked s (twin_at s t) (twin_at s' t)" if "t \<in> set (fleet s)" for t
  proof -
    have "fleet ?s1 = fleet s" "scene_step ?s1 = scene_step s"
      by (simp_all add: fleet_def locked_def scene_step_def fun_eq_iff)
    moreover from this(2) have "ticked ?s1 = ticked s" by (intro ext) (simp only: ticked_def)
    ultimately show ?thesis using s2(5) that by (simp add: s'_def s4_def s2_eq locked_frame)
  qed
  have fine: "\<not> emergency_has_expired s' e \<and> \<not> emergency_is_to_promote s' e"
    if "e \<in> set (lq_items (emergency_queue s'))" for e
    using that qW after_tick_fine [of "emg_at s4 e"]
    by (auto simp: expired_iff to_promote_iff s'_def simp del: set_drain)
  have M: "mset (lq_items (emergency_queue s')) + mset (lq_items (canceled_emergencies s'))
      = mset (lq_items (emergency_queue s)) + mset (lq_items (canceled_emergencies s))"
    using qM q4 by (simp add: s'_def)
  show ?thesis using run rd fr tk slots M fine by blast
qed

text \<open>
  C18. One whole tick of the updater. From a consistent state in which the locks are free, the
  tick ends without a memory error, a deadlock or a shutdown request and leaves a state of the
  same kind: every rescuer has ticked once; an emergency in a slot went from \<open>ASSIGNED\<close> to
  \<open>IN_PROGRESS\<close> only when all its rescuers had arrived, was completed, and its worker
  signalled, only when it was not paused and all its rescuers were done, and otherwise kept its
  status; of the waiting and the canceled emergencies none was lost or doubled, and none left
  waiting is over time or due for promotion.
\<close>

theorem updater_tick_correct:
  assumes "updater_ready s"
  shows "\<exists>s'. updater_tick s = Inr s' \<and> updater_ready s'
    \<and> slots s' = slots s \<and> completed_emergencies s' = completed_emergencies s
    \<and> server_must_stop s' = server_must_stop s \<and> stop_messages s' = stop_messages s
    \<and> (\<forall>t \<in> set (fleet s). ticked s (twin_at s t) (twin_at s' t))
    \<and> (\<forall>e. Some e \<in> set (slots s) \<longrightarrow> (\<exists>em. worked_on (emg_at s e) em \<and> status_step em (emg_at s' e)))
    \<and> mset (lq_items (emergency_queue s')) + mset (lq_items (canceled_emergencies s'))
      = mset (lq_items (emergency_queue s)) + mset (lq_items (canceled_emergencies s))
    \<and> (\<forall>e \<in> set (lq_items (emergency_queue s')). \<not> emergency_has_expired s' e \<and> \<not> emergency_is_to_promote s' e)"
proof -
  from updater_tick_total [OF assms] obtain s' where s': "updater_tick s = Inr s'" "updater_ready s'" "tick_frame s s'"
    "\<forall>t \<in> set (fleet s). ticked s (twin_at s t) (twin_at s' t)"
    "\<forall>e. Some e \<in> set (slots s) \<longrightarrow> (\<exists>em. worked_on (emg_at s e) em \<and> emg_at s' e = active_next em)"
    "mset (lq_items (emergency_queue s')) + mset (lq_items (canceled_emergencies s'))
      = mset (lq_items (emergency_queue s)) + mset (lq_items (canceled_emergencies s))"
    "\<forall>e \<in> set (lq_items (emergency_queue s')). \<not> emergency_has_expired s' e \<and> \<not> emergency_is_to_promote s' e"
    by blast
  have "\<exists>em. worked_on (emg_at s e) em \<and> status_step em (emg_at s' e)" if "Some e \<in> set (slots s)" for e
    using s'(5) that active_next_status by metis
  moreover have "slots s' = slots s" "completed_emergencies s' = completed_emergencies s"
    "server_must_stop s' = server_must_stop s" "stop_messages s' = stop_messages s"
    using s'(3) by (auto simp: tick_frame_def)
  ultimately show ?thesis using s'(1,2,4,6,7) by blast
qed

text \<open>The sample server with the big fire still waiting.\<close>

definition tick_server :: server where
  "tick_server = sample_server\<lparr>slots := Some 0 # replicate 9 None, emergency_queue := lq_push (lq_create 3) 1 2\<rparr>"

lemma tick_server_ready: "updater_ready tick_server"
proof -
  have s: "server_inv tick_server"
    using server_inv_frame [of tick_server sample_server] sample_server_inv(1) by (simp add: tick_server_def)
  have c: "courses_inv tick_server"
    by (rule courses_inv_same_links [OF sample_courses(1)]) (simp_all add: tick_server_def)
  have q: "lq_inv (lq_push (lq_create 3) (1 :: nat) 2)" "lq_inv (lq_create 3)" "lq_items (lq_push (lq_create 3) 1 2) = [1 :: nat]"
    "\<not> lq_closed (lq_push (lq_create 3) (1 :: nat) 2)" "\<not> lq_closed (lq_create 3)"
    by code_simp+
  show ?thesis unfolding updater_ready_def
    using s c q by (simp add: tick_server_def sample_server_def WORKER_THREADS_NUMBER_def)
qed

theorem updater_tick_correct_witness:
  "\<exists>s'. updater_tick tick_server = Inr s' \<and> updater_ready s' \<and> time_left_before_leaving (twin_at s' 1) = 1
    \<and> slots s' = slots tick_server"
proof -
  from updater_tick_correct [OF tick_server_ready] obtain s' where s': "updater_tick tick_server = Inr s'"
    "updater_ready s'" "slots s' = slots tick_server"
    "\<forall>t \<in> set (fleet tick_server). ticked tick_server (twin_at tick_server t) (twin_at s' t)" by blast
  have "fleet tick_server = [0, 1]" using sample_courses(2) by (simp add: fleet_def tick_server_def)
  then have "ticked tick_server (twin_at tick_server 1) (twin_at s' 1)" using s'(4) by simp
  moreover have "twin_at tick_server 1 = sample_twin 1" by (simp add: tick_server_def sample_server_def)
  ultimately show ?thesis using s'(1-3) by (auto simp: ticked_def sample_twin_def)
qed

end
