(* ===== verification/Worker.thy ===== *)
theory Worker
  imports Dispatch_Correct Shutdown
begin

text \<open>
  A worker thread of \<^verbatim>\<open>thread_worker.c\<close>: its operations on its slot, and its body as a state
  machine whose steps are the pieces between two points at which other threads may run. A step
  that has to wait, in a pop from an open empty queue or on the condition variable, has no
  result yet (\<open>None\<close>).
\<close>

section \<open>Slots\<close>

definition open_slot :: "int \<Rightarrow> emg_ptr \<Rightarrow> server \<Rightarrow> server res" where
  "open_slot i e s =
     rbind (lock_emergencies s) (\<lambda>s1.
     rbind (arr_set (slots s1) i (Some e)) (\<lambda>sl.
     let s2 = s1\<lparr>slots := sl\<rparr>;
         s3 = set_emg e ((emg_at s2 e)\<lparr>status := ASSIGNED\<rparr>) s2
     in Inr (unlock_emergencies s3)))"

definition close_slot_blocked :: "int \<Rightarrow> server \<Rightarrow> server res" where
  "close_slot_blocked i s = rbind (arr_set (slots s) i None) (\<lambda>sl. Inr (s\<lparr>slots := sl\<rparr>))"

definition close_slot :: "int \<Rightarrow> server \<Rightarrow> server res" where
  "close_slot i s =
     rbind (lock_emergencies s) (\<lambda>s1.
     rbind (arr_set (slots s1) i None) (\<lambda>sl.
     Inr (unlock_emergencies (s1\<lparr>slots := sl\<rparr>))))"

text \<open>The two queues of finished emergencies, as a pointer that may be \<open>NULL\<close>.\<close>

datatype final_queue = Completed_Queue | Canceled_Queue

definition push_final :: "final_queue \<Rightarrow> emg_ptr \<Rightarrow> int \<Rightarrow> server \<Rightarrow> server" where
  "push_final q e l s =
    (case q of
       Completed_Queue \<Rightarrow> s\<lparr>completed_emergencies := lq_push (completed_emergencies s) e l\<rparr>
     | Canceled_Queue \<Rightarrow> s\<lparr>canceled_emergencies := lq_push (canceled_emergencies s) e l\<rparr>)"

definition change_status_store_close ::
  "int \<Rightarrow> emg_ptr option \<Rightarrow> emergency_status \<Rightarrow> final_queue option \<Rightarrow> server \<Rightarrow> server res" where
  "change_status_store_close i ep news qp s =
    (case ep of
       None \<Rightarrow> Inr s
     | Some e \<Rightarrow> (case qp of
         None \<Rightarrow> Inr s
       | Some q \<Rightarrow>
           rbind (lock_emergencies s) (\<lambda>s1.
           let s2 = set_emg e ((emg_at s1 e)\<lparr>status := news\<rparr>) s1
           in rbind (priority_to_level (priority (emg_at s2 e))) (\<lambda>l.
              rbind (close_slot_blocked i (push_final q e l s2)) (\<lambda>s4.
              Inr (unlock_emergencies s4))))))"

section \<open>The thread\<close>

text \<open>The place a worker takes; it asks for a shutdown when there is none left, and goes on.\<close>

definition worker_start :: "server \<Rightarrow> (int \<times> server) res" where
  "worker_start s =
    (let index = next_tw_index s;
         s1 = s\<lparr>next_tw_index := index + 1\<rparr>
     in rbind (if index \<ge> int WORKER_THREADS_NUMBER
               then log_error_and_exit request_shutdown_from_thread s1 else Inr s1) (\<lambda>s2.
        Inr (index, s2)))"

text \<open>
  Where a worker is: at the outer loop's test, in the pop, before \<open>open_slot\<close>, at the inner loop's
  test, in the search, after a search that failed, in the wait, after it, after the inner loop,
  or at its end.
\<close>

datatype worker_pc =
    Looping
  | Popping
  | Opening emg_ptr
  | Trying emg_ptr
  | Searching emg_ptr
  | Unserved emg_ptr
  | Waiting emg_ptr
  | Woken emg_ptr
  | Leaving emg_ptr
  | Gone

definition wait_over :: "server \<Rightarrow> emg_ptr \<Rightarrow> bool" where
  "wait_over s e \<longleftrightarrow> \<not> (status (emg_at s e) \<noteq> PAUSED \<and> status (emg_at s e) \<noteq> COMPLETED \<and> \<not> server_must_stop s)"

fun worker_step :: "int \<Rightarrow> worker_pc \<Rightarrow> server \<Rightarrow> (worker_pc \<times> server) option res" where
  "worker_step i Looping s = Inr (Some (if \<not> server_must_stop s then Popping else Gone, s))"
| "worker_step i Popping s =
    (case lq_pop (emergency_queue s) of
       None \<Rightarrow> Inr None
     | Some (None, q) \<Rightarrow> Inr (Some (Gone, s\<lparr>emergency_queue := q\<rparr>))
     | Some (Some e, q) \<Rightarrow> Inr (Some (Opening e, s\<lparr>emergency_queue := q\<rparr>)))"
| "worker_step i (Opening e) s = rbind (open_slot i e s) (\<lambda>s'. Inr (Some (Trying e, s')))"
| "worker_step i (Trying e) s = Inr (Some (if \<not> server_must_stop s then Searching e else Leaving e, s))"
| "worker_step i (Searching e) s =
     rbind (find_rescuers e s) (\<lambda>(found, s'). Inr (Some (if \<not> found then Unserved e else Waiting e, s')))"
| "worker_step i (Unserved e) s =
     rbind (change_status_store_close i (Some e) TIMEOUT (Some Canceled_Queue) s) (\<lambda>s'.
       Inr (Some (Leaving e, s')))"
| "worker_step i (Waiting e) s =
     rbind (lock_emergencies s) (\<lambda>s1.
       if \<not> wait_over s1 e then Inr None else Inr (Some (Woken e, unlock_emergencies s1)))"
| "worker_step i (Woken e) s =
    (if server_must_stop s then Inr (Some (Leaving e, s))
     else if status (emg_at s e) = PAUSED then Inr (Some (Trying e, s))
     else
       rbind (if status (emg_at s e) = COMPLETED
              then change_status_store_close i (Some e) (status (emg_at s e)) (Some Completed_Queue) s
              else Inr s) (\<lambda>s1.
       rbind (if status (emg_at s1 e) = CANCELED
              then change_status_store_close i (Some e) (status (emg_at s1 e)) (Some Canceled_Queue) s1
              else Inr s1) (\<lambda>s2.
       Inr (Some (Leaving e, s2)))))"
| "worker_step i (Leaving e) s =
    (if server_must_stop s then
       rbind (change_status_store_close i (Some e) CANCELED (Some Canceled_Queue) s) (\<lambda>s1.
       rbind (close_slot i s1) (\<lambda>s2. Inr (Some (Gone, s2))))
     else rbind (close_slot i s) (\<lambda>s1. Inr (Some (Looping, s1))))"
| "worker_step i Gone s = Inr None"

section \<open>Leaving\<close>

text \<open>How many own steps a worker still makes once the server must stop.\<close>

fun steps_left :: "worker_pc \<Rightarrow> nat" where
  "steps_left Looping = 1"
| "steps_left Popping = 4"
| "steps_left (Opening e) = 3"
| "steps_left (Trying e) = 2"
| "steps_left (Searching e) = 4"
| "steps_left (Unserved e) = 2"
| "steps_left (Waiting e) = 3"
| "steps_left (Woken e) = 2"
| "steps_left (Leaving e) = 1"
| "steps_left Gone = 0"

text \<open>The operations on slots succeed when the mutex is free and the index is in the array.\<close>

lemma open_slot_eq:
  assumes "\<not> emergencies_mutex s" and "0 \<le> i" "nat i < length (slots s)"
  shows "open_slot i e s = Inr (set_emg e ((emg_at s e)\<lparr>status := ASSIGNED\<rparr>) (s\<lparr>slots := (slots s)[nat i := Some e]\<rparr>))"
proof -
  have "set_emg e v (s\<lparr>emergencies_mutex := True, slots := sl\<rparr>)\<lparr>emergencies_mutex := False\<rparr>
      = set_emg e v (s\<lparr>slots := sl\<rparr>)" for v sl
    using assms(1) by (intro server.equality) (simp_all add: set_emg_def)
  then show ?thesis using assms
    by (simp add: open_slot_def lock_emergencies_def unlock_emergencies_def arr_set_def Let_def set_emg_def)
qed

lemma close_slot_eq:
  assumes "\<not> emergencies_mutex s" and "0 \<le> i" "nat i < length (slots s)"
  shows "close_slot i s = Inr (s\<lparr>slots := (slots s)[nat i := None]\<rparr>)"
proof -
  have "s\<lparr>emergencies_mutex := True, slots := sl, emergencies_mutex := False\<rparr> = s\<lparr>slots := sl\<rparr>" for sl
    using assms(1) by (intro server.equality) simp_all
  then show ?thesis using assms
    by (simp add: close_slot_def lock_emergencies_def unlock_emergencies_def arr_set_def)
qed

lemma change_status_eq:
  assumes "\<not> emergencies_mutex s" and "0 \<le> i" "nat i < length (slots s)"
  shows "change_status_store_close i (Some e) news (Some q) s
    = Inr (push_final q e (the_level (priority (emg_at s e)))
        (set_emg e ((emg_at s e)\<lparr>status := news\<rparr>) (s\<lparr>slots := (slots s)[nat i := None]\<rparr>)))"
proof -
  have "unlock_emergencies ((push_final q e l (set_emg e v (s\<lparr>emergencies_mutex := True\<rparr>)))\<lparr>slots := sl\<rparr>)
      = push_final q e l (set_emg e v (s\<lparr>slots := sl\<rparr>))" for l v sl
    using assms(1) by (intro server.equality)
      (simp_all add: unlock_emergencies_def push_final_def set_emg_def split: final_queue.splits)
  moreover have "slots (push_final q e l (set_emg e v (s\<lparr>emergencies_mutex := True\<rparr>))) = slots s" for l v
    by (simp add: push_final_def set_emg_def split: final_queue.splits)
  ultimately show ?thesis using assms
    by (simp add: change_status_store_close_def close_slot_blocked_def lock_emergencies_def arr_set_def Let_def)
qed

text \<open>The states in which the server is stopping and worker \<open>i\<close> may run.\<close>

definition stopping :: "int \<Rightarrow> server \<Rightarrow> bool" where
  "stopping i s \<longleftrightarrow> server_must_stop s \<and> lq_closed (emergency_queue s) \<and> lq_inv (emergency_queue s)
     \<and> \<not> rescuers_mutex s \<and> \<not> emergencies_mutex s \<and> 0 \<le> i \<and> nat i < length (slots s)"

lemma stopping_frame:
  "stopping i s \<Longrightarrow> stopping i (set_emg e v s)" "stopping i s \<Longrightarrow> stopping i (push_final q e l s)"
  "stopping i s \<Longrightarrow> stopping i (s\<lparr>slots := (slots s)[k := c]\<rparr>)"
  by (simp_all add: stopping_def set_emg_def push_final_def split: final_queue.splits)

lemma stopping_pop:
  assumes "stopping i s"
  shows "(\<exists>q. lq_pop (emergency_queue s) = Some (None, q) \<and> stopping i (s\<lparr>emergency_queue := q\<rparr>))
    \<or> (\<exists>e q. lq_pop (emergency_queue s) = Some (Some e, q) \<and> stopping i (s\<lparr>emergency_queue := q\<rparr>))"
  using assms extract_level_Some(5) [of "\<lambda>_. True" "lq_levels (emergency_queue s)"]
  by (auto simp: lq_pop_def stopping_def lq_inv_def split: option.splits simp flip: length_greater_0_conv)

text \<open>A step of a worker while the server is stopping, outside the search for rescuers.\<close>

lemma stopping_step:
  assumes "stopping i s" and "pc \<noteq> Gone" and "\<And>e. pc \<noteq> Searching e"
  shows "\<exists>pc' s'. worker_step i pc s = Inr (Some (pc', s')) \<and> stopping i s' \<and> steps_left pc' < steps_left pc
    \<and> (\<forall>e. pc' \<noteq> Searching e)"
proof -
  note st = assms(1) [unfolded stopping_def]
  have stop: "server_must_stop s" "\<not> emergencies_mutex s" "0 \<le> i" "nat i < length (slots s)" using st by blast+
  note eqs = open_slot_eq [OF stop(2-4)] close_slot_eq [OF stop(2-4)] change_status_eq [OF stop(2-4)]
  show ?thesis
  proof (cases pc)
    case Looping
    then show ?thesis using assms(1) stop(1) by simp
  next
    case Popping
    from stopping_pop [OF assms(1)] show ?thesis using Popping by auto
  next
    case (Opening e)
    have "stopping i (set_emg e ((emg_at s e)\<lparr>status := ASSIGNED\<rparr>) (s\<lparr>slots := (slots s)[nat i := Some e]\<rparr>))"
      by (intro stopping_frame assms(1))
    then show ?thesis using Opening eqs(1) by simp
  next
    case (Trying e)
    then show ?thesis using assms(1) stop(1) by simp
  next
    case (Searching e)
    then show ?thesis using assms(3) by blast
  next
    case (Unserved e)
    show ?thesis using Unserved eqs(3) stopping_frame [OF assms(1)] stopping_frame
      by (simp add: stopping_frame assms(1))
  next
    case (Waiting e)
    have "unlock_emergencies (s\<lparr>emergencies_mutex := True\<rparr>) = s"
      using stop(2) by (intro server.equality) (simp_all add: unlock_emergencies_def)
    then show ?thesis using Waiting assms(1) stop(1,2) by (simp add: lock_emergencies_def wait_over_def)
  next
    case (Woken e)
    then show ?thesis using assms(1) stop(1) by simp
  next
    case (Leaving e)
    let ?s1 = "push_final Canceled_Queue e (the_level (priority (emg_at s e)))
        (set_emg e ((emg_at s e)\<lparr>status := CANCELED\<rparr>) (s\<lparr>slots := (slots s)[nat i := None]\<rparr>))"
    have s1: "stopping i ?s1" by (intro stopping_frame assms(1))
    then have "close_slot i ?s1 = Inr (?s1\<lparr>slots := (slots ?s1)[nat i := None]\<rparr>)"
      unfolding stopping_def by (intro close_slot_eq) blast+
    moreover have "stopping i (?s1\<lparr>slots := (slots ?s1)[nat i := None]\<rparr>)" by (rule stopping_frame(3) [OF s1])
    ultimately show ?thesis using Leaving eqs(3) stop(1) by simp
  next
    case Gone
    then show ?thesis using assms(2) by blast
  qed
qed

text \<open>A worker left to itself for a number of steps.\<close>

fun worker_run :: "nat \<Rightarrow> int \<Rightarrow> worker_pc \<Rightarrow> server \<Rightarrow> (worker_pc \<times> server) res" where
  "worker_run 0 i pc s = Inr (pc, s)"
| "worker_run (Suc n) i pc s =
     rbind (worker_step i pc s) (\<lambda>r. case r of None \<Rightarrow> Inr (pc, s) | Some (pc', s') \<Rightarrow> worker_run n i pc' s')"

lemma stopping_run:
  assumes "stopping i s" and "\<And>e. pc \<noteq> Searching e" and "steps_left pc \<le> n"
  shows "\<exists>s'. worker_run n i pc s = Inr (Gone, s') \<and> stopping i s'"
  using assms
proof (induction n arbitrary: pc s)
  case 0
  then show ?case by (cases pc) auto
next
  case (Suc n)
  show ?case
  proof (cases "pc = Gone")
    case True
    then show ?thesis using Suc.prems(1) by simp
  next
    case False
    from stopping_step [OF Suc.prems(1) False Suc.prems(2)] obtain pc' s' where
      st: "worker_step i pc s = Inr (Some (pc', s'))" "stopping i s'" "steps_left pc' < steps_left pc" "\<forall>e. pc' \<noteq> Searching e"
      by blast
    then show ?thesis using Suc.IH [of s' pc'] Suc.prems(3) by simp
  qed
qed



end
