(* ===== verification/Sscanf.thy ===== *)
theory Sscanf
  imports C_Strings
begin

text \<open>
  The standard function \<^verbatim>\<open>sscanf\<close>, as far as the formats of \<^verbatim>\<open>parsers.h\<close> use it. A
  conversion into a buffer carries the size of the buffer: the terminator is written after the
  characters read, so a width equal to the size overflows the buffer by one, which is
  \<open>OutOfBounds\<close>. A number that its type cannot represent is undefined (\<open>SignedOverflow\<close>).
\<close>

section \<open>Formats\<close>

datatype directive =
    Lit char
  | White
  | Set_Conv nat nat "char \<Rightarrow> bool"
  | Skip_Set "char \<Rightarrow> bool"
  | Str_Conv nat nat
  | Int_Conv
  | Short_Conv
  | Unsigned_Conv

datatype scanned = Scanned_String string | Scanned_Int int

fun take_upto :: "nat \<Rightarrow> (char \<Rightarrow> bool) \<Rightarrow> string \<Rightarrow> string \<times> string" where
  "take_upto 0 P s = ([], s)"
| "take_upto (Suc n) P [] = ([], [])"
| "take_upto (Suc n) P (c # s) =
     (if P c then (let (a, b) = take_upto n P s in (c # a, b)) else ([], c # s))"

definition is_digit :: "char \<Rightarrow> bool" where
  "is_digit c \<longleftrightarrow> 48 \<le> (of_char c :: nat) \<and> of_char c \<le> (57::nat)"

definition digits_value :: "string \<Rightarrow> int" where
  "digits_value ds = foldl (\<lambda>r c. 10 * r + (int (of_char c) - 48)) 0 ds"

text \<open>White space, an optional sign and at least one digit.\<close>

definition scan_int :: "string \<Rightarrow> (int \<times> string) option" where
  "scan_int s =
    (let s1 = dropWhile isspace s;
         neg = (case s1 of c # _ \<Rightarrow> c = CHR ''-'' | [] \<Rightarrow> False);
         s2 = (case s1 of c # cs \<Rightarrow> if c = CHR ''-'' \<or> c = CHR ''+'' then cs else s1 | [] \<Rightarrow> s1);
         ds = takeWhile is_digit s2
     in if ds = [] then None
        else Some (if neg then - digits_value ds else digits_value ds, dropWhile is_digit s2))"

definition int_conv :: "int \<Rightarrow> int \<Rightarrow> string \<Rightarrow> (scanned list \<times> string) option res" where
  "int_conv lo hi s =
    (case scan_int s of
       None \<Rightarrow> Inr None
     | Some (v, r) \<Rightarrow> if v < lo \<or> hi < v then Inl SignedOverflow else Inr (Some ([Scanned_Int v], r)))"

text \<open>An unsigned conversion takes a sign too, and wraps.\<close>

definition UINT_MAX :: int where
  "UINT_MAX = 4294967295"

definition store_string :: "nat \<Rightarrow> string \<times> string \<Rightarrow> (scanned list \<times> string) option res" where
  "store_string sz = (\<lambda>(a, r).
     if a = [] then Inr None
     else if sz \<le> length a then Inl OutOfBounds
     else Inr (Some ([Scanned_String a], r)))"

text \<open>\<open>None\<close> is a matching failure, which ends the scan.\<close>

fun scan_directive :: "directive \<Rightarrow> string \<Rightarrow> (scanned list \<times> string) option res" where
  "scan_directive (Lit c) s = Inr (case s of x # xs \<Rightarrow> if x = c then Some ([], xs) else None | [] \<Rightarrow> None)"
| "scan_directive White s = Inr (Some ([], dropWhile isspace s))"
| "scan_directive (Set_Conv w sz P) s = store_string sz (take_upto w P s)"
| "scan_directive (Skip_Set P) s =
     Inr (if takeWhile P s = [] then None else Some ([], dropWhile P s))"
| "scan_directive (Str_Conv w sz) s =
     store_string sz (take_upto w (\<lambda>c. \<not> isspace c) (dropWhile isspace s))"
| "scan_directive Int_Conv s = int_conv (- INT_MAX - 1) INT_MAX s"
| "scan_directive Short_Conv s = int_conv (-32768) 32767 s"
| "scan_directive Unsigned_Conv s =
     (case int_conv (- UINT_MAX) UINT_MAX s of
        Inr (Some ([Scanned_Int v], r)) \<Rightarrow> Inr (Some ([Scanned_Int (v mod (UINT_MAX + 1))], r))
      | other \<Rightarrow> other)"

text \<open>What was assigned until the first failure; its length is the result of the call.\<close>

fun sscanf :: "directive list \<Rightarrow> string \<Rightarrow> scanned list res" where
  "sscanf [] s = Inr []"
| "sscanf (d # ds) s =
     rbind (scan_directive d s) (\<lambda>r. case r of
       None \<Rightarrow> Inr []
     | Some (vs, s') \<Rightarrow> rbind (sscanf ds s') (\<lambda>ws. Inr (vs @ ws)))"

text \<open>The literal characters of a format.\<close>

definition lits :: "string \<Rightarrow> directive list" where
  "lits s = map Lit s"

section \<open>What the directives read\<close>

lemma take_upto_append: "take_upto n P s = (a, b) \<Longrightarrow> s = a @ b \<and> length a \<le> n \<and> (\<forall>c \<in> set a. P c)"
  by (induction n P s arbitrary: a b rule: take_upto.induct) (auto split: if_splits prod.splits)

lemma take_upto_exact:
  assumes "\<forall>c \<in> set a. P c" and "length a \<le> n" and "b = [] \<or> \<not> P (hd b)"
  shows "take_upto n P (a @ b) = (a, b)"
  using assms
proof (induction a arbitrary: n)
  case Nil
  then show ?case by (cases n; cases b) auto
next
  case (Cons c a)
  then show ?case by (cases n) auto
qed

lemma digits_value_snoc: "digits_value (ds @ [c]) = 10 * digits_value ds + (int (of_char c) - 48)"
  by (simp add: digits_value_def)

lemma digits_value_of: "digits_value (digits_of n) = int n"
proof (induction n rule: digits_of.induct)
  case (1 n)
  show ?case
  proof (cases "n < 10")
    case True
    then show ?thesis by (simp add: digits_of.simps [of n] digits_value_def)
  next
    case False
    have "10 * int (n div 10) + int (n mod 10) = int n" by presburger
    moreover have "n mod 10 < 10" by simp
    then have "(of_char (char_of (48 + n mod 10) :: char) :: nat) = 48 + n mod 10" by simp
    ultimately show ?thesis using 1 [OF False] False
      by (subst digits_of.simps) (simp add: digits_value_snoc del: of_char_of)
  qed
qed

lemma length_digits_of: "n < 10 ^ Suc k \<Longrightarrow> length (digits_of n) \<le> Suc k"
proof (induction n arbitrary: k rule: digits_of.induct)
  case (1 n)
  show ?case
  proof (cases "n < 10")
    case True
    then show ?thesis by (simp add: digits_of.simps [of n])
  next
    case False
    then obtain j where j: "k = Suc j" using "1.prems" by (cases k) auto
    have "n div 10 < 10 ^ Suc j" using "1.prems" j by (simp add: div_less_iff_less_mult)
    from "1.IH" [OF False this] show ?thesis using False j by (subst digits_of.simps) simp
  qed
qed

lemma digits_of_is_digit: "\<forall>c \<in> set (digits_of n). is_digit c"
  using set_digits_of by (simp add: is_digit_def)

lemma is_digit_not:
  "is_digit c \<Longrightarrow> \<not> isspace c" "is_digit c \<Longrightarrow> c \<noteq> CHR ''-''" "is_digit c \<Longrightarrow> c \<noteq> CHR ''+''"
  by (auto simp: is_digit_def isspace_def)

text \<open>Numbers are read back, up to the first character that is no digit.\<close>

lemma scan_int_digits:
  assumes "\<forall>c \<in> set ws. isspace c" and "r = [] \<or> \<not> is_digit (hd r)"
  shows "scan_int (ws @ digits_of n @ r) = Some (int n, r)"
    and "scan_int (ws @ CHR ''-'' # digits_of n @ r) = Some (- int n, r)"
proof -
  obtain d ds where d: "digits_of n = d # ds" using digits_of_ne by (cases "digits_of n") auto
  have dd: "is_digit d" using digits_of_is_digit [of n] d by simp
  have tk: "takeWhile is_digit (digits_of n @ r) = digits_of n" "dropWhile is_digit (digits_of n @ r) = r"
    using digits_of_is_digit [of n] assms(2) by (cases r; simp add: takeWhile_append2 dropWhile_append2)+
  have skip: "dropWhile isspace (ws @ c # cs) = c # cs" if "\<not> isspace c" for c cs
    using assms(1) that by (simp add: dropWhile_append2)
  have m: "\<not> isspace (CHR ''-'')" by (simp add: isspace_def)
  show "scan_int (ws @ digits_of n @ r) = Some (int n, r)"
    using tk skip [OF is_digit_not(1) [OF dd], of "ds @ r"] is_digit_not [OF dd] digits_value_of [of n]
    by (simp add: scan_int_def d)
  show "scan_int (ws @ CHR ''-'' # digits_of n @ r) = Some (- int n, r)"
    using tk skip [OF m] digits_value_of [of n] by (simp add: scan_int_def d)
qed

lemma int_conv_digits:
  assumes "\<forall>c \<in> set ws. isspace c" and "r = [] \<or> \<not> is_digit (hd r)" and "int n \<le> hi" "lo \<le> 0"
  shows "int_conv lo hi (ws @ digits_of n @ r) = Inr (Some ([Scanned_Int (int n)], r))"
  using scan_int_digits(1) [OF assms(1,2), of n] assms(3,4) by (simp add: int_conv_def)

lemma sscanf_lits: "sscanf (lits a @ ds) (a @ s) = sscanf ds s"
  by (induction a) (simp_all add: lits_def rbind_def split: sum.splits)

text \<open>A conversion of a string into a buffer that has room for it, and into one that has not.\<close>

lemma store_string_ok: "a \<noteq> [] \<Longrightarrow> length a < sz \<Longrightarrow> store_string sz (a, r) = Inr (Some ([Scanned_String a], r))"
  by (simp add: store_string_def)

lemma store_string_overflow: "a \<noteq> [] \<Longrightarrow> sz \<le> length a \<Longrightarrow> store_string sz (a, r) = Inl OutOfBounds"
  by (simp add: store_string_def)

lemma take_upto_full:
  assumes "\<forall>c \<in> set a. P c" and "length a = n"
  shows "take_upto n P (a @ b) = (a, b)"
  using assms by (induction a arbitrary: n) (auto split: prod.splits)

lemma takeWhile_head: "b = [] \<or> \<not> P (hd b) \<Longrightarrow> takeWhile P b = [] \<and> dropWhile P b = b"
  by (cases b) auto

lemma dropWhile_sep: "\<forall>c \<in> set a. P c \<Longrightarrow> b = [] \<or> \<not> P (hd b) \<Longrightarrow> dropWhile P (a @ b) = b"
  by (cases b) (simp_all add: dropWhile_append2)

text \<open>The conversions on what they print.\<close>

lemma sscanf_set:
  assumes "a \<noteq> []" and "\<forall>c \<in> set a. P c" and "length a \<le> w" "length a < sz" and "b = [] \<or> \<not> P (hd b)"
  shows "sscanf (Set_Conv w sz P # ds) (a @ b) = rbind (sscanf ds b) (\<lambda>ws. Inr (Scanned_String a # ws))"
  using take_upto_exact [OF assms(2,3,5)] store_string_ok [OF assms(1,4)] by simp

lemma sscanf_set_overflow:
  assumes "\<forall>c \<in> set a. P c" and "length a = w" "0 < w" "sz \<le> w"
  shows "sscanf (Set_Conv w sz P # ds) (a @ b) = Inl OutOfBounds"
  using take_upto_full [OF assms(1,2)] store_string_overflow [of a sz] assms by (cases a) simp_all

lemma sscanf_int:
  assumes "int n \<le> INT_MAX" and "b = [] \<or> \<not> is_digit (hd b)"
  shows "sscanf (Int_Conv # ds) (digits_of n @ b) = rbind (sscanf ds b) (\<lambda>ws. Inr (Scanned_Int (int n) # ws))"
  using int_conv_digits [of "[]", OF _ assms(2,1)] by (simp add: INT_MAX_def)

end
