(* ===== verification/Parse_Lines.thy ===== *)
theory Parse_Lines
  imports Sscanf
begin

text \<open>
  What the three configuration parsers share, \<^verbatim>\<open>parsing_utils.c\<close>: a configuration file is the
  list of its lines, each with its newline; \<open>None\<close> is a file that cannot be opened, which ends
  the process. The parsing state holds the lines not read yet and the last one read. Messages
  are left out; each of these functions only adds some to the log.
\<close>

definition COMMENT_CHAR :: char where
  "COMMENT_CHAR = CHR ''#''"

type_synonym conf_file = "string list option"

record parsing_state =
  unread :: "string list"
  line :: "string option"
  line_number :: int
  parsed_so_far :: int
  should_continue_parsing :: bool

definition mallocate_parsing_state :: "conf_file \<Rightarrow> parsing_state res" where
  "mallocate_parsing_state fp =
    (case fp of
       None \<Rightarrow> Inl ProcessExit
     | Some ls \<Rightarrow> Inr \<lparr>unread = ls, line = None, line_number = 0, parsed_so_far = 0,
         should_continue_parsing = True\<rparr>)"

definition go_to_next_line :: "parsing_state \<Rightarrow> bool \<times> parsing_state" where
  "go_to_next_line ps =
    (case unread ps of
       [] \<Rightarrow> (False, ps)
     | l # ls \<Rightarrow> (True, ps\<lparr>unread := ls, line := Some l, line_number := line_number ps + 1\<rparr>))"

definition line_is_comment :: "string option \<Rightarrow> bool" where
  "line_is_comment ln =
    (case ln of
       None \<Rightarrow> False
     | Some s \<Rightarrow>
         (case dropWhile (\<lambda>c. c = CHR '' '' \<or> c = CHR 0x09) s of
            c # _ \<Rightarrow> c = COMMENT_CHAR
          | [] \<Rightarrow> False))"

definition check_if_line_can_be_processed ::
  "parsing_state \<Rightarrow> int \<Rightarrow> int \<Rightarrow> int \<Rightarrow> (bool \<times> parsing_state) res" where
  "check_if_line_can_be_processed ps max_lines max_parsable_lines max_line_length =
    (if line_number ps > max_lines then Inr (False, ps\<lparr>should_continue_parsing := False\<rparr>)
     else if parsed_so_far ps > max_parsable_lines then Inr (False, ps\<lparr>should_continue_parsing := False\<rparr>)
     else rbind (deref (line ps)) (\<lambda>s.
       if int (length s) > max_line_length then Inr (False, ps\<lparr>should_continue_parsing := False\<rparr>)
       else if line_is_comment (line ps) then Inr (False, ps)
       else if is_line_empty (line ps) then Inr (False, ps)
       else Inr (True, ps)))"

text \<open>
  The loop that skips lines; it ends, because each round reads a line. The inner test, always
  true, says so where the definition needs it.
\<close>

function skip_empty_or_illegal_lines :: "parsing_state \<Rightarrow> int \<Rightarrow> int \<Rightarrow> int \<Rightarrow> (bool \<times> parsing_state) res" where
  "skip_empty_or_illegal_lines ps max_lines max_parsable_lines max_line_length =
    (let (more, ps1) = go_to_next_line ps
     in if \<not> more then Inr (False, ps1)
        else rbind (check_if_line_can_be_processed ps1 max_lines max_parsable_lines max_line_length)
          (\<lambda>(ok, ps2).
            if \<not> ok then (if length (unread ps2) < length (unread ps)
                 then skip_empty_or_illegal_lines ps2 max_lines max_parsable_lines max_line_length
                 else Inl NonTermination)
            else Inr (True, ps2)))"
  by pat_completeness auto
termination
  by (relation "measure (\<lambda>(ps, _). length (unread ps))") auto

declare skip_empty_or_illegal_lines.simps [simp del]

lemma go_to_next_line_simps [simp]:
  "unread ps = [] \<Longrightarrow> go_to_next_line ps = (False, ps)"
  "unread ps = l # ls \<Longrightarrow> go_to_next_line ps =
     (True, ps\<lparr>unread := ls, line := Some l, line_number := line_number ps + 1\<rparr>)"
  by (simp_all add: go_to_next_line_def)

text \<open>A line that carries data, within the limits.\<close>

definition data_line :: "int \<Rightarrow> string \<Rightarrow> bool" where
  "data_line max_len s \<longleftrightarrow> int (length s) \<le> max_len \<and> \<not> line_is_comment (Some s) \<and> \<not> is_line_empty (Some s)"

lemma check_line:
  assumes "line ps = Some s"
  shows "check_if_line_can_be_processed ps ml mp mx =
    Inr (line_number ps \<le> ml \<and> parsed_so_far ps \<le> mp \<and> data_line mx s,
      if line_number ps \<le> ml \<and> parsed_so_far ps \<le> mp \<and> int (length s) \<le> mx then ps
      else ps\<lparr>should_continue_parsing := False\<rparr>)"
  using assms by (auto simp: check_if_line_can_be_processed_def data_line_def)

text \<open>
  Skipping reads lines up to the first that can be processed; it never reads the memory of a
  line that is not there.
\<close>

lemma skip_lines_total:
  "\<exists>ok ps'. skip_empty_or_illegal_lines ps ml mp mx = Inr (ok, ps')
    \<and> (ok \<longrightarrow> (\<exists>s. line ps' = Some s \<and> data_line mx s \<and> line_number ps' \<le> ml))
    \<and> parsed_so_far ps' = parsed_so_far ps \<and> length (unread ps') \<le> length (unread ps)
    \<and> line_number ps \<le> line_number ps'"
proof (induction "length (unread ps)" arbitrary: ps rule: less_induct)
  case less
  show ?case
  proof (cases "unread ps")
    case Nil
    then show ?thesis by (subst skip_empty_or_illegal_lines.simps) auto
  next
    case (Cons l ls)
    define ps1 where "ps1 = ps\<lparr>unread := ls, line := Some l, line_number := line_number ps + 1\<rparr>"
    define ps2 where "ps2 = (if line_number ps1 \<le> ml \<and> parsed_so_far ps1 \<le> mp \<and> int (length l) \<le> mx
      then ps1 else ps1\<lparr>should_continue_parsing := False\<rparr>)"
    let ?ok = "line_number ps1 \<le> ml \<and> parsed_so_far ps1 \<le> mp \<and> data_line mx l"
    have chk: "check_if_line_can_be_processed ps1 ml mp mx = Inr (?ok, ps2)"
      unfolding ps2_def by (rule check_line) (simp add: ps1_def)
    have f: "unread ps2 = ls" "line ps2 = Some l" "line_number ps2 = line_number ps + 1" "parsed_so_far ps2 = parsed_so_far ps"
      by (simp_all add: ps2_def ps1_def)
    have run: "skip_empty_or_illegal_lines ps ml mp mx =
        (if \<not> ?ok then skip_empty_or_illegal_lines ps2 ml mp mx else Inr (True, ps2))"
      using Cons chk f(1) by (subst skip_empty_or_illegal_lines.simps) (simp add: ps1_def [symmetric])
    have "length (unread ps2) < length (unread ps)" using f Cons by simp
    from less [OF this] show ?thesis
      unfolding run using f Cons by (auto simp: ps1_def)
  qed
qed

text \<open>What is skipped before a line that can be processed does not matter, within the limits.\<close>

lemma skip_lines_to_data:
  assumes "unread ps = pre @ l # rest" and "\<forall>p \<in> set pre. \<not> data_line mx p" and "data_line mx l"
    and "line_number ps + int (length pre) < ml" and "parsed_so_far ps \<le> mp"
  shows "\<exists>ps'. skip_empty_or_illegal_lines ps ml mp mx = Inr (True, ps') \<and> unread ps' = rest
    \<and> line ps' = Some l \<and> line_number ps' = line_number ps + int (length pre) + 1
    \<and> parsed_so_far ps' = parsed_so_far ps"
  using assms
proof (induction pre arbitrary: ps)
  case Nil
  let ?ps1 = "ps\<lparr>unread := rest, line := Some l, line_number := line_number ps + 1\<rparr>"
  have "check_if_line_can_be_processed ?ps1 ml mp mx = Inr (True, ?ps1)"
    using Nil.prems by (subst check_line [of _ l]) (simp_all add: data_line_def)
  then show ?case using Nil.prems(1) by (subst skip_empty_or_illegal_lines.simps) simp
next
  case (Cons p pre)
  define ps1 where "ps1 = ps\<lparr>unread := pre @ l # rest, line := Some p, line_number := line_number ps + 1\<rparr>"
  obtain ps2 where c: "check_if_line_can_be_processed ps1 ml mp mx = Inr (False, ps2)"
    "unread ps2 = pre @ l # rest" "line_number ps2 = line_number ps + 1" "parsed_so_far ps2 = parsed_so_far ps"
    using check_line [of ps1 p ml mp mx] Cons.prems(2) by (simp add: ps1_def split: if_splits)
  have run: "skip_empty_or_illegal_lines ps ml mp mx = skip_empty_or_illegal_lines ps2 ml mp mx"
    using Cons.prems(1) c by (subst skip_empty_or_illegal_lines.simps) (simp add: ps1_def [symmetric])
  have "line_number ps2 + int (length pre) < ml" "parsed_so_far ps2 \<le> mp" using Cons.prems(4,5) c(3,4) by simp_all
  moreover have "\<forall>p \<in> set pre. \<not> data_line mx p" using Cons.prems(2) by simp
  ultimately show ?case using Cons.IH [of ps2] Cons.prems(3) c(2,3,4) unfolding run by auto
qed

end
