(* ===== verification/Parse_Env.thy ===== *)
theory Parse_Env
  imports Parse_Lines
begin

text \<open>
  The parser of the environment file, \<^verbatim>\<open>parse_env.c\<close>: the name of the message queue and the
  size of the map. A line with wrong syntax only adds a message, and the field keeps the value
  \<open>mallocate_enviroment\<close> gave it.
\<close>

definition MAX_EMERGENCY_QUEUE_NAME_LENGTH :: nat where
  "MAX_EMERGENCY_QUEUE_NAME_LENGTH = 32"

definition MAX_ENV_CONF_LINES :: int where
  "MAX_ENV_CONF_LINES = 12"

definition MAX_ENV_CONF_LINE_LENGTH :: int where
  "MAX_ENV_CONF_LINE_LENGTH = 128"

definition ENV_CONF_VALID_LINES_COUNT :: int where
  "ENV_CONF_VALID_LINES_COUNT = 3"

definition MIN_COORDINATE_ABSOLUTE_VALUE :: int where
  "MIN_COORDINATE_ABSOLUTE_VALUE = 0"

definition MAX_COORDINATE_ABSOLUTE_VALUE :: int where
  "MAX_COORDINATE_ABSOLUTE_VALUE = 1024"

record environment =
  queue_name :: string
  height :: int
  width :: int

definition mallocate_enviroment :: environment where
  "mallocate_enviroment = \<lparr>queue_name = [], height = 0, width = 0\<rparr>"

definition env_separator :: "char \<Rightarrow> bool" where
  "env_separator c \<longleftrightarrow> c = CHR '' '' \<or> c = CHR 0x09 \<or> c = CHR ''=''"

definition ENV_CONF_QUEUE_SYNTAX :: "directive list" where
  "ENV_CONF_QUEUE_SYNTAX = lits ''queue'' @
     [Skip_Set env_separator, Str_Conv MAX_EMERGENCY_QUEUE_NAME_LENGTH MAX_EMERGENCY_QUEUE_NAME_LENGTH]"

definition ENV_CONF_HEIGHT_SYNTAX :: "directive list" where
  "ENV_CONF_HEIGHT_SYNTAX = lits ''height'' @ [Skip_Set env_separator, Int_Conv]"

definition ENV_CONF_WIDTH_SYNTAX :: "directive list" where
  "ENV_CONF_WIDTH_SYNTAX = lits ''width'' @ [Skip_Set env_separator, Int_Conv]"

text \<open>
  The field is returned if it was assigned. When no line was ever read, the buffer that
  \<^verbatim>\<open>getline\<close> left behind holds nothing.
\<close>

definition check_and_extract_env_line_field ::
  "parsing_state \<Rightarrow> directive list \<Rightarrow> (scanned option \<times> parsing_state) res" where
  "check_and_extract_env_line_field ps syntax =
     rbind (skip_empty_or_illegal_lines ps MAX_ENV_CONF_LINES ENV_CONF_VALID_LINES_COUNT MAX_ENV_CONF_LINE_LENGTH)
       (\<lambda>(_, ps1).
     rbind (case line ps1 of None \<Rightarrow> Inl UninitialisedRead | Some s \<Rightarrow> sscanf syntax s) (\<lambda>vs.
       let ps2 = ps1\<lparr>parsed_so_far := parsed_so_far ps1 + 1\<rparr>
       in Inr (case vs of [v] \<Rightarrow> Some v | _ \<Rightarrow> None, ps2)))"

definition environment_values_are_illegal :: "environment \<Rightarrow> bool" where
  "environment_values_are_illegal e \<longleftrightarrow>
     length (queue_name e) < 2 \<or>
     length (queue_name e) > MAX_EMERGENCY_QUEUE_NAME_LENGTH \<or>
     ABS (height e) < MIN_COORDINATE_ABSOLUTE_VALUE \<or>
     ABS (height e) > MAX_COORDINATE_ABSOLUTE_VALUE \<or>
     ABS (width e) < MIN_COORDINATE_ABSOLUTE_VALUE \<or>
     ABS (width e) > MAX_COORDINATE_ABSOLUTE_VALUE"

text \<open>
  The loops over the buffer, whose cell at the index of the terminator is the last one used. The
  result is what stands before the first terminator.
\<close>

definition replace_slash :: "nat \<Rightarrow> string \<Rightarrow> string" where
  "replace_slash i qn = (if qn ! i = CHR ''/'' then qn[i := CHR ''-''] else qn)"

definition shift_cell :: "nat \<Rightarrow> string \<Rightarrow> string" where
  "shift_cell i qn = qn[i := qn ! (i - 1)]"

definition NUL :: char where
  "NUL = CHR 0x00"

definition cleanup_queue_name :: "string \<Rightarrow> string" where
  "cleanup_queue_name name =
    (let buffer = name @ [NUL];
         slashes = (buffer ! 0 = CHR ''/'');
         len = length name;
         qn = fold replace_slash [1..<len] buffer
     in if slashes then takeWhile (\<lambda>c. c \<noteq> NUL) qn
        else
          let qn1 = fold shift_cell (rev [1..<len]) qn;
              qn2 = qn1[0 := CHR ''/''];
              qn3 = qn2[len := NUL]
          in takeWhile (\<lambda>c. c \<noteq> NUL) qn3)"

definition set_queue_name :: "scanned option \<Rightarrow> environment \<Rightarrow> environment" where
  "set_queue_name v e = (case v of Some (Scanned_String s) \<Rightarrow> e\<lparr>queue_name := s\<rparr> | _ \<Rightarrow> e)"

definition scanned_int :: "scanned option \<Rightarrow> int \<Rightarrow> int" where
  "scanned_int v d = (case v of Some (Scanned_Int n) \<Rightarrow> n | _ \<Rightarrow> d)"

text \<open>\<open>None\<close> is the \<open>NULL\<close> that is returned for a file that is not accepted.\<close>

definition parse_env :: "conf_file \<Rightarrow> environment option res" where
  "parse_env file =
     rbind (mallocate_parsing_state file) (\<lambda>ps.
     let env = mallocate_enviroment; number_of_lines_to_parse = ENV_CONF_VALID_LINES_COUNT in
     rbind (check_and_extract_env_line_field ps ENV_CONF_QUEUE_SYNTAX) (\<lambda>(q, ps1).
     rbind (check_and_extract_env_line_field ps1 ENV_CONF_HEIGHT_SYNTAX) (\<lambda>(h, ps2).
     rbind (check_and_extract_env_line_field ps2 ENV_CONF_WIDTH_SYNTAX) (\<lambda>(w, ps3).
       let env1 = set_queue_name q env;
           env2 = env1\<lparr>height := scanned_int h (height env1)\<rparr>;
           env3 = env2\<lparr>width := scanned_int w (width env2)\<rparr>;
           env4 = env3\<lparr>queue_name := cleanup_queue_name (queue_name env3)\<rparr>
       in if environment_values_are_illegal env4 then Inr None
          else if parsed_so_far ps3 \<noteq> number_of_lines_to_parse then Inr None
          else Inr (Some env4)))))"

section \<open>The name of the queue\<close>

lemma replace_slashes:
  assumes "n \<le> length xs"
  shows "fold replace_slash [1..<n] xs
    = map (\<lambda>i. if 1 \<le> i \<and> i < n \<and> xs ! i = CHR ''/'' then CHR ''-'' else xs ! i) [0..<length xs]"
  using assms
proof (induction n)
  case 0
  then show ?case by (simp add: map_nth)
next
  case (Suc n)
  let ?f = "\<lambda>k i. if 1 \<le> i \<and> i < k \<and> xs ! i = CHR ''/'' then CHR ''-'' else xs ! i"
  have IH: "fold replace_slash [1..<n] xs = map (?f n) [0..<length xs]" using Suc by simp
  show ?case
  proof (cases "n = 0")
    case True
    then show ?thesis by (intro nth_equalityI) auto
  next
    case False
    then have "fold replace_slash [1..<Suc n] xs = replace_slash n (fold replace_slash [1..<n] xs)" by simp
    also have "\<dots> = map (?f (Suc n)) [0..<length xs]"
    proof (rule nth_equalityI)
      show "length (replace_slash n (fold replace_slash [1..<n] xs)) = length (map (?f (Suc n)) [0..<length xs])"
        unfolding IH by (simp add: replace_slash_def)
      fix i assume "i < length (replace_slash n (fold replace_slash [1..<n] xs))"
      then have "i < length xs" unfolding IH by (simp add: replace_slash_def split: if_splits)
      then show "replace_slash n (fold replace_slash [1..<n] xs) ! i = map (?f (Suc n)) [0..<length xs] ! i"
        unfolding IH using Suc.prems False
        by (cases "i = n") (auto simp: replace_slash_def nth_list_update less_Suc_eq simp del: upt_Suc)
    qed
    finally show ?thesis .
  qed
qed

lemma shift_cells:
  assumes "n \<le> length xs"
  shows "fold shift_cell (rev [1..<n]) xs
    = map (\<lambda>i. if 1 \<le> i \<and> i < n then xs ! (i - 1) else xs ! i) [0..<length xs]"
  using assms
proof (induction n arbitrary: xs)
  case 0
  then show ?case by (simp add: map_nth)
next
  case (Suc n)
  show ?case
  proof (cases "n = 0")
    case True
    then show ?thesis by (intro nth_equalityI) auto
  next
    case False
    then have "fold shift_cell (rev [1..<Suc n]) xs = fold shift_cell (rev [1..<n]) (shift_cell n xs)" by simp
    also have "\<dots> = map (\<lambda>i. if 1 \<le> i \<and> i < n then shift_cell n xs ! (i - 1) else shift_cell n xs ! i) [0..<length xs]"
    proof -
      have l: "length (shift_cell n xs) = length xs" by (simp add: shift_cell_def)
      show ?thesis using Suc.IH [of "shift_cell n xs"] Suc.prems unfolding l by simp
    qed
    also have "\<dots> = map (\<lambda>i. if 1 \<le> i \<and> i < Suc n then xs ! (i - 1) else xs ! i) [0..<length xs]"
      using Suc.prems False by (intro map_cong) (auto simp: shift_cell_def nth_list_update less_Suc_eq)
    finally show ?thesis .
  qed
qed

definition dashed :: "string \<Rightarrow> string" where
  "dashed s = map (\<lambda>c. if c = CHR ''/'' then CHR ''-'' else c) s"

lemma dashed_NUL: "NUL \<notin> set s \<Longrightarrow> NUL \<notin> set (dashed s)"
  by (auto simp: dashed_def NUL_def)

lemma takeWhile_NUL: "NUL \<notin> set s \<Longrightarrow> takeWhile (\<lambda>c. c \<noteq> NUL) (s @ NUL # t) = s"
  by (induction s) auto

text \<open>
  What the function does to a name: a name that begins with a slash keeps its length, any other
  gets one in front and loses its last character.
\<close>

lemma cleanup_queue_name_value:
  assumes "NUL \<notin> set (c # s)"
  shows "cleanup_queue_name (c # s)
    = (if c = CHR ''/'' then c # dashed s else CHR ''/'' # butlast (c # dashed s))"
proof -
  define n where "n = length (c # s)"
  have n: "n = Suc (length s)" by (simp add: n_def)
  have rep: "fold replace_slash [1..<n] (c # s @ [NUL]) = c # dashed s @ [NUL]"
  proof -
    have "fold replace_slash [1..<n] (c # s @ [NUL]) = map (\<lambda>i. if 1 \<le> i \<and> i < n \<and> (c # s @ [NUL]) ! i = CHR ''/''
        then CHR ''-'' else (c # s @ [NUL]) ! i) [0..<length (c # s @ [NUL])]"
      by (rule replace_slashes) (simp add: n)
    also have "\<dots> = c # dashed s @ [NUL]"
    proof (rule nth_equalityI)
      fix i assume "i < length (map (\<lambda>i. if 1 \<le> i \<and> i < n \<and> (c # s @ [NUL]) ! i = CHR ''/''
        then CHR ''-'' else (c # s @ [NUL]) ! i) [0..<length (c # s @ [NUL])])"
      then have i: "i < length (c # s @ [NUL])" by simp
      show "map (\<lambda>i. if 1 \<le> i \<and> i < n \<and> (c # s @ [NUL]) ! i = CHR ''/''
        then CHR ''-'' else (c # s @ [NUL]) ! i) [0..<length (c # s @ [NUL])] ! i = (c # dashed s @ [NUL]) ! i"
        using i by (cases i) (auto simp: dashed_def nth_append n NUL_def simp del: upt_Suc)
    qed (simp add: dashed_def)
    finally show ?thesis .
  qed
  show ?thesis
  proof (cases "c = CHR ''/''")
    case True
    have "NUL \<notin> set (c # dashed s)" using assms dashed_NUL by simp
    then show ?thesis using True rep takeWhile_NUL [of "c # dashed s" "[]"] by (simp add: cleanup_queue_name_def Let_def n_def)
  next
    case False
    let ?q = "c # dashed s"
    have len: "length ?q = n" by (simp add: dashed_def n)
    have sh: "fold shift_cell (rev [1..<n]) (?q @ [NUL]) = c # butlast ?q @ [NUL]"
    proof -
      have "fold shift_cell (rev [1..<n]) (?q @ [NUL])
          = map (\<lambda>i. if 1 \<le> i \<and> i < n then (?q @ [NUL]) ! (i - 1) else (?q @ [NUL]) ! i) [0..<length (?q @ [NUL])]"
        by (rule shift_cells) (simp add: n dashed_def)
      also have "\<dots> = c # butlast ?q @ [NUL]"
      proof (rule nth_equalityI)
        fix i assume "i < length (map (\<lambda>i. if 1 \<le> i \<and> i < n then (?q @ [NUL]) ! (i - 1)
            else (?q @ [NUL]) ! i) [0..<length (?q @ [NUL])])"
        then have i: "i < Suc n" using len by simp
        consider "i = 0" | "1 \<le> i" "i < n" | "i = n" using i by linarith
        then show "map (\<lambda>i. if 1 \<le> i \<and> i < n then (?q @ [NUL]) ! (i - 1) else (?q @ [NUL]) ! i)
            [0..<length (?q @ [NUL])] ! i = (c # butlast ?q @ [NUL]) ! i"
          using len
          by cases (auto simp: nth_append nth_butlast nth_Cons' n simp del: upt_Suc butlast.simps)
      qed (use len in \<open>simp add: n del: butlast.simps\<close>)
      finally show ?thesis .
    qed
    have "(CHR ''/'' # butlast ?q @ [NUL])[n := NUL] = CHR ''/'' # butlast ?q @ [NUL]"
      using len by (simp add: list_update_append n del: butlast.simps)
    moreover have "NUL \<notin> set (CHR ''/'' # butlast ?q)"
      using assms dashed_NUL [of s] by (auto simp: NUL_def dest!: in_set_butlastD)
    ultimately show ?thesis
      using False rep sh takeWhile_NUL [of "CHR ''/'' # butlast ?q" "[]"]
      by (simp add: cleanup_queue_name_def Let_def n_def del: butlast.simps)
  qed
qed

section \<open>Reading a file\<close>

text \<open>One field: the lines before its own are skipped, and the line is scanned.\<close>

lemma extract_field:
  assumes "unread ps = pre @ l # rest" and "\<forall>p \<in> set pre. \<not> data_line MAX_ENV_CONF_LINE_LENGTH p"
    and "data_line MAX_ENV_CONF_LINE_LENGTH l"
    and "line_number ps + int (length pre) < MAX_ENV_CONF_LINES" and "parsed_so_far ps \<le> ENV_CONF_VALID_LINES_COUNT"
    and "sscanf syntax l = Inr [v]"
  shows "\<exists>ps'. check_and_extract_env_line_field ps syntax = Inr (Some v, ps') \<and> unread ps' = rest
    \<and> line_number ps' = line_number ps + int (length pre) + 1 \<and> parsed_so_far ps' = parsed_so_far ps + 1"
  using skip_lines_to_data [OF assms(1-5)] assms(6)
  by (auto simp: check_and_extract_env_line_field_def)

lemma extract_field_fails:
  assumes "unread ps = pre @ l # rest" and "\<forall>p \<in> set pre. \<not> data_line MAX_ENV_CONF_LINE_LENGTH p"
    and "data_line MAX_ENV_CONF_LINE_LENGTH l"
    and "line_number ps + int (length pre) < MAX_ENV_CONF_LINES" and "parsed_so_far ps \<le> ENV_CONF_VALID_LINES_COUNT"
    and "sscanf syntax l = Inl e"
  shows "check_and_extract_env_line_field ps syntax = Inl e"
  using skip_lines_to_data [OF assms(1-5)] assms(6)
  by (auto simp: check_and_extract_env_line_field_def)

text \<open>The lines of the three fields, with or without a newline.\<close>

definition queue_line :: "string \<Rightarrow> string" where
  "queue_line name = ''queue='' @ name @ [CHR 0x0A]"

definition height_line :: "nat \<Rightarrow> string" where
  "height_line h = ''height='' @ digits_of h @ [CHR 0x0A]"

definition width_line :: "nat \<Rightarrow> string" where
  "width_line w = ''width='' @ digits_of w @ [CHR 0x0A]"

definition name_ok :: "string \<Rightarrow> bool" where
  "name_ok name \<longleftrightarrow> name \<noteq> [] \<and> hd name \<noteq> CHR ''='' \<and> (\<forall>c \<in> set name. \<not> isspace c \<and> c \<noteq> NUL)"

lemma scan_queue_line:
  assumes "name_ok name"
  shows "sscanf ENV_CONF_QUEUE_SYNTAX (queue_line name) =
    (if length name < 32 then Inr [Scanned_String name] else Inl OutOfBounds)"
proof -
  obtain c s where n: "name = c # s" using assms by (cases name) (auto simp: name_ok_def)
  have c: "\<not> isspace c" "c \<noteq> CHR ''=''" "\<not> env_separator c" using assms n by (auto simp: name_ok_def env_separator_def isspace_def)
  have "env_separator (CHR ''='')" by (simp add: env_separator_def)
  then have skip: "scan_directive (Skip_Set env_separator) (''='' @ name @ [CHR 0x0A]) = Inr (Some ([], name @ [CHR 0x0A]))"
    using c n by simp
  have sp: "\<forall>c \<in> set name. \<not> isspace c" using assms by (simp add: name_ok_def)
  have nl: "isspace (CHR 0x0A)" by (simp add: isspace_def)
  have drop: "dropWhile isspace (name @ [CHR 0x0A]) = name @ [CHR 0x0A]" using c n by simp
  have str: "scan_directive (Str_Conv 32 32) (name @ [CHR 0x0A]) = (if length name < 32
      then Inr (Some ([Scanned_String name], [CHR 0x0A])) else Inl OutOfBounds)"
  proof (cases "length name < 32")
    case True
    then have "take_upto 32 (\<lambda>c. \<not> isspace c) (name @ [CHR 0x0A]) = (name, [CHR 0x0A])"
      using sp nl by (intro take_upto_exact) simp_all
    then show ?thesis using True n drop by (simp add: store_string_ok del: take_upto.simps)
  next
    case False
    have "take_upto 32 (\<lambda>c. \<not> isspace c) (take 32 name @ drop 32 name @ [CHR 0x0A]) = (take 32 name, drop 32 name @ [CHR 0x0A])"
      using sp False by (intro take_upto_full) (auto dest: in_set_takeD)
    then have "take_upto 32 (\<lambda>c. \<not> isspace c) (name @ [CHR 0x0A]) = (take 32 name, drop 32 name @ [CHR 0x0A])"
      by (metis append.assoc append_take_drop_id)
    moreover have "take 32 name \<noteq> []" using n by simp
    ultimately show ?thesis using False drop by (simp add: store_string_overflow del: take_upto.simps)
  qed
  have "sscanf ENV_CONF_QUEUE_SYNTAX (queue_line name)
      = sscanf [Skip_Set env_separator, Str_Conv 32 32] (''='' @ name @ [CHR 0x0A])"
    unfolding ENV_CONF_QUEUE_SYNTAX_def queue_line_def MAX_EMERGENCY_QUEUE_NAME_LENGTH_def
    using sscanf_lits [of "''queue''" "[Skip_Set env_separator, Str_Conv 32 32]" "''='' @ name @ [CHR 0x0A]"]
    by simp
  then show ?thesis using skip str by (simp del: scan_directive.simps)
qed

lemma scan_number_line:
  assumes "int n \<le> INT_MAX"
  shows "sscanf (lits a @ [Skip_Set env_separator, Int_Conv]) (a @ ''='' @ digits_of n @ [CHR 0x0A]) = Inr [Scanned_Int (int n)]"
proof -
  obtain d ds where d: "digits_of n = d # ds" using digits_of_ne by (cases "digits_of n") auto
  have "is_digit d" using digits_of_is_digit [of n] d by simp
  then have "\<not> env_separator d" by (auto simp: env_separator_def is_digit_def)
  moreover have "env_separator (CHR ''='')" by (simp add: env_separator_def)
  ultimately have "scan_directive (Skip_Set env_separator) (''='' @ digits_of n @ [CHR 0x0A])
      = Inr (Some ([], digits_of n @ [CHR 0x0A]))" using d by simp
  moreover have "int_conv (- INT_MAX - 1) INT_MAX ([] @ digits_of n @ [CHR 0x0A]) = Inr (Some ([Scanned_Int (int n)], [CHR 0x0A]))"
    using assms by (intro int_conv_digits) (simp_all add: is_digit_def INT_MAX_def)
  ultimately show ?thesis unfolding sscanf_lits by simp
qed

lemma field_lines_data:
  shows "length name \<le> 64 \<Longrightarrow> data_line MAX_ENV_CONF_LINE_LENGTH (queue_line name)"
    and "n \<le> 1024 \<Longrightarrow> data_line MAX_ENV_CONF_LINE_LENGTH (height_line n)"
    and "n \<le> 1024 \<Longrightarrow> data_line MAX_ENV_CONF_LINE_LENGTH (width_line n)"
proof -
  have "length (digits_of n) \<le> 4" if "n \<le> 1024" using length_digits_of [of n 3] that by simp
  then show "length name \<le> 64 \<Longrightarrow> data_line MAX_ENV_CONF_LINE_LENGTH (queue_line name)"
    and "n \<le> 1024 \<Longrightarrow> data_line MAX_ENV_CONF_LINE_LENGTH (height_line n)"
    and "n \<le> 1024 \<Longrightarrow> data_line MAX_ENV_CONF_LINE_LENGTH (width_line n)"
    by (force simp: data_line_def queue_line_def height_line_def width_line_def line_is_comment_def
        COMMENT_CHAR_def is_line_empty_def isspace_def MAX_ENV_CONF_LINE_LENGTH_def)+
qed



text \<open>
  The name of the queue has its room and no more: a name as long as the documented limit of
  32 characters, or longer, is written past the end of the buffer of 32 characters.
\<close>

theorem parse_env_name_overflow:
  assumes "\<forall>p \<in> set pre. \<not> data_line MAX_ENV_CONF_LINE_LENGTH p" and "length pre < 12"
    and "name_ok name" and "32 \<le> length name" "length name \<le> 64"
  shows "parse_env (Some (pre @ queue_line name # rest)) = Inl OutOfBounds"
proof -
  let ?ps = "\<lparr>unread = pre @ queue_line name # rest, line = None,
    line_number = 0, parsed_so_far = 0, should_continue_parsing = True\<rparr>"
  have "data_line MAX_ENV_CONF_LINE_LENGTH (queue_line name)" using field_lines_data assms(5) by simp
  moreover have "sscanf ENV_CONF_QUEUE_SYNTAX (queue_line name) = Inl OutOfBounds"
    using scan_queue_line [OF assms(3)] assms(4) by simp
  ultimately have "check_and_extract_env_line_field ?ps ENV_CONF_QUEUE_SYNTAX = Inl OutOfBounds"
    using extract_field_fails [OF _ assms(1), of ?ps] assms(2)
    by (simp add: MAX_ENV_CONF_LINES_def ENV_CONF_VALID_LINES_COUNT_def)
  then show ?thesis by (simp add: parse_env_def mallocate_parsing_state_def)
qed

theorem parse_env_name_overflow_witness:
  "parse_env (Some [queue_line ''/emergenze-del-comune-di-pisa-123'', height_line 1, width_line 1]) = Inl OutOfBounds"
proof -
  have "name_ok ''/emergenze-del-comune-di-pisa-123''" by code_simp
  then show ?thesis using parse_env_name_overflow [of "[]" "''/emergenze-del-comune-di-pisa-123''"] by simp
qed

text \<open>
  The clean-up gives a name with one slash, the first character; of a name that has it
  already nothing is lost, of any other the last character is.
\<close>

theorem cleanup_queue_name_correct:
  assumes "NUL \<notin> set (c # s)"
  shows "hd (cleanup_queue_name (c # s)) = CHR ''/''
    \<and> length (cleanup_queue_name (c # s)) = length (c # s)
    \<and> (c = CHR ''/'' \<longrightarrow> cleanup_queue_name (c # s) = c # dashed s)
    \<and> (c \<noteq> CHR ''/'' \<longrightarrow> cleanup_queue_name (c # s) = CHR ''/'' # butlast (c # dashed s))
    \<and> CHR ''/'' \<notin> set (tl (cleanup_queue_name (c # s)))"
proof -
  have "CHR ''/'' \<notin> set (dashed s)" by (auto simp: dashed_def)
  then show ?thesis using cleanup_queue_name_value [OF assms] by (auto simp: dashed_def dest: in_set_butlastD)
qed

theorem cleanup_queue_name_correct_witness:
  "cleanup_queue_name ''emergenze'' = ''/emergenz''"
proof -
  have "NUL \<notin> set ''emergenze''" by code_simp
  then show ?thesis using cleanup_queue_name_correct [of "CHR ''e''" "''mergenze''"] by (simp add: dashed_def)
qed

end
