(* ===== verification/Parse_Rescuers.thy ===== *)
theory Parse_Rescuers
  imports Parse_Lines Server_Invariant Samples
begin

text \<open>
  The parser of the rescuer types, \<^verbatim>\<open>parse_rescuers.c\<close>, and the twins it creates. A pointer
  to a type stands for the value the type has when it is complete, so the twins are given the
  type with its array of twins, which holds the pointers that will be allocated.
\<close>

section \<open>The parser\<close>

definition MAX_RESCUER_NAME_LENGTH :: nat where
  "MAX_RESCUER_NAME_LENGTH = 128"

definition MAX_RESCUER_CONF_LINES :: nat where
  "MAX_RESCUER_CONF_LINES = 128"

definition MAX_RESCUER_TYPES_COUNT :: int where
  "MAX_RESCUER_TYPES_COUNT = 64"

definition MAX_RESCUER_CONF_LINE_LENGTH :: int where
  "MAX_RESCUER_CONF_LINE_LENGTH = 512"

definition RESCUERS_SYNTAX :: "directive list" where
  "RESCUERS_SYNTAX = lits ''['' @
     Set_Conv MAX_RESCUER_NAME_LENGTH MAX_RESCUER_NAME_LENGTH (\<lambda>c. c \<noteq> CHR '']'') # lits '']['' @
     Int_Conv # lits '']['' @ Int_Conv # lits '']['' @ Int_Conv # lits '';'' @ Int_Conv # lits '']''"

record rescuer_type_fields =
  field_name :: string
  field_amount :: int
  field_speed :: int
  field_x :: int
  field_y :: int
  max_x_coordinate :: int
  max_y_coordinate :: int

text \<open>The twins allocated so far, the next free pointer and the static counter of their numbers.\<close>

record twin_store =
  store_heap :: "twin_ptr \<Rightarrow> rescuer_digital_twin"
  store_next :: twin_ptr
  rescuer_digital_twins_total_count :: int

record rescuers_data =
  parsed_types :: "rescuer_type option list"
  parsed_count :: int

definition rescuer_type_values_are_illegal :: "rescuer_type_fields \<Rightarrow> bool" where
  "rescuer_type_values_are_illegal f \<longleftrightarrow>
     length (field_name f) \<le> 0 \<or>
     field_amount f < 1 \<or> field_amount f > 1000 \<or>
     field_speed f < 1 \<or> field_speed f > 100 \<or>
     field_x f < 0 \<or> field_x f > max_x_coordinate f \<or>
     field_y f < 0 \<or> field_y f > max_y_coordinate f"

definition callocate_rescuer_types :: "rescuer_type option list" where
  "callocate_rescuer_types = replicate (MAX_RESCUER_CONF_LINES + 1) None"

definition mallocate_rescuer_digital_twin :: "rescuer_type \<Rightarrow> twin_store \<Rightarrow> twin_ptr \<times> twin_store" where
  "mallocate_rescuer_digital_twin r st =
    (let t = store_next st
     in (t, st\<lparr>store_heap := (store_heap st)(t := \<lparr>twin_id = rescuer_digital_twins_total_count st,
             twin_x = base_x r, twin_y = base_y r, rescuer = r, twin_status = IDLE,
             trajectory = mallocate_bresenham_trajectory, emergency = None, is_travelling = None,
             has_arrived = None, twin_time_to_manage = INVALID_TIME,
             time_left_before_leaving = INVALID_TIME, is_a_candidate = False\<rparr>),
          store_next := t + 1,
          rescuer_digital_twins_total_count := rescuer_digital_twins_total_count st + 1\<rparr>))"

text \<open>The array of a type has a cell more than twins, for the final \<open>NULL\<close>.\<close>

definition twin_cells :: "nat \<Rightarrow> twin_ptr \<Rightarrow> twin_ptr option list" where
  "twin_cells n first = map Some [first..<first + n] @ [None]"

definition callocate_and_populate_rescuer_digital_twins :: "rescuer_type \<Rightarrow> twin_store \<Rightarrow> rescuer_type \<times> twin_store" where
  "callocate_and_populate_rescuer_digital_twins r st =
    (let r' = r\<lparr>twins := twin_cells (nat (amount r)) (store_next st)\<rparr>
     in (r', fold (\<lambda>i st. snd (mallocate_rescuer_digital_twin r' st)) [0..<nat (amount r)] st))"

definition mallocate_and_populate_rescuer_type :: "rescuer_type_fields \<Rightarrow> twin_store \<Rightarrow> rescuer_type \<times> twin_store" where
  "mallocate_and_populate_rescuer_type f st =
     callocate_and_populate_rescuer_digital_twins
       \<lparr>rescuer_type_name = trim_right (field_name f), amount = field_amount f, speed = field_speed f,
        base_x = field_x f, base_y = field_y f, twins = []\<rparr> st"

definition check_and_extract_rescuer_type_fields_from_line ::
  "parsing_state \<Rightarrow> rescuer_type option list \<Rightarrow> rescuer_type_fields \<Rightarrow> (bool \<times> parsing_state \<times> rescuer_type_fields) res" where
  "check_and_extract_rescuer_type_fields_from_line ps types flds =
     rbind (deref (line ps)) (\<lambda>s.
     rbind (sscanf RESCUERS_SYNTAX s) (\<lambda>vs.
     case vs of
       [Scanned_String name, Scanned_Int a, Scanned_Int sp, Scanned_Int x, Scanned_Int y] \<Rightarrow>
         let f = flds\<lparr>field_name := name, field_amount := a, field_speed := sp, field_x := x, field_y := y\<rparr>
         in if rescuer_type_values_are_illegal f
            then Inr (False, ps\<lparr>should_continue_parsing := False\<rparr>, f)
            else rbind (get_rescuer_type_by_name (field_name f) types) (\<lambda>(r, name').
              let f' = f\<lparr>field_name := name'\<rparr>
              in Inr (r = None, ps, f'))
     | _ \<Rightarrow> Inr (False, ps\<lparr>should_continue_parsing := False\<rparr>, flds)))"

text \<open>The loop over the lines; each round reads one, so a round for each and one more are enough.\<close>

fun rescuers_loop :: "nat \<Rightarrow> parsing_state \<Rightarrow> rescuer_type option list \<Rightarrow> rescuer_type_fields \<Rightarrow> twin_store \<Rightarrow>
    (parsing_state \<times> rescuer_type option list \<times> twin_store) option res" where
  "rescuers_loop 0 ps types flds st = Inl NonTermination"
| "rescuers_loop (Suc n) ps types flds st =
    (let (more, ps1) = go_to_next_line ps
     in if \<not> more then Inr (Some (ps1, types, st))
        else rbind (check_if_line_can_be_processed ps1 (int MAX_RESCUER_CONF_LINES) MAX_RESCUER_TYPES_COUNT
                     MAX_RESCUER_CONF_LINE_LENGTH) (\<lambda>(ok, ps2).
          if \<not> ok then
            if should_continue_parsing ps2 then rescuers_loop n ps2 types flds st else Inr None
          else rbind (check_and_extract_rescuer_type_fields_from_line ps2 types flds) (\<lambda>(good, ps3, f).
            if \<not> good then
              if should_continue_parsing ps3 then rescuers_loop n ps3 types f st else Inr None
            else
              let (r, st') = mallocate_and_populate_rescuer_type f st
              in rbind (arr_set types (parsed_so_far ps3) (Some r)) (\<lambda>types'.
                 rescuers_loop n (ps3\<lparr>parsed_so_far := parsed_so_far ps3 + 1\<rparr>) types' f st'))))"

definition no_fields :: rescuer_type_fields where
  "no_fields = \<lparr>field_name = [], field_amount = 0, field_speed = 0, field_x = 0, field_y = 0,
     max_x_coordinate = 0, max_y_coordinate = 0\<rparr>"

definition parse_rescuers :: "conf_file \<Rightarrow> int \<Rightarrow> int \<Rightarrow> twin_store \<Rightarrow> (rescuers_data \<times> twin_store) option res" where
  "parse_rescuers file x y st =
     rbind (mallocate_parsing_state file) (\<lambda>ps.
     rbind (rescuers_loop (length (unread ps) + 1) ps callocate_rescuer_types
             (no_fields\<lparr>max_x_coordinate := x, max_y_coordinate := y\<rparr>) st) (\<lambda>res.
     case res of
       None \<Rightarrow> Inr None
     | Some (ps', types, st') \<Rightarrow> Inr (Some (\<lparr>parsed_types = types, parsed_count = parsed_so_far ps'\<rparr>, st'))))"

section \<open>New twins\<close>

definition new_twin :: "rescuer_type \<Rightarrow> twin_ptr \<Rightarrow> rescuer_digital_twin" where
  "new_twin r t = \<lparr>twin_id = int t, twin_x = base_x r, twin_y = base_y r, rescuer = r, twin_status = IDLE,
     trajectory = mallocate_bresenham_trajectory, emergency = None, is_travelling = None,
     has_arrived = None, twin_time_to_manage = INVALID_TIME,
     time_left_before_leaving = INVALID_TIME, is_a_candidate = False\<rparr>"

lemma new_twins:
  assumes "rescuer_digital_twins_total_count st = int (store_next st)"
  shows "fold (\<lambda>i st. snd (mallocate_rescuer_digital_twin r st)) [0..<n] st
    = st\<lparr>store_heap := (\<lambda>t. if store_next st \<le> t \<and> t < store_next st + n then new_twin r t else store_heap st t),
        store_next := store_next st + n, rescuer_digital_twins_total_count := int (store_next st + n)\<rparr>"
proof (induction n)
  case 0
  then show ?case using assms by (intro twin_store.equality) (auto simp: fun_eq_iff)
next
  case (Suc n)
  show ?case
    unfolding upt_Suc_append [OF le0] fold_append comp_def Suc.IH
    by (intro twin_store.equality) (auto simp: mallocate_rescuer_digital_twin_def Let_def new_twin_def fun_eq_iff)
qed

lemma type_twins_cells: "type_twins (r\<lparr>twins := twin_cells (nat (amount r)) first\<rparr>) = [first..<first + nat (amount r)]"
  by (simp add: type_twins_def twin_cells_def)

text \<open>The value of a type read from a line, and the store with its twins.\<close>

definition read_type :: "rescuer_type_fields \<Rightarrow> twin_ptr \<Rightarrow> rescuer_type" where
  "read_type f first = \<lparr>rescuer_type_name = trim_right (field_name f), amount = field_amount f, speed = field_speed f,
     base_x = field_x f, base_y = field_y f, twins = twin_cells (nat (field_amount f)) first\<rparr>"

lemma read_type_twins: "type_twins (read_type f first) = [first..<first + nat (field_amount f)]"
  by (simp add: read_type_def type_twins_def twin_cells_def)

lemma populate_type:
  assumes "rescuer_digital_twins_total_count st = int (store_next st)"
  shows "mallocate_and_populate_rescuer_type f st = (read_type f (store_next st),
    st\<lparr>store_heap := (\<lambda>t. if t \<in> set (type_twins (read_type f (store_next st)))
       then new_twin (read_type f (store_next st)) t else store_heap st t),
     store_next := store_next st + nat (field_amount f),
     rescuer_digital_twins_total_count := int (store_next st + nat (field_amount f))\<rparr>)"
proof -
  let ?r = "\<lparr>rescuer_type_name = trim_right (field_name f), amount = field_amount f, speed = field_speed f,
    base_x = field_x f, base_y = field_y f, twins = []\<rparr>"
  have r: "?r\<lparr>twins := twin_cells (nat (amount ?r)) (store_next st)\<rparr> = read_type f (store_next st)"
    by (simp add: read_type_def)
  have "t \<in> set [a..<b] \<longleftrightarrow> a \<le> t \<and> t < b" for t a b by auto
  then show ?thesis
    unfolding mallocate_and_populate_rescuer_type_def callocate_and_populate_rescuer_digital_twins_def r Let_def
      new_twins [OF assms] read_type_twins by simp
qed

section \<open>What has been parsed\<close>

definition legal_type :: "int \<Rightarrow> int \<Rightarrow> rescuer_type \<Rightarrow> bool" where
  "legal_type mx my r \<longleftrightarrow> 1 \<le> amount r \<and> amount r \<le> 1000 \<and> 1 \<le> speed r \<and> speed r \<le> 100
     \<and> 0 \<le> base_x r \<and> base_x r \<le> mx \<and> 0 \<le> base_y r \<and> base_y r \<le> my
     \<and> twins r = map Some (type_twins r) @ [None] \<and> length (type_twins r) = nat (amount r)
     \<and> trim_right (rescuer_type_name r) = rescuer_type_name r"

text \<open>
  The types read, in order: their names differ, the twins of all are those allocated, in
  order, and each is new and at the base of its type.
\<close>

definition rescuers_parsed :: "int \<Rightarrow> int \<Rightarrow> rescuer_type list \<Rightarrow> rescuer_type option list \<Rightarrow> twin_store \<Rightarrow> bool" where
  "rescuers_parsed mx my ts types st \<longleftrightarrow>
     types = map Some ts @ replicate (MAX_RESCUER_CONF_LINES + 1 - length ts) None \<and> length ts \<le> 65
     \<and> distinct (map rescuer_type_name ts) \<and> concat (map type_twins ts) = [0..<store_next st]
     \<and> rescuer_digital_twins_total_count st = int (store_next st)
     \<and> (\<forall>r \<in> set ts. legal_type mx my r \<and> (\<forall>t \<in> set (type_twins r). store_heap st t = new_twin r t))"

lemma scan_null_terminated_find:
  "scan_null_terminated P (map Some xs @ None # cs) = Inr (List.find P xs)"
  by (induction xs) auto

lemma rescuers_parsed_cells:
  assumes "rescuers_parsed mx my ts types st"
  shows "\<exists>cs. types = map Some ts @ None # cs" "length types = 129"
proof -
  have "length ts \<le> 65" using assms by (simp add: rescuers_parsed_def)
  then have "MAX_RESCUER_CONF_LINES + 1 - length ts = Suc (128 - length ts)"
    by (simp add: MAX_RESCUER_CONF_LINES_def)
  then show "\<exists>cs. types = map Some ts @ None # cs" using assms by (auto simp: rescuers_parsed_def)
  show "length types = 129" using assms by (auto simp: rescuers_parsed_def MAX_RESCUER_CONF_LINES_def)
qed

lemma rescuer_lookup:
  assumes "types = map Some ts @ None # cs"
  shows "get_rescuer_type_by_name name types =
    Inr (List.find (\<lambda>r. rescuer_type_name r = trim_right name) ts, trim_right name)"
  by (simp add: get_rescuer_type_by_name_def Let_def assms scan_null_terminated_find)

text \<open>A line that is accepted adds its type.\<close>

definition legal_fields :: "rescuer_type_fields \<Rightarrow> bool" where
  "legal_fields f \<longleftrightarrow> 1 \<le> field_amount f \<and> field_amount f \<le> 1000 \<and> 1 \<le> field_speed f \<and> field_speed f \<le> 100
     \<and> 0 \<le> field_x f \<and> field_x f \<le> max_x_coordinate f \<and> 0 \<le> field_y f \<and> field_y f \<le> max_y_coordinate f
     \<and> trim_right (field_name f) = field_name f"

lemma add_type:
  assumes "rescuers_parsed mx my ts types st" and "legal_fields f" "max_x_coordinate f = mx" "max_y_coordinate f = my"
    and "field_name f \<notin> rescuer_type_name ` set ts" and "length ts \<le> 64"
  shows "rescuers_parsed mx my (ts @ [read_type f (store_next st)])
    (types[length ts := Some (read_type f (store_next st))]) (snd (mallocate_and_populate_rescuer_type f st))"
proof -
  let ?r = "read_type f (store_next st)"
  let ?st = "snd (mallocate_and_populate_rescuer_type f st)"
  have st: "rescuer_digital_twins_total_count st = int (store_next st)"
    and cat: "concat (map type_twins ts) = [0..<store_next st]" using assms(1) by (simp_all add: rescuers_parsed_def)
  have old: "t < store_next st" if "r \<in> set ts" "t \<in> set (type_twins r)" for r t
  proof -
    have "t \<in> set (concat (map type_twins ts))" using that by auto
    then show ?thesis unfolding cat by simp
  qed
  have cells: "types[length ts := Some ?r] = map Some (ts @ [?r]) @ replicate (MAX_RESCUER_CONF_LINES + 1 - length (ts @ [?r])) None"
  proof -
    have n: "MAX_RESCUER_CONF_LINES + 1 - length ts = Suc (128 - length ts)"
      "MAX_RESCUER_CONF_LINES + 1 - length (ts @ [?r]) = 128 - length ts"
      using assms(6) by (simp_all add: MAX_RESCUER_CONF_LINES_def)
    have "types = map Some ts @ replicate (MAX_RESCUER_CONF_LINES + 1 - length ts) None"
      using assms(1) unfolding rescuers_parsed_def by blast
    then have "types = map Some ts @ None # replicate (128 - length ts) None" unfolding n by simp
    then show ?thesis unfolding n by (simp add: list_update_append)
  qed
  have cat2: "concat (map type_twins (ts @ [?r])) = [0..<store_next st + nat (field_amount f)]"
    using cat upt_add_eq_append [of 0 "store_next st" "nat (field_amount f)"] by (simp add: read_type_twins)
  have legal: "legal_type mx my ?r"
    using assms(2,3,4) read_type_twins [of f "store_next st"]
    by (simp add: legal_type_def legal_fields_def) (simp add: read_type_def twin_cells_def)
  have dist: "distinct (map rescuer_type_name (ts @ [?r]))"
    using assms(1,2,5) by (simp add: rescuers_parsed_def legal_fields_def read_type_def)
  have all: "legal_type mx my r \<and> (\<forall>t \<in> set (type_twins r). store_heap ?st t = new_twin r t)"
    if r: "r \<in> set (ts @ [?r])" for r
  proof (cases "r \<in> set ts")
    case True
    then have "legal_type mx my r" "\<forall>t \<in> set (type_twins r). store_heap st t = new_twin r t"
      using assms(1) unfolding rescuers_parsed_def by blast+
    moreover have "store_heap ?st t = store_heap st t" if "t \<in> set (type_twins r)" for t
      using old [OF True that] by (simp add: populate_type [OF st] read_type_twins)
    ultimately show ?thesis by simp
  next
    case False
    then have "r = ?r" using r by simp
    then show ?thesis using legal by (simp add: populate_type [OF st])
  qed
  have nxt: "store_next ?st = store_next st + nat (field_amount f)"
    and tot: "rescuer_digital_twins_total_count ?st = int (store_next ?st)"
    by (simp_all add: populate_type [OF st])
  show ?thesis unfolding rescuers_parsed_def
  proof (intro conjI)
    show "length (ts @ [?r]) \<le> 65" using assms(6) by simp
    show "\<forall>r \<in> set (ts @ [?r]). legal_type mx my r \<and> (\<forall>t \<in> set (type_twins r). store_heap ?st t = new_twin r t)"
      using all by blast
    show "concat (map type_twins (ts @ [?r])) = [0..<store_next ?st]" unfolding nxt by (rule cat2)
  qed (rule cells dist tot)+
qed

definition same_map :: "rescuer_type_fields \<Rightarrow> rescuer_type_fields \<Rightarrow> bool" where
  "same_map f g \<longleftrightarrow> max_x_coordinate g = max_x_coordinate f \<and> max_y_coordinate g = max_y_coordinate f"

text \<open>What a line does: it is refused for good, or a duplicate, or it is accepted with legal fields.\<close>

lemma extract_type_line:
  assumes "line ps = Some l" and "rescuers_parsed mx my ts types st"
  shows "check_and_extract_rescuer_type_fields_from_line ps types flds =
    (case sscanf RESCUERS_SYNTAX l of
       Inl e \<Rightarrow> Inl e
     | Inr [Scanned_String name, Scanned_Int a, Scanned_Int sp, Scanned_Int x, Scanned_Int y] \<Rightarrow>
         (let f = flds\<lparr>field_name := name, field_amount := a, field_speed := sp, field_x := x, field_y := y\<rparr> in
          if rescuer_type_values_are_illegal f then Inr (False, ps\<lparr>should_continue_parsing := False\<rparr>, f)
          else Inr (trim_right name \<notin> rescuer_type_name ` set ts, ps, f\<lparr>field_name := trim_right name\<rparr>))
     | _ \<Rightarrow> Inr (False, ps\<lparr>should_continue_parsing := False\<rparr>, flds))"
proof -
  obtain cs where cs: "types = map Some ts @ None # cs" using rescuers_parsed_cells [OF assms(2)] by blast
  have "List.find (\<lambda>r. rescuer_type_name r = n) ts = None \<longleftrightarrow> n \<notin> rescuer_type_name ` set ts" for n
    by (auto simp: find_None_iff)
  then show ?thesis using assms(1)
    by (simp add: check_and_extract_rescuer_type_fields_from_line_def rescuer_lookup [OF cs] Let_def rbind_def
        split: sum.split list.split scanned.split)
qed

lemma extract_type_cases:
  assumes "line ps = Some l" and "rescuers_parsed mx my ts types st" and "sscanf RESCUERS_SYNTAX l = Inr vs"
  shows "\<exists>good ps' f. check_and_extract_rescuer_type_fields_from_line ps types flds = Inr (good, ps', f) \<and> same_map flds f
    \<and> (good \<or> should_continue_parsing ps' \<longrightarrow> ps' = ps)
    \<and> (good \<longrightarrow> legal_fields f \<and> field_name f \<notin> rescuer_type_name ` set ts) \<and> unread ps' = unread ps \<and> parsed_so_far ps' = parsed_so_far ps"
  unfolding extract_type_line [OF assms(1,2)] assms(3)
  by (auto simp: Let_def same_map_def legal_fields_def rescuer_type_values_are_illegal_def
      split: list.split scanned.split)

text \<open>The loop: it ends, it fails only where a scan does, and what it returns is in order.\<close>

lemma rescuers_loop_correct:
  assumes "length (unread ps) < n" and "rescuers_parsed (max_x_coordinate flds) (max_y_coordinate flds) ts types st"
    and "parsed_so_far ps = int (length ts)"
  shows "(\<exists>e. rescuers_loop n ps types flds st = Inl e \<and> (\<exists>l \<in> set (unread ps). sscanf RESCUERS_SYNTAX l = Inl e))
    \<or> rescuers_loop n ps types flds st = Inr None
    \<or> (\<exists>ps' types' st' ts'. rescuers_loop n ps types flds st = Inr (Some (ps', types', st'))
        \<and> rescuers_parsed (max_x_coordinate flds) (max_y_coordinate flds) ts' types' st'
        \<and> parsed_so_far ps' = int (length ts'))"
  using assms
proof (induction n arbitrary: ps types flds st ts)
  case 0
  then show ?case by simp
next
  case (Suc n)
  let ?mx = "max_x_coordinate flds" and ?my = "max_y_coordinate flds"
  show ?case
  proof (cases "unread ps")
    case Nil
    then have "rescuers_loop (Suc n) ps types flds st = Inr (Some (ps, types, st))" by simp
    then show ?thesis using Suc.prems(2,3) by blast
  next
    case (Cons l ls)
    define ps1 where "ps1 = ps\<lparr>unread := ls, line := Some l, line_number := line_number ps + 1\<rparr>"
    define ok where "ok \<longleftrightarrow> line_number ps1 \<le> int MAX_RESCUER_CONF_LINES \<and> parsed_so_far ps1 \<le> MAX_RESCUER_TYPES_COUNT
      \<and> data_line MAX_RESCUER_CONF_LINE_LENGTH l"
    obtain ps2 where chk: "check_if_line_can_be_processed ps1 (int MAX_RESCUER_CONF_LINES) MAX_RESCUER_TYPES_COUNT
        MAX_RESCUER_CONF_LINE_LENGTH = Inr (ok, ps2)" and ps2: "ok \<longrightarrow> ps2 = ps1"
      "unread ps2 = ls" "parsed_so_far ps2 = parsed_so_far ps" "line ps2 = Some l"
      using check_line [of ps1 l] by (simp add: ps1_def ok_def data_line_def split: if_splits)
    have run: "rescuers_loop (Suc n) ps types flds st =
      (if \<not> ok then (if should_continue_parsing ps2 then rescuers_loop n ps2 types flds st else Inr None)
       else rbind (check_and_extract_rescuer_type_fields_from_line ps2 types flds) (\<lambda>(good, ps3, f).
            if \<not> good then
              if should_continue_parsing ps3 then rescuers_loop n ps3 types f st else Inr None
            else
              let (r, st') = mallocate_and_populate_rescuer_type f st
              in rbind (arr_set types (parsed_so_far ps3) (Some r)) (\<lambda>types'.
                 rescuers_loop n (ps3\<lparr>parsed_so_far := parsed_so_far ps3 + 1\<rparr>) types' f st')))"
      using Cons chk by (simp add: ps1_def [symmetric])
    have sub: "set ls \<subseteq> set (unread ps)" using Cons by auto
    have n: "length ls < n" using Suc.prems(1) Cons by simp
    show ?thesis
    proof (cases ok)
      case False
      show ?thesis
      proof (cases "should_continue_parsing ps2")
        case True
        have "length (unread ps2) < n" "parsed_so_far ps2 = int (length ts)" using n ps2 Suc.prems(3) by simp_all
        from Suc.IH [OF this(1) Suc.prems(2) this(2)] show ?thesis using run False True sub ps2(2) by auto
      qed (use run False in simp)
    next
      case True
      show ?thesis
      proof (cases "sscanf RESCUERS_SYNTAX l")
        case (Inl e)
        then have "rescuers_loop (Suc n) ps types flds st = Inl e"
          using run True extract_type_line [OF ps2(4) Suc.prems(2)] by simp
        then show ?thesis using Inl Cons by auto
      next
        case (Inr vs)
        from extract_type_cases [OF ps2(4) Suc.prems(2) Inr, of flds] obtain good ps3 f where
          ex: "check_and_extract_rescuer_type_fields_from_line ps2 types flds = Inr (good, ps3, f)" "same_map flds f"
            "good \<longrightarrow> legal_fields f \<and> field_name f \<notin> rescuer_type_name ` set ts" "unread ps3 = ls"
            "parsed_so_far ps3 = int (length ts)"
          using ps2(2,3) Suc.prems(3) by auto
        have inv: "rescuers_parsed (max_x_coordinate f) (max_y_coordinate f) ts types st"
          using Suc.prems(2) ex(2) by (simp add: same_map_def)
        have n3: "length (unread ps3) < n" using n ex(4) by simp
        show ?thesis
        proof (cases good)
          case False
          show ?thesis
          proof (cases "should_continue_parsing ps3")
            case True
            from Suc.IH [OF n3 inv ex(5)] show ?thesis
              using run ex(1,2,4) \<open>ok\<close> False True sub by (auto simp: same_map_def)
          qed (use run ex(1) \<open>ok\<close> False in simp)
        next
          case True
          define r where "r = read_type f (store_next st)"
          define st' where "st' = snd (mallocate_and_populate_rescuer_type f st)"
          define types' where "types' = types[length ts := Some r]"
          have le: "length ts \<le> 64" using \<open>ok\<close> ps2(1,3) Suc.prems(3)
            by (simp add: ok_def ps1_def MAX_RESCUER_TYPES_COUNT_def)
          have inv': "rescuers_parsed (max_x_coordinate f) (max_y_coordinate f) (ts @ [r]) types' st'"
            unfolding r_def types'_def st'_def using add_type [OF inv _ _ _ _ le] ex(3) True by simp
          have "mallocate_and_populate_rescuer_type f st = (r, st')"
            using inv populate_type [of st f] by (simp add: rescuers_parsed_def r_def st'_def)
          moreover have "arr_set types (parsed_so_far ps3) (Some r) = Inr types'"
            using rescuers_parsed_cells(2) [OF inv] le ex(5) by (simp add: arr_set_def types'_def)
          ultimately have run': "rescuers_loop (Suc n) ps types flds st
              = rescuers_loop n (ps3\<lparr>parsed_so_far := parsed_so_far ps3 + 1\<rparr>) types' f st'"
            using run ex(1) \<open>ok\<close> True by simp
          have "parsed_so_far (ps3\<lparr>parsed_so_far := parsed_so_far ps3 + 1\<rparr>) = int (length (ts @ [r]))"
            using ex(5) by simp
          from Suc.IH [OF _ inv' this] n3 ex(2,4) sub show ?thesis
            unfolding run' by (auto simp: same_map_def)
        qed
      qed
    qed
  qed
qed

section \<open>Properties\<close>

text \<open>The empty store, with which the process starts, and the state of the server a file gives.\<close>

definition no_twins :: "(twin_ptr \<Rightarrow> rescuer_digital_twin) \<Rightarrow> twin_store" where
  "no_twins h = \<lparr>store_heap = h, store_next = 0, rescuer_digital_twins_total_count = 0\<rparr>"

lemma parse_rescuers_cases:
  "(\<exists>e. parse_rescuers (Some ls) mx my (no_twins h) = Inl e \<and> (\<exists>l \<in> set ls. sscanf RESCUERS_SYNTAX l = Inl e))
    \<or> parse_rescuers (Some ls) mx my (no_twins h) = Inr None
    \<or> (\<exists>rs st ts. parse_rescuers (Some ls) mx my (no_twins h) = Inr (Some (rs, st))
        \<and> rescuers_parsed mx my ts (parsed_types rs) st \<and> parsed_count rs = int (length ts))"
proof -
  let ?ps = "\<lparr>unread = ls, line = None, line_number = 0, parsed_so_far = 0, should_continue_parsing = True\<rparr>"
  let ?f = "no_fields\<lparr>max_x_coordinate := mx, max_y_coordinate := my\<rparr>"
  have "rescuers_parsed (max_x_coordinate ?f) (max_y_coordinate ?f) [] callocate_rescuer_types (no_twins h)"
    by (simp add: rescuers_parsed_def callocate_rescuer_types_def no_twins_def)
  from rescuers_loop_correct [OF _ this, of ?ps "length ls + 1"] show ?thesis
    by (auto simp: parse_rescuers_def mallocate_parsing_state_def simp del: rescuers_loop.simps)
qed

lemma rescuers_parsed_inv:
  assumes p: "rescuers_parsed mx my ts types st" and s: "rescuer_types s = types" "twin_at s = store_heap st"
  shows "types_inv s" and "{t. known s t} = {..<store_next st}"
    and "known s t \<Longrightarrow> twin_at s t = new_twin (rescuer (twin_at s t)) t"
proof -
  obtain cs where cs: "types = map Some ts @ replicate cs None" using p by (auto simp: rescuers_parsed_def)
  have mem: "Some r \<in> set types \<longleftrightarrow> r \<in> set ts" for r unfolding cs by auto
  have cat: "concat (map type_twins ts) = [0..<store_next st]"
    and each: "\<And>r. r \<in> set ts \<Longrightarrow> legal_type mx my r \<and> (\<forall>t \<in> set (type_twins r). store_heap st t = new_twin r t)"
    and names: "distinct (map rescuer_type_name ts)" using p unfolding rescuers_parsed_def by blast+
  show known: "{t. known s t} = {..<store_next st}"
  proof -
    have "{t. known s t} = set (concat (map type_twins ts))" by (auto simp: known_def s mem)
    then show ?thesis unfolding cat by auto
  qed
  have fresh: "twin_at s t = new_twin r t" if "r \<in> set ts" "t \<in> set (type_twins r)" for r t
    using each that s by simp
  show "known s t \<Longrightarrow> twin_at s t = new_twin (rescuer (twin_at s t)) t"
    using fresh by (auto simp: known_def s mem new_twin_def)
  have dist: "distinct (type_twins r)" if "r \<in> set ts" for r
  proof -
    have "distinct (concat (map type_twins ts))" unfolding cat by simp
    then show ?thesis using that by (auto simp: distinct_concat_iff)
  qed
  have ok: "type_ok s r" if r: "r \<in> set ts" for r
  proof -
    have l: "legal_type mx my r" using each [OF r] by blast
    have tk: "take (nat (amount r)) (twins r) = map Some (type_twins r)" using l by (simp add: legal_type_def)
    have "twin_ok s t \<and> rescuer (twin_at s t) = r" if "t \<in> set (type_twins r)" for t
      using fresh [OF r that] l
      by (simp add: twin_ok_def new_twin_def legal_type_def mallocate_bresenham_trajectory_def)
    moreover have "int (length (twins r)) = amount r + 1" using l by (simp add: legal_type_def)
    ultimately show ?thesis using tk dist [OF r] by (auto simp: type_ok_def)
  qed
  have "r = r'" if "r \<in> set ts" "r' \<in> set ts" "rescuer_type_name r = rescuer_type_name r'" for r r'
    using names that by (auto simp: distinct_map inj_on_def)
  moreover have "inj_on (\<lambda>t. twin_id (twin_at s t)) {t. known s t}"
  proof (rule inj_onI)
    fix t u assume "t \<in> {t. known s t}" "u \<in> {t. known s t}" "twin_id (twin_at s t) = twin_id (twin_at s u)"
    then show "t = u" using fresh by (auto simp: known_def s mem new_twin_def)
  qed
  ultimately show "types_inv s" using ok unfolding types_inv_def s mem by blast
qed

text \<open>
  C21. Whatever the file holds, the parser of the rescuers ends; it fails only where a line of the
  file does not fit the buffers of the scan, and a file that is accepted gives the server a
  consistent state: an array of at most 65 types with different names that ends in \<open>NULL\<close>, each
  with as many twins as it states, all different, numbered from 0, idle at their base.
\<close>

theorem parse_rescuers_correct:
  "(\<exists>e. parse_rescuers (Some ls) mx my (no_twins h) = Inl e \<and> (\<exists>l \<in> set ls. sscanf RESCUERS_SYNTAX l = Inl e))
    \<or> parse_rescuers (Some ls) mx my (no_twins h) = Inr None
    \<or> (\<exists>rs st ts. parse_rescuers (Some ls) mx my (no_twins h) = Inr (Some (rs, st))
        \<and> (\<exists>cs. parsed_types rs = map Some ts @ None # cs) \<and> parsed_count rs = int (length ts) \<and> length ts \<le> 65
        \<and> (\<forall>s. rescuer_types s = parsed_types rs \<and> twin_at s = store_heap st \<longrightarrow>
             types_inv s \<and> {t. known s t} = {..<store_next st}
             \<and> (\<forall>t < store_next st. twin_at s t = new_twin (rescuer (twin_at s t)) t)))"
  using parse_rescuers_cases [of ls mx my h]
proof (elim disjE exE conjE)
  fix rs st ts
  assume p: "parse_rescuers (Some ls) mx my (no_twins h) = Inr (Some (rs, st))"
    "rescuers_parsed mx my ts (parsed_types rs) st" "parsed_count rs = int (length ts)"
  have "types_inv s \<and> {t. known s t} = {..<store_next st}
      \<and> (\<forall>t < store_next st. twin_at s t = new_twin (rescuer (twin_at s t)) t)"
    if "rescuer_types s = parsed_types rs" "twin_at s = store_heap st" for s
    using rescuers_parsed_inv [OF p(2) that] by auto
  moreover have "length ts \<le> 65" using p(2) by (simp add: rescuers_parsed_def)
  ultimately show ?thesis using p(1,3) rescuers_parsed_cells(1) [OF p(2)] by blast
qed blast+

definition accepted :: "(rescuers_data \<times> twin_store) option res \<Rightarrow> bool" where
  "accepted r = (case r of Inr (Some _) \<Rightarrow> True | _ \<Rightarrow> False)"

lemma accepted_iff: "accepted r \<longleftrightarrow> (\<exists>rs st. r = Inr (Some (rs, st)))"
  by (auto simp: accepted_def split: sum.splits option.splits)

theorem parse_rescuers_correct_witness:
  "\<exists>rs st. parse_rescuers (Some [''# RESCUERS'', ''[Van][2][3][1;1]'', ''[Fast car ][1][9][0;2]'']) 9 9 (no_twins sample_twin) = Inr (Some (rs, st))
    \<and> types_inv (sample_server\<lparr>rescuer_types := parsed_types rs, twin_at := store_heap st\<rparr>)"
proof -
  let ?ls = "[''# RESCUERS'', ''[Van][2][3][1;1]'', ''[Fast car ][1][9][0;2]'']"
  have "accepted (parse_rescuers (Some ?ls) 9 9 (no_twins sample_twin))" by code_simp
  then obtain rs st where r: "parse_rescuers (Some ?ls) 9 9 (no_twins sample_twin) = Inr (Some (rs, st))"
    unfolding accepted_iff by blast
  then show ?thesis using parse_rescuers_correct [of ?ls 9 9 sample_twin] by force
qed

section \<open>Reading back a file\<close>

text \<open>The line of a type.\<close>

definition rescuer_line :: "rescuer_type_fields \<Rightarrow> string" where
  "rescuer_line f = ''['' @ field_name f @ '']['' @ digits_of (nat (field_amount f)) @ '']['' @ digits_of (nat (field_speed f))
     @ '']['' @ digits_of (nat (field_x f)) @ '';'' @ digits_of (nat (field_y f)) @ '']'' @ [CHR 0x0A]"

definition name_fits :: "string \<Rightarrow> bool" where
  "name_fits name \<longleftrightarrow> name \<noteq> [] \<and> CHR '']'' \<notin> set name"

lemma scan_rescuer_line:
  assumes "legal_fields f" and "name_fits (field_name f)" and "length (field_name f) < 128"
    and "max_x_coordinate f \<le> 1024" "max_y_coordinate f \<le> 1024"
  shows "sscanf RESCUERS_SYNTAX (rescuer_line f) = Inr [Scanned_String (field_name f), Scanned_Int (field_amount f),
    Scanned_Int (field_speed f), Scanned_Int (field_x f), Scanned_Int (field_y f)]"
proof -
  have fits: "int (nat (field_amount f)) \<le> INT_MAX" "int (nat (field_speed f)) \<le> INT_MAX"
    "int (nat (field_x f)) \<le> INT_MAX" "int (nat (field_y f)) \<le> INT_MAX"
    using assms(1,4,5) by (simp_all add: legal_fields_def INT_MAX_def)
  have nat: "0 \<le> field_amount f" "0 \<le> field_speed f" "0 \<le> field_x f" "0 \<le> field_y f"
    using assms(1) by (simp_all add: legal_fields_def)
  have digit: "\<not> is_digit (CHR '']'')" "\<not> is_digit (CHR '';'')" by (simp_all add: is_digit_def)
  have name: "field_name f \<noteq> []" "\<forall>c \<in> set (field_name f). c \<noteq> CHR '']''" using assms(2) by (auto simp: name_fits_def)
  note set = sscanf_set [OF name, of 128 128]
  have nil: "sscanf (lits '']'') ('']'' @ [CHR 0x0A]) = Inr []" by (simp add: lits_def)
  show ?thesis
    unfolding RESCUERS_SYNTAX_def rescuer_line_def MAX_RESCUER_NAME_LENGTH_def sscanf_lits
    using assms(3) fits nat digit nil
    by (simp add: set sscanf_int sscanf_lits del: sscanf.simps append_Cons append_Nil)
qed

lemma rescuer_line_data:
  assumes "legal_fields f" and "length (field_name f) < 128"
    and "max_x_coordinate f \<le> 1024" "max_y_coordinate f \<le> 1024"
  shows "data_line MAX_RESCUER_CONF_LINE_LENGTH (rescuer_line f)"
proof -
  have d: "length (digits_of (nat v)) \<le> 4" if "v \<le> 1024" for v using length_digits_of [of "nat v" 3] that by simp
  have "length (digits_of (nat (field_amount f))) \<le> 4" "length (digits_of (nat (field_speed f))) \<le> 4"
    "length (digits_of (nat (field_x f))) \<le> 4" "length (digits_of (nat (field_y f))) \<le> 4"
    by (rule d, use assms in \<open>simp add: legal_fields_def\<close>)+
  then have "length (rescuer_line f) \<le> 512" using assms(2) by (simp add: rescuer_line_def)
  then show ?thesis
    by (simp add: data_line_def rescuer_line_def line_is_comment_def COMMENT_CHAR_def is_line_empty_def isspace_def
        MAX_RESCUER_CONF_LINE_LENGTH_def)
qed

text \<open>The types of a list of lines, whose twins follow each other.\<close>

fun types_from :: "twin_ptr \<Rightarrow> rescuer_type_fields list \<Rightarrow> rescuer_type list" where
  "types_from first [] = []"
| "types_from first (f # fs) = read_type f first # types_from (first + nat (field_amount f)) fs"

definition good_line :: "int \<Rightarrow> int \<Rightarrow> rescuer_type_fields \<Rightarrow> bool" where
  "good_line mx my f \<longleftrightarrow> legal_fields f \<and> name_fits (field_name f) \<and> length (field_name f) < 128
     \<and> max_x_coordinate f = mx \<and> max_y_coordinate f = my"

lemma read_line:
  assumes "good_line mx my f" "max_x_coordinate flds = mx" "max_y_coordinate flds = my" "mx \<le> 1024" "my \<le> 1024"
    and "rescuers_parsed mx my ts types st" and "field_name f \<notin> rescuer_type_name ` set ts" and "line ps = Some (rescuer_line f)"
  shows "check_and_extract_rescuer_type_fields_from_line ps types flds = Inr (True, ps, f)"
proof -
  have g: "legal_fields f" "name_fits (field_name f)" "length (field_name f) < 128" "max_x_coordinate f = mx" "max_y_coordinate f = my"
    using assms(1) by (simp_all add: good_line_def)
  have sc: "sscanf RESCUERS_SYNTAX (rescuer_line f) = Inr [Scanned_String (field_name f), Scanned_Int (field_amount f),
    Scanned_Int (field_speed f), Scanned_Int (field_x f), Scanned_Int (field_y f)]"
    using scan_rescuer_line [OF g(1-3)] g(4,5) assms(4,5) by simp
  have f: "flds\<lparr>field_name := field_name f, field_amount := field_amount f, field_speed := field_speed f,
      field_x := field_x f, field_y := field_y f\<rparr> = f"
    using assms(2,3) g(4,5) by (intro rescuer_type_fields.equality) simp_all
  have "\<not> rescuer_type_values_are_illegal f" "trim_right (field_name f) = field_name f"
    using g(1,2) by (auto simp: rescuer_type_values_are_illegal_def legal_fields_def name_fits_def)
  moreover have "f\<lparr>field_name := field_name f\<rparr> = f" by simp
  ultimately show ?thesis
    unfolding extract_type_line [OF assms(8,6)] sc using assms(7) f by (simp add: Let_def)
qed

lemma rescuers_loop_reads:
  assumes "unread ps = map rescuer_line fs" "length fs < n" "\<forall>f \<in> set fs. good_line mx my f"
    and "max_x_coordinate flds = mx" "max_y_coordinate flds = my" "mx \<le> 1024" "my \<le> 1024"
    and "rescuers_parsed mx my ts types st" "distinct (map rescuer_type_name ts @ map field_name fs)"
    and "line_number ps + int (length fs) \<le> 128" "parsed_so_far ps = int (length ts)" "length ts + length fs \<le> 65"
  shows "\<exists>ps' types' st'. rescuers_loop n ps types flds st = Inr (Some (ps', types', st'))
    \<and> rescuers_parsed mx my (ts @ types_from (store_next st) fs) types' st' \<and> parsed_so_far ps' = int (length ts + length fs)"
  using assms
proof (induction fs arbitrary: n ps flds ts types st)
  case Nil
  then obtain m where "n = Suc m" by (cases n) auto
  with Nil show ?case by simp
next
  case (Cons f fs)
  then obtain m where m: "n = Suc m" by (cases n) auto
  define ps1 where "ps1 = ps\<lparr>unread := map rescuer_line fs, line := Some (rescuer_line f), line_number := line_number ps + 1\<rparr>"
  define r where "r = read_type f (store_next st)"
  define st' where "st' = snd (mallocate_and_populate_rescuer_type f st)"
  define types' where "types' = types[length ts := Some r]"
  have g: "good_line mx my f" using Cons.prems(3) by simp
  then have gf: "legal_fields f" "max_x_coordinate f = mx" "max_y_coordinate f = my" by (simp_all add: good_line_def)
  have new: "field_name f \<notin> rescuer_type_name ` set ts" using Cons.prems(9) by auto
  have le: "length ts \<le> 64" using Cons.prems(12) by simp
  have "data_line MAX_RESCUER_CONF_LINE_LENGTH (rescuer_line f)"
    using rescuer_line_data [of f] g Cons.prems(6,7) by (simp add: good_line_def)
  then have chk: "check_if_line_can_be_processed ps1 (int MAX_RESCUER_CONF_LINES) MAX_RESCUER_TYPES_COUNT
      MAX_RESCUER_CONF_LINE_LENGTH = Inr (True, ps1)"
    using Cons.prems(10,11) le
    by (subst check_line [of _ "rescuer_line f"])
       (simp_all add: ps1_def MAX_RESCUER_CONF_LINES_def MAX_RESCUER_TYPES_COUNT_def data_line_def)
  have ex: "check_and_extract_rescuer_type_fields_from_line ps1 types flds = Inr (True, ps1, f)"
    by (rule read_line [OF g Cons.prems(4-8) new]) (simp add: ps1_def)
  have pop: "mallocate_and_populate_rescuer_type f st = (r, st')" "store_next st' = store_next st + nat (field_amount f)"
    using Cons.prems(8) populate_type [of st f] by (simp_all add: rescuers_parsed_def r_def st'_def)
  have "arr_set types (int (length ts)) (Some r) = Inr types'"
    using rescuers_parsed_cells(2) [OF Cons.prems(8)] le by (simp add: arr_set_def types'_def)
  then have run: "rescuers_loop n ps types flds st
      = rescuers_loop m (ps1\<lparr>parsed_so_far := parsed_so_far ps1 + 1\<rparr>) types' f st'"
    using Cons.prems(1,11) chk ex pop(1) unfolding m by (simp add: ps1_def [symmetric]) (simp add: ps1_def)
  have inv: "rescuers_parsed mx my (ts @ [r]) types' st'"
    unfolding r_def types'_def st'_def by (rule add_type [OF Cons.prems(8) gf new le])
  have rn: "rescuer_type_name r = field_name f" using gf(1) by (simp add: r_def read_type_def legal_fields_def)
  have "\<exists>ps' types'' st''. rescuers_loop m (ps1\<lparr>parsed_so_far := parsed_so_far ps1 + 1\<rparr>) types' f st' = Inr (Some (ps', types'', st''))
    \<and> rescuers_parsed mx my ((ts @ [r]) @ types_from (store_next st') fs) types'' st''
    \<and> parsed_so_far ps' = int (length (ts @ [r]) + length fs)"
    by (rule Cons.IH [OF _ _ _ gf(2,3) Cons.prems(6,7) inv])
       (use Cons.prems m rn in \<open>auto simp: ps1_def\<close>)
  then show ?case unfolding run by (simp add: pop(2) r_def)
qed

text \<open>
  C22. A file that states types with different names is read back: the array holds them in the
  order of the lines with the values written, and the twins are numbered through.
\<close>

theorem parse_rescuers_roundtrip:
  assumes "\<forall>f \<in> set fs. good_line mx my f" and "mx \<le> 1024" "my \<le> 1024"
    and "distinct (map field_name fs)" and "length fs \<le> 65"
  shows "\<exists>rs st cs. parse_rescuers (Some (map rescuer_line fs)) mx my (no_twins h) = Inr (Some (rs, st))
    \<and> parsed_types rs = map Some (types_from 0 fs) @ None # cs \<and> parsed_count rs = int (length fs)
    \<and> store_next st = sum_list (map (\<lambda>f. nat (field_amount f)) fs)"
proof -
  let ?ps = "\<lparr>unread = map rescuer_line fs, line = None, line_number = 0, parsed_so_far = 0, should_continue_parsing = True\<rparr>"
  have inv: "rescuers_parsed mx my [] callocate_rescuer_types (no_twins h)"
    by (simp add: rescuers_parsed_def callocate_rescuer_types_def no_twins_def)
  have "\<exists>ps' types' st'. rescuers_loop (length fs + 1) ?ps callocate_rescuer_types
      (no_fields\<lparr>max_x_coordinate := mx, max_y_coordinate := my\<rparr>) (no_twins h) = Inr (Some (ps', types', st'))
    \<and> rescuers_parsed mx my ([] @ types_from (store_next (no_twins h)) fs) types' st'
    \<and> parsed_so_far ps' = int (length ([] :: rescuer_type list) + length fs)"
    using assms inv by (intro rescuers_loop_reads) simp_all
  then obtain ps' types' st' where loop: "rescuers_loop (length fs + 1) ?ps callocate_rescuer_types
      (no_fields\<lparr>max_x_coordinate := mx, max_y_coordinate := my\<rparr>) (no_twins h) = Inr (Some (ps', types', st'))"
    and p: "rescuers_parsed mx my (types_from 0 fs) types' st'" "parsed_so_far ps' = int (length fs)"
    by (auto simp: no_twins_def)
  have total: "concat (map type_twins (types_from n fs)) = [n..<n + sum_list (map (\<lambda>f. nat (field_amount f)) fs)]" for n
  proof (induction fs arbitrary: n)
    case (Cons f fs)
    then show ?case
      using upt_add_eq_append [of n "n + nat (field_amount f)" "sum_list (map (\<lambda>f. nat (field_amount f)) fs)"]
      by (simp add: read_type_twins add.assoc)
  qed simp
  have "[0..<store_next st'] = [0..<0 + sum_list (map (\<lambda>f. nat (field_amount f)) fs)]"
    using p(1) total [of 0] by (simp add: rescuers_parsed_def)
  from arg_cong [OF this, of length] have "store_next st' = sum_list (map (\<lambda>f. nat (field_amount f)) fs)"
    by simp
  then show ?thesis using rescuers_parsed_cells(1) [OF p(1)] loop p(2)
    by (simp add: parse_rescuers_def mallocate_parsing_state_def del: rescuers_loop.simps)
qed

definition van_line :: rescuer_type_fields where
  "van_line = \<lparr>field_name = ''Fast van'', field_amount = 12, field_speed = 2, field_x = 48, field_y = 7,
     max_x_coordinate = 100, max_y_coordinate = 90\<rparr>"

theorem parse_rescuers_roundtrip_witness:
  "rescuer_line van_line = ''[Fast van][12][2][48;7]'' @ [CHR 0x0A]
    \<and> (\<exists>rs st cs. parse_rescuers (Some [rescuer_line van_line]) 100 90 (no_twins sample_twin) = Inr (Some (rs, st))
    \<and> parsed_types rs = Some (read_type van_line 0) # None # cs \<and> store_next st = 12)"
proof -
  have "good_line 100 90 van_line" by code_simp
  moreover have "rescuer_line van_line = ''[Fast van][12][2][48;7]'' @ [CHR 0x0A]" by code_simp
  moreover have "field_amount van_line = 12" by (simp add: van_line_def)
  ultimately show ?thesis using parse_rescuers_roundtrip [of "[van_line]" 100 90 sample_twin] by simp blast
qed

end
