(* ===== verification/Parse_Emergencies.thy ===== *)
theory Parse_Emergencies
  imports Parse_Rescuers
begin

text \<open>
  The parser of the emergency types, \<^verbatim>\<open>parse_emergencies.c\<close>, up to the requests of an
  emergency that a client sends. The table of priorities is an argument, as in the source, where
  the parser keeps it in two static variables.
\<close>

section \<open>Formats and fields\<close>

definition MAX_EMERGENCY_NAME_LENGTH :: nat where
  "MAX_EMERGENCY_NAME_LENGTH = 64"

definition MAX_RESCUER_REQUESTS_LENGTH :: nat where
  "MAX_RESCUER_REQUESTS_LENGTH = 1024"

definition MAX_EMERGENCY_TYPES_COUNT :: nat where
  "MAX_EMERGENCY_TYPES_COUNT = 128"

definition MAX_RESCUER_REQ_NUMBER_PER_EMERGENCY :: nat where
  "MAX_RESCUER_REQ_NUMBER_PER_EMERGENCY = 16"

definition EMERGENCY_TYPE_SYNTAX :: "directive list" where
  "EMERGENCY_TYPE_SYNTAX = lits ''['' @
     Set_Conv MAX_EMERGENCY_NAME_LENGTH MAX_EMERGENCY_NAME_LENGTH (\<lambda>c. c \<noteq> CHR '']'') # lits '']'' @
     White # lits ''['' @ Short_Conv # lits '']'' @
     [White, Set_Conv MAX_RESCUER_REQUESTS_LENGTH (MAX_RESCUER_REQUESTS_LENGTH + 1) (\<lambda>c. c \<noteq> CHR 0x0A)]"

definition RESCUER_REQUEST_SYNTAX :: "directive list" where
  "RESCUER_REQUEST_SYNTAX =
     Set_Conv MAX_RESCUER_NAME_LENGTH MAX_RESCUER_NAME_LENGTH (\<lambda>c. c \<noteq> CHR '':'') # lits '':'' @
     Int_Conv # lits '','' @ [Int_Conv]"

definition EMERGENCY_REQUEST_SYNTAX :: "directive list" where
  "EMERGENCY_REQUEST_SYNTAX =
     Set_Conv MAX_EMERGENCY_NAME_LENGTH MAX_EMERGENCY_NAME_LENGTH (\<lambda>c. \<not> is_digit c) #
     [White, Int_Conv, White, Int_Conv, White, Int_Conv]"

record emergency_type_fields =
  ef_priority :: int
  ef_desc :: string
  ef_requests_string :: string
  ef_req_number :: int
  ef_rescuers :: "rescuer_request option list"

record emergencies_data =
  parsed_emergency_types :: "emergency_type option list"
  parsed_emergency_count :: int

section \<open>the requests of a type\<close>

definition callocate_rescuer_requests :: "rescuer_request option list" where
  "callocate_rescuer_requests = replicate MAX_RESCUER_REQ_NUMBER_PER_EMERGENCY None"

definition mallocate_and_populate_rescuer_request :: "int \<Rightarrow> int \<Rightarrow> rescuer_type \<Rightarrow> rescuer_request" where
  "mallocate_and_populate_rescuer_request count time type =
     \<lparr>req_type = type, required_count = count, time_to_manage = time\<rparr>"

definition rescuer_request_values_are_illegal :: "string \<Rightarrow> int \<Rightarrow> int \<Rightarrow> bool" where
  "rescuer_request_values_are_illegal name count time \<longleftrightarrow>
     length name \<le> 0 \<or> count < 1 \<or> count > 32 \<or> time < 1 \<or> time > 1000"

text \<open>\<open>None\<close> stands for \<open>false\<close>, with parsing stopped.\<close>

definition check_and_extract_rescuer_request_fields_from_token ::
  "int \<Rightarrow> string \<Rightarrow> (string \<times> int \<times> int) option res" where
  "check_and_extract_rescuer_request_fields_from_token requests_parsed_so_far token =
    (if requests_parsed_so_far > int MAX_RESCUER_REQ_NUMBER_PER_EMERGENCY then Inr None
     else rbind (sscanf RESCUER_REQUEST_SYNTAX token) (\<lambda>vs.
       case vs of
         [Scanned_String name, Scanned_Int count, Scanned_Int time] \<Rightarrow>
           Inr (if rescuer_request_values_are_illegal name count time then None else Some (name, count, time))
       | _ \<Rightarrow> Inr None))"

definition check_if_rescuer_request_already_parsed :: "rescuer_request option list \<Rightarrow> string \<Rightarrow> bool res" where
  "check_if_rescuer_request_already_parsed reqs name =
     rbind (get_rescuer_request_by_name name reqs) (\<lambda>i. Inr (i \<noteq> None))"

definition check_if_rescuer_requested_is_available ::
  "rescuer_type option list \<Rightarrow> string \<Rightarrow> int \<Rightarrow> (bool \<times> string) res" where
  "check_if_rescuer_requested_is_available types name count =
     rbind (get_rescuer_type_by_name name types) (\<lambda>(type, name').
     case type of
       None \<Rightarrow> Inr (False, name')
     | Some r \<Rightarrow> Inr (\<not> count > amount r, name'))"

text \<open>The next token and the rest of the string, which \<^verbatim>\<open>strtok\<close> remembers.\<close>

definition strtok :: "char \<Rightarrow> string \<Rightarrow> (string \<times> string) option" where
  "strtok sep s =
    (let s1 = dropWhile (\<lambda>c. c = sep) s
     in if s1 = [] then None
        else Some (takeWhile (\<lambda>c. c \<noteq> sep) s1, drop 1 (dropWhile (\<lambda>c. c \<noteq> sep) s1)))"

text \<open>The loop over the tokens, each of which shortens the string.\<close>

fun requests_loop :: "nat \<Rightarrow> rescuer_type option list \<Rightarrow> string \<Rightarrow> rescuer_request option list \<Rightarrow> int \<Rightarrow>
    (rescuer_request option list \<times> int) option res" where
  "requests_loop 0 types s reqs k = Inl NonTermination"
| "requests_loop (Suc n) types s reqs k =
    (case strtok (CHR '';'') s of
       None \<Rightarrow> Inr (Some (reqs, k))
     | Some (token, s') \<Rightarrow>
         rbind (check_and_extract_rescuer_request_fields_from_token k token) (\<lambda>fs.
         case fs of
           None \<Rightarrow> Inr None
         | Some (name, count, time) \<Rightarrow>
             rbind (check_if_rescuer_request_already_parsed reqs name) (\<lambda>dup.
             if dup then requests_loop n types s' reqs k
             else rbind (check_if_rescuer_requested_is_available types name count) (\<lambda>(available, name').
               if \<not> available then Inr None
               else rbind (get_rescuer_type_by_name name' types) (\<lambda>(r, _).
                    rbind (deref r) (\<lambda>r.
                    rbind (arr_set reqs k (Some (mallocate_and_populate_rescuer_request count time r))) (\<lambda>reqs'.
                    requests_loop n types s' reqs' (k + 1))))))))"

definition check_and_extract_rescuer_requests_from_string ::
  "parsing_state \<Rightarrow> rescuer_type option list \<Rightarrow> emergency_type_fields \<Rightarrow> (bool \<times> parsing_state \<times> emergency_type_fields) res" where
  "check_and_extract_rescuer_requests_from_string ps types f =
     rbind (requests_loop (length (ef_requests_string f) + 1) types (ef_requests_string f) callocate_rescuer_requests 0)
       (\<lambda>res. case res of
          None \<Rightarrow> Inr (False, ps\<lparr>should_continue_parsing := False\<rparr>, f)
        | Some (reqs, k) \<Rightarrow> Inr (True, ps, f\<lparr>ef_req_number := k, ef_rescuers := reqs\<rparr>))"

section \<open>The types\<close>

fun priority_in_table :: "int \<Rightarrow> priority_rule list \<Rightarrow> nat \<Rightarrow> bool res" where
  "priority_in_table p tbl 0 = Inr False"
| "priority_in_table p [] (Suc n) = Inl OutOfBounds"
| "priority_in_table p (r # tbl) (Suc n) = (if p = rule_number r then Inr True else priority_in_table p tbl n)"

definition emergency_values_are_illegal :: "priority_rule list \<Rightarrow> int \<Rightarrow> emergency_type_fields \<Rightarrow> bool res" where
  "emergency_values_are_illegal tbl n f =
    (if length (ef_desc f) \<le> 0 then Inr True
     else rbind (priority_in_table (ef_priority f) tbl (nat n)) (\<lambda>found. Inr (\<not> found)))"

definition check_and_extract_simple_emergency_type_fields_from_line ::
  "priority_rule list \<Rightarrow> int \<Rightarrow> parsing_state \<Rightarrow> emergency_type_fields \<Rightarrow> (bool \<times> parsing_state \<times> emergency_type_fields) res" where
  "check_and_extract_simple_emergency_type_fields_from_line tbl n ps f =
     rbind (deref (line ps)) (\<lambda>s.
     rbind (sscanf EMERGENCY_TYPE_SYNTAX s) (\<lambda>vs.
     case vs of
       [Scanned_String desc, Scanned_Int p, Scanned_String rs] \<Rightarrow>
         let f1 = f\<lparr>ef_desc := desc, ef_priority := p, ef_requests_string := rs\<rparr>
         in rbind (emergency_values_are_illegal tbl n f1) (\<lambda>illegal.
            Inr (if illegal then (False, ps\<lparr>should_continue_parsing := False\<rparr>, f1) else (True, ps, f1)))
     | _ \<Rightarrow> Inr (False, ps\<lparr>should_continue_parsing := False\<rparr>, f)))"

definition check_if_emergency_type_already_parsed ::
  "emergency_type option list \<Rightarrow> emergency_type_fields \<Rightarrow> (bool \<times> emergency_type_fields) res" where
  "check_if_emergency_type_already_parsed types f =
     rbind (get_emergency_type_by_name (ef_desc f) types) (\<lambda>(e, name'). Inr (e \<noteq> None, f\<lparr>ef_desc := name'\<rparr>))"

definition check_and_extract_emergency_type_fields_from_line ::
  "priority_rule list \<Rightarrow> int \<Rightarrow> parsing_state \<Rightarrow> emergency_type option list \<Rightarrow> rescuer_type option list \<Rightarrow>
   emergency_type_fields \<Rightarrow> (bool \<times> parsing_state \<times> emergency_type_fields) res" where
  "check_and_extract_emergency_type_fields_from_line tbl n ps etypes rtypes f =
     rbind (check_and_extract_simple_emergency_type_fields_from_line tbl n ps f) (\<lambda>(ok, ps1, f1).
     if \<not> ok then Inr (False, ps1, f1)
     else rbind (check_if_emergency_type_already_parsed etypes f1) (\<lambda>(dup, f2).
       if dup then Inr (False, ps1, f2)
       else check_and_extract_rescuer_requests_from_string ps1 rtypes f2))"

definition mallocate_and_populate_emergency_type :: "emergency_type_fields \<Rightarrow> emergency_type" where
  "mallocate_and_populate_emergency_type f =
     \<lparr>type_priority = ef_priority f, emergency_desc = trim_right (ef_desc f), rescuers = ef_rescuers f,
      rescuers_req_number = ef_req_number f\<rparr>"

definition callocate_emergency_types :: "emergency_type option list" where
  "callocate_emergency_types = replicate (MAX_EMERGENCY_TYPES_COUNT + 1) None"

fun emergencies_loop :: "nat \<Rightarrow> priority_rule list \<Rightarrow> int \<Rightarrow> parsing_state \<Rightarrow> emergency_type option list \<Rightarrow>
    rescuer_type option list \<Rightarrow> emergency_type_fields \<Rightarrow> (parsing_state \<times> emergency_type option list) option res" where
  "emergencies_loop 0 tbl n ps etypes rtypes f = Inl NonTermination"
| "emergencies_loop (Suc m) tbl n ps etypes rtypes f =
    (let (more, ps1) = go_to_next_line ps
     in if \<not> more then Inr (Some (ps1, etypes))
        else rbind (check_if_line_can_be_processed ps1 (int MAX_RESCUER_CONF_LINES) MAX_RESCUER_TYPES_COUNT
                     MAX_RESCUER_CONF_LINE_LENGTH) (\<lambda>(ok, ps2).
          if \<not> ok then
            if should_continue_parsing ps2 then emergencies_loop m tbl n ps2 etypes rtypes f else Inr None
          else rbind (check_and_extract_emergency_type_fields_from_line tbl n ps2 etypes rtypes f) (\<lambda>(good, ps3, f').
            if \<not> good then
              if should_continue_parsing ps3 then emergencies_loop m tbl n ps3 etypes rtypes f' else Inr None
            else rbind (arr_set etypes (parsed_so_far ps3) (Some (mallocate_and_populate_emergency_type f'))) (\<lambda>etypes'.
              emergencies_loop m tbl n (ps3\<lparr>parsed_so_far := parsed_so_far ps3 + 1\<rparr>) etypes' rtypes f'))))"

definition no_emergency_fields :: emergency_type_fields where
  "no_emergency_fields = \<lparr>ef_priority = 0, ef_desc = [], ef_requests_string = [], ef_req_number = 0, ef_rescuers = []\<rparr>"

definition parse_emergencies ::
  "conf_file \<Rightarrow> rescuers_data \<Rightarrow> priority_rule list \<Rightarrow> int \<Rightarrow> emergencies_data option res" where
  "parse_emergencies file rdata tbl n =
     rbind (mallocate_parsing_state file) (\<lambda>ps.
     rbind (emergencies_loop (length (unread ps) + 1) tbl n ps callocate_emergency_types (parsed_types rdata)
             no_emergency_fields) (\<lambda>res.
     Inr (map_option (\<lambda>(ps', etypes). \<lparr>parsed_emergency_types = etypes, parsed_emergency_count = parsed_so_far ps'\<rparr>) res)))"

section \<open>the requests of clients\<close>

record emergency_request =
  emergency_name :: string
  request_x :: int
  request_y :: int
  timestamp :: int

text \<open>The check trims the name in place; what is left of it is returned.\<close>

definition emergency_request_values_are_illegal ::
  "emergency_type option list \<Rightarrow> int \<Rightarrow> int \<Rightarrow> string \<Rightarrow> int \<Rightarrow> int \<Rightarrow> (bool \<times> string) res" where
  "emergency_request_values_are_illegal types envh envw name x y =
    (if length name \<le> 0 then Inr (True, name)
     else rbind (get_emergency_type_by_name name types) (\<lambda>(e, name').
       if e = None then Inr (True, name')
       else if ABS x < 0 \<or> ABS x > ABS envw then Inr (True, name')
       else if ABS y < 0 \<or> ABS y > ABS envh then Inr (True, name')
       else Inr (False, name')))"

definition parse_emergency_request ::
  "int \<Rightarrow> string \<Rightarrow> emergency_type option list \<Rightarrow> int \<Rightarrow> int \<Rightarrow> emergency_request option res" where
  "parse_emergency_request now message types envh envw =
     rbind (sscanf EMERGENCY_REQUEST_SYNTAX message) (\<lambda>vs.
     case vs of
       [Scanned_String n, Scanned_Int x, Scanned_Int y, Scanned_Int d] \<Rightarrow>
         rbind (emergency_request_values_are_illegal types envh envw n x y) (\<lambda>(illegal, n').
         Inr (if illegal then None
              else Some \<lparr>emergency_name = n', request_x = x, request_y = y, timestamp = now\<rparr>))
     | _ \<Rightarrow> Inr None)"

end
