(* ===== verification/Emergencies_File.thy ===== *)
theory Emergencies_File
  imports Parse_Emergencies Samples
begin

text \<open>
  What the parser of the emergency types accepts: whatever the file holds, the loops end and the
  types read are well formed; and a file that states types is read back.
\<close>

section \<open>Failures of a scan\<close>

lemma scan_directive_fails: "scan_directive d s = Inl e \<Longrightarrow> e = OutOfBounds \<or> e = SignedOverflow"
  by (cases d) (auto simp: store_string_def int_conv_def split: if_splits prod.splits option.splits
      sum.splits list.splits scanned.splits)

lemma sscanf_fails: "sscanf ds s = Inl e \<Longrightarrow> e = OutOfBounds \<or> e = SignedOverflow"
proof (induction ds arbitrary: s)
  case (Cons d ds)
  then show ?case using scan_directive_fails [of d s] by (auto simp: res_simps split: option.splits)
qed simp

section \<open>The requests of a type\<close>

definition legal_request :: "rescuer_type list \<Rightarrow> rescuer_request \<Rightarrow> bool" where
  "legal_request ts q \<longleftrightarrow> req_type q \<in> set ts \<and> 1 \<le> required_count q \<and> required_count q \<le> 32
     \<and> required_count q \<le> amount (req_type q) \<and> 1 \<le> time_to_manage q \<and> time_to_manage q \<le> 1000"

definition request_cells :: "rescuer_request list \<Rightarrow> rescuer_request option list" where
  "request_cells qs = map Some qs @ replicate (MAX_RESCUER_REQ_NUMBER_PER_EMERGENCY - length qs) None"

lemma length_request_cells: "length qs \<le> 16 \<Longrightarrow> length (request_cells qs) = 16"
  by (simp add: request_cells_def MAX_RESCUER_REQ_NUMBER_PER_EMERGENCY_def)

lemma add_request:
  assumes "length qs < 16"
  shows "arr_set (request_cells qs) (int (length qs)) (Some q) = Inr (request_cells (qs @ [q]))"
proof -
  have n: "MAX_RESCUER_REQ_NUMBER_PER_EMERGENCY - length qs = Suc (15 - length qs)"
    "MAX_RESCUER_REQ_NUMBER_PER_EMERGENCY - length (qs @ [q]) = 15 - length qs"
    using assms by (simp_all add: MAX_RESCUER_REQ_NUMBER_PER_EMERGENCY_def)
  have "arr_set (request_cells qs) (int (length qs)) (Some q) = Inr ((request_cells qs)[length qs := Some q])"
    using assms length_request_cells [of qs] by (intro arr_set_nth) simp
  then show ?thesis unfolding request_cells_def n by (simp add: list_update_append)
qed

text \<open>
  The look-up of a request among those read so far; the array has no room for a final
  \<open>NULL\<close> when it is full.
\<close>

lemma request_lookup:
  assumes "length qs \<le> 16"
  shows "check_if_rescuer_request_already_parsed (request_cells qs) name =
    (if name \<in> get_name_of_rescuer_requested ` set qs then Inr True
     else if length qs < 16 then Inr False else Inl OutOfBounds)"
proof -
  have "get_rescuer_request_by_name name (map Some qs @ replicate n None) =
      (if name \<in> get_name_of_rescuer_requested ` set qs
       then Inr (Some (length (takeWhile (\<lambda>q. get_name_of_rescuer_requested q \<noteq> name) qs)))
       else if 0 < n then Inr None else Inl OutOfBounds)" for n
    by (induction qs) (cases n; auto)+
  then show ?thesis using assms
    by (simp add: check_if_rescuer_request_already_parsed_def request_cells_def MAX_RESCUER_REQ_NUMBER_PER_EMERGENCY_def)
qed

lemma strtok_shorter: "strtok sep s = Some (t, s') \<Longrightarrow> length s' < length s"
proof -
  assume "strtok sep s = Some (t, s')"
  then have a: "dropWhile (\<lambda>c. c = sep) s \<noteq> []"
    and s': "s' = drop 1 (dropWhile (\<lambda>c. c \<noteq> sep) (dropWhile (\<lambda>c. c = sep) s))"
    by (auto simp: strtok_def Let_def split: if_splits)
  from a obtain c cs where c: "dropWhile (\<lambda>c. c = sep) s = c # cs" "c \<noteq> sep"
    by (metis (mono_tags) hd_dropWhile list.exhaust_sel list.sel(1))
  have "length s' \<le> length (dropWhile (\<lambda>c. c \<noteq> sep) cs)" using c s' by simp
  also have "\<dots> \<le> length cs" by (rule length_dropWhile_le)
  also have "\<dots> < length (dropWhile (\<lambda>c. c = sep) s)" using c by simp
  also have "\<dots> \<le> length s" by (rule length_dropWhile_le)
  finally show ?thesis .
qed

lemma rescuer_by_name:
  assumes "rtypes = map Some ts @ None # cs"
  shows "\<exists>r. get_rescuer_type_by_name name rtypes = Inr (r, trim_right name) \<and> (\<forall>v. r = Some v \<longrightarrow> v \<in> set ts)"
  unfolding rescuer_lookup [OF assms] by (auto simp: find_Some_iff)

lemma requests_loop_correct:
  assumes "length s < n" and "rtypes = map Some ts @ None # cs" and "length qs \<le> 16" "\<forall>q \<in> set qs. legal_request ts q"
  shows "(\<exists>e. requests_loop n rtypes s (request_cells qs) (int (length qs)) = Inl e \<and> (e = OutOfBounds \<or> e = SignedOverflow))
    \<or> requests_loop n rtypes s (request_cells qs) (int (length qs)) = Inr None
    \<or> (\<exists>qs'. requests_loop n rtypes s (request_cells qs) (int (length qs)) = Inr (Some (request_cells qs', int (length qs')))
        \<and> length qs' \<le> 16 \<and> (\<forall>q \<in> set qs'. legal_request ts q))"
  using assms
proof (induction n arbitrary: s qs)
  case (Suc n)
  let ?k = "int (length qs)"
  show ?case
  proof (cases "strtok (CHR '';'') s")
    case None
    then show ?thesis using Suc.prems(3,4) by auto
  next
    case (Some p)
    obtain token s' where p: "p = (token, s')" by (cases p)
    have sh: "length s' < n" using strtok_shorter [of "CHR '';''" s token s'] Some p Suc.prems(1) by simp
    define ext where "ext = check_and_extract_rescuer_request_fields_from_token ?k token"
    consider (bad) e where "ext = Inl e" "e = OutOfBounds \<or> e = SignedOverflow" | (stop) "ext = Inr None"
      | (fields) name count time where "ext = Inr (Some (name, count, time))" "1 \<le> count" "count \<le> 32" "1 \<le> time" "time \<le> 1000"
    proof (cases "ext")
      case (Inl e)
      then have "sscanf RESCUER_REQUEST_SYNTAX token = Inl e"
        by (auto simp: ext_def check_and_extract_rescuer_request_fields_from_token_def rbind_def
            split: if_splits sum.splits list.splits scanned.splits)
      then show ?thesis using bad Inl sscanf_fails by blast
    next
      case (Inr r)
      then show ?thesis using stop fields
        by (cases r) (auto simp: ext_def check_and_extract_rescuer_request_fields_from_token_def rbind_def
            rescuer_request_values_are_illegal_def split: if_splits sum.splits list.splits scanned.splits)
    qed
    then show ?thesis
    proof cases
      case bad
      then show ?thesis using Some p by (simp add: ext_def)
    next
      case stop
      then show ?thesis using Some p by (simp add: ext_def)
    next
      case fields
      note look = request_lookup [OF Suc.prems(3), of name]
      show ?thesis
      proof (cases "name \<in> get_name_of_rescuer_requested ` set qs")
        case True
        then show ?thesis using Suc.IH [OF sh Suc.prems(2-4)] fields(1) Some p look by (simp add: ext_def)
      next
        case False
        show ?thesis
        proof (cases "length qs < 16")
          case room: True
          obtain r where r: "get_rescuer_type_by_name name rtypes = Inr (r, trim_right name)" "\<forall>v. r = Some v \<longrightarrow> v \<in> set ts"
            "get_rescuer_type_by_name (trim_right name) rtypes = Inr (r, trim_right name)"
            using rescuer_by_name [OF Suc.prems(2), of name] rescuer_lookup [OF Suc.prems(2)] by auto
          show ?thesis
          proof (cases "\<exists>v. r = Some v \<and> count \<le> amount v")
            case True
            then obtain v where v: "r = Some v" "count \<le> amount v" by blast
            let ?q = "mallocate_and_populate_rescuer_request count time v"
            have "requests_loop (Suc n) rtypes s (request_cells qs) ?k
                = requests_loop n rtypes s' (request_cells (qs @ [?q])) (int (length (qs @ [?q])))"
              using Some p fields(1) look False room r v add_request [OF room, of ?q]
              by (simp add: ext_def check_if_rescuer_requested_is_available_def add.commute)
            moreover have "\<forall>q \<in> set (qs @ [?q]). legal_request ts q"
              using Suc.prems(4) fields(2-) v r(2) by (auto simp: legal_request_def mallocate_and_populate_rescuer_request_def)
            moreover have "length (qs @ [?q]) \<le> 16" using room by simp
            ultimately show ?thesis using Suc.IH [OF sh Suc.prems(2)] by presburger
          next
            case no: False
            have "check_if_rescuer_requested_is_available rtypes name count = Inr (False, trim_right name)"
              using no r(1) by (cases r) (auto simp: check_if_rescuer_requested_is_available_def)
            then show ?thesis using Some p fields(1) look False room by (simp add: ext_def)
          qed
        next
          case full: False
          then show ?thesis using Some p fields(1) look False by (simp add: ext_def)
        qed
      qed
    qed
  qed
qed simp

section \<open>The types\<close>

definition legal_emergency :: "rescuer_type list \<Rightarrow> priority_rule list \<Rightarrow> emergency_type \<Rightarrow> bool" where
  "legal_emergency ts tbl e \<longleftrightarrow>
     (\<exists>qs. rescuers e = request_cells qs \<and> rescuers_req_number e = int (length qs) \<and> length qs \<le> 16
        \<and> (\<forall>q \<in> set qs. legal_request ts q))
     \<and> type_priority e \<in> rule_number ` set tbl \<and> trim_right (emergency_desc e) = emergency_desc e"

definition emergency_cells :: "emergency_type list \<Rightarrow> emergency_type option list" where
  "emergency_cells es = map Some es @ replicate (MAX_EMERGENCY_TYPES_COUNT + 1 - length es) None"

definition emergencies_parsed :: "rescuer_type list \<Rightarrow> priority_rule list \<Rightarrow> emergency_type list \<Rightarrow> bool" where
  "emergencies_parsed ts tbl es \<longleftrightarrow> length es \<le> 65 \<and> distinct (map emergency_desc es)
     \<and> (\<forall>e \<in> set es. legal_emergency ts tbl e)"

lemma emergency_cells_end:
  assumes "length es \<le> 65"
  shows "\<exists>cs. emergency_cells es = map Some es @ None # cs" "length (emergency_cells es) = 129"
proof -
  have "MAX_EMERGENCY_TYPES_COUNT + 1 - length es = Suc (128 - length es)"
    using assms by (simp add: MAX_EMERGENCY_TYPES_COUNT_def)
  then show "\<exists>cs. emergency_cells es = map Some es @ None # cs" "length (emergency_cells es) = 129"
    using assms by (simp_all add: emergency_cells_def)
qed

lemma add_emergency:
  assumes "length es \<le> 64"
  shows "arr_set (emergency_cells es) (int (length es)) (Some e) = Inr (emergency_cells (es @ [e]))"
proof -
  have n: "MAX_EMERGENCY_TYPES_COUNT + 1 - length es = Suc (128 - length es)"
    "MAX_EMERGENCY_TYPES_COUNT + 1 - length (es @ [e]) = 128 - length es"
    using assms by (simp_all add: MAX_EMERGENCY_TYPES_COUNT_def)
  have "arr_set (emergency_cells es) (int (length es)) (Some e) = Inr ((emergency_cells es)[length es := Some e])"
    using assms emergency_cells_end(2) [of es] by (intro arr_set_nth) simp
  then show ?thesis unfolding emergency_cells_def n by (simp add: list_update_append)
qed

lemma emergency_lookup:
  assumes "length es \<le> 65"
  shows "get_emergency_type_by_name name (emergency_cells es) =
    Inr (List.find (\<lambda>e. emergency_desc e = trim_right name) es, trim_right name)"
proof -
  obtain cs where "emergency_cells es = map Some es @ None # cs" using emergency_cells_end [OF assms] by blast
  then show ?thesis by (simp add: get_emergency_type_by_name_def Let_def scan_null_terminated_find)
qed

lemma priority_in_table:
  assumes "n \<le> length tbl"
  shows "priority_in_table p tbl n = Inr (p \<in> rule_number ` set (take n tbl))"
  using assms by (induction p tbl n rule: priority_in_table.induct) auto

text \<open>A line is refused for good, or is a duplicate, or gives a legal type with a new name.\<close>

lemma emergency_line_cases:
  assumes "line ps = Some l" and "rtypes = map Some ts @ None # cs" and "emergencies_parsed ts tbl es"
    and "n = int (length tbl)"
  shows "(\<exists>e. check_and_extract_emergency_type_fields_from_line tbl n ps (emergency_cells es) rtypes f = Inl e
        \<and> (e = OutOfBounds \<or> e = SignedOverflow))
    \<or> (\<exists>good ps' f'. check_and_extract_emergency_type_fields_from_line tbl n ps (emergency_cells es) rtypes f = Inr (good, ps', f')
        \<and> (good \<longrightarrow> legal_emergency ts tbl (mallocate_and_populate_emergency_type f')
              \<and> emergency_desc (mallocate_and_populate_emergency_type f') \<notin> emergency_desc ` set es)
        \<and> unread ps' = unread ps \<and> parsed_so_far ps' = parsed_so_far ps)"
proof -
  let ?simple = "check_and_extract_simple_emergency_type_fields_from_line tbl n ps f"
  have n: "priority_in_table p tbl (nat n) = Inr (p \<in> rule_number ` set tbl)" for p
    using priority_in_table [of "nat n" tbl p] assms(4) by simp
  have simple: "(\<exists>e. ?simple = Inl e \<and> (e = OutOfBounds \<or> e = SignedOverflow))
    \<or> (\<exists>ok ps1 f1. ?simple = Inr (ok, ps1, f1) \<and> (ok \<longrightarrow> ef_priority f1 \<in> rule_number ` set tbl)
        \<and> unread ps1 = unread ps \<and> parsed_so_far ps1 = parsed_so_far ps)"
  proof (cases "sscanf EMERGENCY_TYPE_SYNTAX l")
    case (Inl e)
    then show ?thesis using sscanf_fails [OF Inl] assms(1)
      by (simp add: check_and_extract_simple_emergency_type_fields_from_line_def)
  next
    case (Inr vs)
    then show ?thesis using assms(1)
      by (auto simp: check_and_extract_simple_emergency_type_fields_from_line_def Let_def n
          emergency_values_are_illegal_def split: list.split scanned.split)
  qed
  then show ?thesis
  proof (elim disjE exE conjE)
    fix e assume "?simple = Inl e" "e = OutOfBounds"
    then show ?thesis by (simp add: check_and_extract_emergency_type_fields_from_line_def)
  next
    fix e assume "?simple = Inl e" "e = SignedOverflow"
    then show ?thesis by (simp add: check_and_extract_emergency_type_fields_from_line_def)
  next
    fix ok ps1 f1
    assume s: "?simple = Inr (ok, ps1, f1)" "ok \<longrightarrow> ef_priority f1 \<in> rule_number ` set tbl"
      "unread ps1 = unread ps" "parsed_so_far ps1 = parsed_so_far ps"
    define f2 where "f2 = f1\<lparr>ef_desc := trim_right (ef_desc f1)\<rparr>"
    define dup where "dup \<longleftrightarrow> trim_right (ef_desc f1) \<in> emergency_desc ` set es"
    have len: "length es \<le> 65" using assms(3) by (simp add: emergencies_parsed_def)
    have "(List.find (\<lambda>e. emergency_desc e = d) es \<noteq> None) = (d \<in> emergency_desc ` set es)" for d
      by (auto simp: find_None_iff)
    then have d: "check_if_emergency_type_already_parsed (emergency_cells es) f1 = Inr (dup, f2)"
      by (simp add: check_if_emergency_type_already_parsed_def emergency_lookup [OF len] f2_def dup_def)
    let ?loop = "requests_loop (length (ef_requests_string f2) + 1) rtypes (ef_requests_string f2) callocate_rescuer_requests 0"
    have run: "check_and_extract_emergency_type_fields_from_line tbl n ps (emergency_cells es) rtypes f =
      (if \<not> ok then Inr (False, ps1, f1) else if dup then Inr (False, ps1, f2)
       else rbind ?loop (\<lambda>res. case res of
          None \<Rightarrow> Inr (False, ps1\<lparr>should_continue_parsing := False\<rparr>, f2)
        | Some (reqs, k) \<Rightarrow> Inr (True, ps1, f2\<lparr>ef_req_number := k, ef_rescuers := reqs\<rparr>)))"
      using s(1) d by (simp add: check_and_extract_emergency_type_fields_from_line_def
          check_and_extract_rescuer_requests_from_string_def)
    have nil: "request_cells [] = callocate_rescuer_requests" by (simp add: request_cells_def callocate_rescuer_requests_def)
    have "(\<exists>e. ?loop = Inl e \<and> (e = OutOfBounds \<or> e = SignedOverflow)) \<or> ?loop = Inr None
      \<or> (\<exists>qs'. ?loop = Inr (Some (request_cells qs', int (length qs')))
        \<and> length qs' \<le> 16 \<and> (\<forall>q \<in> set qs'. legal_request ts q))"
      using requests_loop_correct [of "ef_requests_string f2" "length (ef_requests_string f2) + 1" rtypes ts cs "[]", OF _ assms(2)]
      unfolding nil by (simp del: requests_loop.simps)
    then show ?thesis
    proof (elim disjE exE conjE)
      fix qs' assume q: "?loop = Inr (Some (request_cells qs', int (length qs')))" "length qs' \<le> 16"
        "\<forall>q \<in> set qs'. legal_request ts q"
      let ?f' = "f2\<lparr>ef_req_number := int (length qs'), ef_rescuers := request_cells qs'\<rparr>"
      have "legal_emergency ts tbl (mallocate_and_populate_emergency_type ?f')" if ok
        using q s(2) that by (auto simp: legal_emergency_def mallocate_and_populate_emergency_type_def f2_def)
      moreover have "emergency_desc (mallocate_and_populate_emergency_type ?f') \<notin> emergency_desc ` set es" if "\<not> dup"
        using that by (simp add: mallocate_and_populate_emergency_type_def f2_def dup_def)
      ultimately show ?thesis unfolding run q(1) using s(3,4) by auto
    qed (use s(3,4) in \<open>auto simp: run simp del: requests_loop.simps\<close>)
  qed
qed

lemma emergencies_loop_correct:
  assumes "length (unread ps) < m" and "rtypes = map Some ts @ None # cs" and "emergencies_parsed ts tbl es"
    and "n = int (length tbl)" and "parsed_so_far ps = int (length es)"
  shows "(\<exists>e. emergencies_loop m tbl n ps (emergency_cells es) rtypes f = Inl e \<and> (e = OutOfBounds \<or> e = SignedOverflow))
    \<or> emergencies_loop m tbl n ps (emergency_cells es) rtypes f = Inr None
    \<or> (\<exists>ps' es'. emergencies_loop m tbl n ps (emergency_cells es) rtypes f = Inr (Some (ps', emergency_cells es'))
        \<and> emergencies_parsed ts tbl es' \<and> parsed_so_far ps' = int (length es'))"
  using assms
proof (induction m arbitrary: ps es f)
  case (Suc m)
  show ?case
  proof (cases "unread ps")
    case Nil
    then have "emergencies_loop (Suc m) tbl n ps (emergency_cells es) rtypes f = Inr (Some (ps, emergency_cells es))" by simp
    then show ?thesis using Suc.prems(3,5) by blast
  next
    case (Cons l ls)
    define ps1 where "ps1 = ps\<lparr>unread := ls, line := Some l, line_number := line_number ps + 1\<rparr>"
    obtain ok ps2 where chk: "check_if_line_can_be_processed ps1 (int MAX_RESCUER_CONF_LINES) MAX_RESCUER_TYPES_COUNT
        MAX_RESCUER_CONF_LINE_LENGTH = Inr (ok, ps2)" and ps2: "unread ps2 = ls" "parsed_so_far ps2 = int (length es)"
        "line ps2 = Some l" "ok \<longrightarrow> parsed_so_far ps \<le> MAX_RESCUER_TYPES_COUNT"
      using check_line [of ps1 l] Suc.prems(5) by (simp add: ps1_def split: if_splits)
    let ?ex = "check_and_extract_emergency_type_fields_from_line tbl n ps2 (emergency_cells es) rtypes f"
    have run: "emergencies_loop (Suc m) tbl n ps (emergency_cells es) rtypes f =
      (if \<not> ok then (if should_continue_parsing ps2 then emergencies_loop m tbl n ps2 (emergency_cells es) rtypes f else Inr None)
       else rbind ?ex (\<lambda>(good, ps3, f').
            if \<not> good then
              if should_continue_parsing ps3 then emergencies_loop m tbl n ps3 (emergency_cells es) rtypes f' else Inr None
            else rbind (arr_set (emergency_cells es) (parsed_so_far ps3) (Some (mallocate_and_populate_emergency_type f'))) (\<lambda>etypes'.
              emergencies_loop m tbl n (ps3\<lparr>parsed_so_far := parsed_so_far ps3 + 1\<rparr>) etypes' rtypes f')))"
      using Cons chk by (simp add: ps1_def [symmetric])
    have m: "length (unread ps2) < m" using Suc.prems(1) Cons ps2(1) by simp
    note again = Suc.IH [OF _ Suc.prems(2) _ Suc.prems(4)]
    show ?thesis
    proof (cases ok)
      case False
      then show ?thesis using run again [OF m Suc.prems(3) ps2(2)] by (cases "should_continue_parsing ps2") simp_all
    next
      case True
      have le: "length es \<le> 64" using True ps2(4) Suc.prems(5) by (simp add: MAX_RESCUER_TYPES_COUNT_def)
      from emergency_line_cases [OF ps2(3) Suc.prems(2,3,4), of f] show ?thesis
      proof (elim disjE exE conjE)
        fix good ps3 f'
        assume ex: "?ex = Inr (good, ps3, f')"
          "good \<longrightarrow> legal_emergency ts tbl (mallocate_and_populate_emergency_type f')
              \<and> emergency_desc (mallocate_and_populate_emergency_type f') \<notin> emergency_desc ` set es"
          "unread ps3 = unread ps2" "parsed_so_far ps3 = parsed_so_far ps2"
        have m3: "length (unread ps3) < m" using m ex(3) by simp
        have k3: "parsed_so_far ps3 = int (length es)" using ex(4) ps2(2) by simp
        show ?thesis
        proof (cases good)
          case False
          then show ?thesis using run \<open>ok\<close> ex(1) again [OF m3 Suc.prems(3) k3]
            by (cases "should_continue_parsing ps3") simp_all
        next
          case True
          let ?e = "mallocate_and_populate_emergency_type f'" and ?ps = "ps3\<lparr>parsed_so_far := parsed_so_far ps3 + 1\<rparr>"
          have "emergencies_loop (Suc m) tbl n ps (emergency_cells es) rtypes f
              = emergencies_loop m tbl n ?ps (emergency_cells (es @ [?e])) rtypes f'"
            using run \<open>ok\<close> ex(1) True add_emergency [OF le] k3 by simp
          moreover have "emergencies_parsed ts tbl (es @ [?e])"
            using Suc.prems(3) ex(2) True le by (auto simp: emergencies_parsed_def)
          moreover have "parsed_so_far ?ps = int (length (es @ [?e]))" "length (unread ?ps) < m" using k3 m3 by simp_all
          ultimately show ?thesis using again [of ?ps "es @ [?e]"] by presburger
        qed
      qed (use run True in simp_all)
    qed
  qed
qed simp

section \<open>Reading back requests\<close>

text \<open>A request as the file states it, and the names for which this can be read back.\<close>

definition request_text :: "string \<Rightarrow> int \<Rightarrow> int \<Rightarrow> string" where
  "request_text name count time = name @ '':'' @ digits_of (nat count) @ '','' @ digits_of (nat time)"

definition request_name_ok :: "string \<Rightarrow> bool" where
  "request_name_ok name \<longleftrightarrow> name \<noteq> [] \<and> length name < 128 \<and> CHR '':'' \<notin> set name \<and> CHR '';'' \<notin> set name"

lemma scan_request_text:
  assumes "request_name_ok name" and "0 \<le> count" "count \<le> 1000" "0 \<le> time" "time \<le> 1000"
  shows "sscanf RESCUER_REQUEST_SYNTAX (request_text name count time) = Inr [Scanned_String name, Scanned_Int count, Scanned_Int time]"
proof -
  have n: "name \<noteq> []" "\<forall>c \<in> set name. c \<noteq> CHR '':''" "length name < 128" using assms(1) by (auto simp: request_name_ok_def)
  have fits: "int (nat count) \<le> INT_MAX" "int (nat time) \<le> INT_MAX" using assms by (simp_all add: INT_MAX_def)
  have d: "\<not> is_digit (CHR '','')" by (simp add: is_digit_def)
  have last: "sscanf [Int_Conv] (digits_of (nat time)) = Inr [Scanned_Int time]"
    using sscanf_int [OF fits(2), of "[]" "[]"] assms(4) by simp
  show ?thesis
    unfolding RESCUER_REQUEST_SYNTAX_def request_text_def MAX_RESCUER_NAME_LENGTH_def
    using n fits d assms(2,4)
    by (simp add: sscanf_set [OF n(1,2), of 128 128] sscanf_int sscanf_lits last del: sscanf.simps append_Cons append_Nil)
qed

lemma digits_no_separator: "c \<in> set (digits_of n) \<Longrightarrow> c \<noteq> CHR '';''" "c \<in> set (digits_of n) \<Longrightarrow> c \<noteq> CHR 0x0A"
  using digits_of_is_digit [of n] by (auto simp: is_digit_def)

lemma request_text_token:
  assumes "request_name_ok name"
  shows "strtok (CHR '';'') (request_text name count time @ CHR '';'' # s) = Some (request_text name count time, s)"
    and "strtok (CHR '';'') (request_text name count time) = Some (request_text name count time, [])"
proof -
  let ?t = "request_text name count time"
  have t: "\<forall>c \<in> set ?t. c \<noteq> CHR '';''" using assms digits_no_separator by (auto simp: request_text_def request_name_ok_def)
  have ne: "?t \<noteq> []" "hd ?t \<noteq> CHR '';''" using t by (auto simp: request_text_def request_name_ok_def hd_append)
  have drop: "dropWhile (\<lambda>c. c = CHR '';'') (?t @ u) = ?t @ u" for u using ne by (cases ?t) auto
  have "takeWhile (\<lambda>c. c \<noteq> CHR '';'') (?t @ CHR '';'' # s) = ?t" "dropWhile (\<lambda>c. c \<noteq> CHR '';'') (?t @ CHR '';'' # s) = CHR '';'' # s"
    using t by (simp_all add: takeWhile_append2 dropWhile_append2)
  then show "strtok (CHR '';'') (?t @ CHR '';'' # s) = Some (?t, s)" using ne by (simp add: strtok_def drop)
  have all: "takeWhile (\<lambda>c. c \<noteq> CHR '';'') ?t = ?t" "dropWhile (\<lambda>c. c \<noteq> CHR '';'') ?t = []" using t by simp_all
  have "dropWhile (\<lambda>c. c = CHR '';'') ?t = ?t" using drop [of "[]"] by simp
  then show "strtok (CHR '';'') ?t = Some (?t, [])" unfolding strtok_def Let_def using ne(1) by (simp only: all) simp
qed

text \<open>One round of the loop over a token that states an acceptable request.\<close>

lemma requests_loop_token:
  assumes "rtypes = map Some ts @ None # cs" and "distinct (map rescuer_type_name ts)" and "length qs < 16"
    and "legal_request ts q" and "request_name_ok name" and "trim_right name = rescuer_type_name (req_type q)"
    and "name \<notin> get_name_of_rescuer_requested ` set qs"
    and "strtok (CHR '';'') s = Some (request_text name (required_count q) (time_to_manage q), s')"
  shows "requests_loop (Suc n) rtypes s (request_cells qs) (int (length qs))
    = requests_loop n rtypes s' (request_cells (qs @ [q])) (int (length (qs @ [q])))"
proof -
  have q: "req_type q \<in> set ts" "1 \<le> required_count q" "required_count q \<le> 32" "required_count q \<le> amount (req_type q)"
    "1 \<le> time_to_manage q" "time_to_manage q \<le> 1000" using assms(4) by (auto simp: legal_request_def)
  have "List.find (\<lambda>r. rescuer_type_name r = rescuer_type_name (req_type q)) ts = Some (req_type q)"
  proof (rule ccontr)
    assume no: "\<not> ?thesis"
    obtain v where v: "List.find (\<lambda>r. rescuer_type_name r = rescuer_type_name (req_type q)) ts = Some v"
      using q(1) by (cases "List.find (\<lambda>r. rescuer_type_name r = rescuer_type_name (req_type q)) ts") (auto simp: find_None_iff)
    then have "v \<in> set ts" "rescuer_type_name v = rescuer_type_name (req_type q)" by (auto simp: find_Some_iff)
    then have "v = req_type q" using assms(2) q(1) by (auto simp: distinct_map inj_on_def)
    then show False using no v by simp
  qed
  then have type: "get_rescuer_type_by_name name rtypes = Inr (Some (req_type q), rescuer_type_name (req_type q))"
    "get_rescuer_type_by_name (rescuer_type_name (req_type q)) rtypes = Inr (Some (req_type q), rescuer_type_name (req_type q))"
    using rescuer_lookup [OF assms(1)] assms(6) trim_right_idem [of name] by simp_all
  have "check_and_extract_rescuer_request_fields_from_token (int (length qs)) (request_text name (required_count q) (time_to_manage q))
      = Inr (Some (name, required_count q, time_to_manage q))"
    using scan_request_text [OF assms(5), of "required_count q" "time_to_manage q"] q assms(3,5)
    by (simp add: check_and_extract_rescuer_request_fields_from_token_def rescuer_request_values_are_illegal_def
        request_name_ok_def MAX_RESCUER_REQ_NUMBER_PER_EMERGENCY_def)
  moreover have "mallocate_and_populate_rescuer_request (required_count q) (time_to_manage q) (req_type q) = q"
    by (simp add: mallocate_and_populate_rescuer_request_def)
  moreover have "check_if_rescuer_request_already_parsed (request_cells qs) name = Inr False"
    using request_lookup [of qs name] assms(3,7) by simp
  ultimately show ?thesis
    using assms(3,8) type q(4) add_request [OF assms(3), of q]
    by (simp add: check_if_rescuer_requested_is_available_def add.commute)
qed

text \<open>The requests of a type, each followed by the separator.\<close>

fun requests_text :: "rescuer_request list \<Rightarrow> string" where
  "requests_text [] = []"
| "requests_text (q # qs) = request_text (get_name_of_rescuer_requested q) (required_count q) (time_to_manage q)
     @ CHR '';'' # requests_text qs"

definition stated_request :: "rescuer_type list \<Rightarrow> rescuer_request \<Rightarrow> bool" where
  "stated_request ts q \<longleftrightarrow> legal_request ts q \<and> request_name_ok (get_name_of_rescuer_requested q)
     \<and> trim_right (get_name_of_rescuer_requested q) = get_name_of_rescuer_requested q
     \<and> \<not> isspace (hd (get_name_of_rescuer_requested q)) \<and> CHR 0x0A \<notin> set (get_name_of_rescuer_requested q)"

lemma requests_loop_reads:
  assumes "rtypes = map Some ts @ None # cs" and "distinct (map rescuer_type_name ts)"
    and "\<forall>q \<in> set qs'. stated_request ts q" and "distinct (map get_name_of_rescuer_requested (qs @ qs'))"
    and "length (qs @ qs') \<le> 16" and "length qs' < n"
  shows "requests_loop n rtypes (requests_text qs') (request_cells qs) (int (length qs))
    = Inr (Some (request_cells (qs @ qs'), int (length (qs @ qs'))))"
  using assms
proof (induction qs' arbitrary: n qs)
  case Nil
  then obtain m where "n = Suc m" by (cases n) auto
  then show ?case by (simp add: strtok_def)
next
  case (Cons q qs')
  then obtain m where m: "n = Suc m" by (cases n) auto
  have st: "stated_request ts q" using Cons.prems(3) by simp
  then have "requests_loop (Suc m) rtypes (requests_text (q # qs')) (request_cells qs) (int (length qs))
    = requests_loop m rtypes (requests_text qs') (request_cells (qs @ [q])) (int (length (qs @ [q])))"
    using Cons.prems(1,2,4,5) request_text_token(1)
    by (intro requests_loop_token [where name = "get_name_of_rescuer_requested q"])
       (auto simp: stated_request_def get_name_of_rescuer_requested_def)
  also have "\<dots> = Inr (Some (request_cells ((qs @ [q]) @ qs'), int (length ((qs @ [q]) @ qs'))))"
    by (rule Cons.IH) (use Cons.prems m in auto)
  finally show ?case by (simp add: m)
qed

section \<open>Reading back a file\<close>

record stated_emergency =
  stated_desc :: string
  stated_priority :: nat
  stated_requests :: "rescuer_request list"

definition emergency_line :: "stated_emergency \<Rightarrow> string" where
  "emergency_line e = ''['' @ stated_desc e @ '']'' @ '' '' @ ''['' @ digits_of (stated_priority e) @ '']'' @ '' ''
     @ requests_text (stated_requests e) @ [CHR 0x0A]"

definition emergency_of :: "stated_emergency \<Rightarrow> emergency_type" where
  "emergency_of e = \<lparr>type_priority = int (stated_priority e), emergency_desc = stated_desc e,
     rescuers = request_cells (stated_requests e), rescuers_req_number = int (length (stated_requests e))\<rparr>"

definition good_emergency :: "rescuer_type list \<Rightarrow> priority_rule list \<Rightarrow> stated_emergency \<Rightarrow> bool" where
  "good_emergency ts tbl e \<longleftrightarrow>
     stated_desc e \<noteq> [] \<and> length (stated_desc e) < 64 \<and> CHR '']'' \<notin> set (stated_desc e) \<and> trim_right (stated_desc e) = stated_desc e
     \<and> int (stated_priority e) \<in> rule_number ` set tbl \<and> stated_priority e \<le> 32767
     \<and> stated_requests e \<noteq> [] \<and> length (stated_requests e) \<le> 16 \<and> (\<forall>q \<in> set (stated_requests e). stated_request ts q)
     \<and> distinct (map get_name_of_rescuer_requested (stated_requests e)) \<and> length (emergency_line e) \<le> 512"

lemma requests_text_no_newline:
  assumes "\<forall>q \<in> set qs. stated_request ts q"
  shows "CHR 0x0A \<notin> set (requests_text qs)" and "qs \<noteq> [] \<Longrightarrow> requests_text qs \<noteq> [] \<and> \<not> isspace (hd (requests_text qs))"
    and "length qs \<le> length (requests_text qs)"
proof -
  show "CHR 0x0A \<notin> set (requests_text qs)" using assms
    by (induction qs) (auto simp: stated_request_def request_text_def dest: digits_no_separator(2))
  show "qs \<noteq> [] \<Longrightarrow> requests_text qs \<noteq> [] \<and> \<not> isspace (hd (requests_text qs))" using assms
    by (cases qs) (auto simp: stated_request_def request_text_def request_name_ok_def hd_append)
  show "length qs \<le> length (requests_text qs)" by (induction qs) (auto simp: request_text_def)
qed

lemma isspace_blank: "isspace (CHR '' '')"
  by (simp add: isspace_def)

lemma sscanf_white_lit:
  "\<not> isspace c \<Longrightarrow> sscanf (White # Lit c # ds) (CHR '' '' # c # s) = sscanf ds s"
  by (cases "sscanf ds s") (simp_all add: isspace_blank)

lemma scan_emergency_line:
  assumes "good_emergency ts tbl e"
  shows "sscanf EMERGENCY_TYPE_SYNTAX (emergency_line e) = Inr [Scanned_String (stated_desc e),
    Scanned_Int (int (stated_priority e)), Scanned_String (requests_text (stated_requests e))]"
proof -
  have d: "stated_desc e \<noteq> []" "\<forall>c \<in> set (stated_desc e). c \<noteq> CHR '']''" "length (stated_desc e) < 64"
    and p: "int (stated_priority e) \<le> 32767" and q: "stated_requests e \<noteq> []" "\<forall>q \<in> set (stated_requests e). stated_request ts q"
    and len: "length (requests_text (stated_requests e)) \<le> 512"
    using assms by (auto simp: good_emergency_def emergency_line_def)
  let ?r = "requests_text (stated_requests e)"
  have r: "?r \<noteq> []" "\<not> isspace (hd ?r)" "\<forall>c \<in> set ?r. c \<noteq> CHR 0x0A"
    using requests_text_no_newline [OF q(2)] q(1) by auto
  have "sscanf [Set_Conv 1024 1025 (\<lambda>c. c \<noteq> CHR 0x0A)] (?r @ [CHR 0x0A])
      = rbind (sscanf [] [CHR 0x0A]) (\<lambda>ws. Inr (Scanned_String ?r # ws))"
    using r len by (intro sscanf_set) simp_all
  then have tail: "sscanf [Set_Conv 1024 1025 (\<lambda>c. c \<noteq> CHR 0x0A)] (?r @ [CHR 0x0A]) = Inr [Scanned_String ?r]" by simp
  have "dropWhile isspace ('' '' @ ?r @ [CHR 0x0A]) = ?r @ [CHR 0x0A]"
    using r by (cases ?r) (simp_all add: isspace_blank)
  then have white: "sscanf [White, Set_Conv 1024 1025 (\<lambda>c. c \<noteq> CHR 0x0A)] ('' '' @ ?r @ [CHR 0x0A]) = Inr [Scanned_String ?r]"
    using tail by (simp only: sscanf.simps(2) [of White] scan_directive.simps rbind_simps option.simps prod.case append_Nil)
  have "\<not> is_digit (CHR '']'')" by (simp add: is_digit_def)
  then have "int_conv (-32768) 32767 ([] @ digits_of (stated_priority e) @ '']'' @ '' '' @ ?r @ [CHR 0x0A])
      = Inr (Some ([Scanned_Int (int (stated_priority e))], '']'' @ '' '' @ ?r @ [CHR 0x0A]))"
    using p by (intro int_conv_digits) simp_all
  then have short: "sscanf (Short_Conv # lits '']'' @ ds) (digits_of (stated_priority e) @ '']'' @ '' '' @ ?r @ [CHR 0x0A])
      = rbind (sscanf ds ('' '' @ ?r @ [CHR 0x0A])) (\<lambda>ws. Inr (Scanned_Int (int (stated_priority e)) # ws))" for ds
    using sscanf_lits [of "'']''" ds "'' '' @ ?r @ [CHR 0x0A]"] by simp
  have "\<not> isspace (CHR ''['')" by (simp add: isspace_def)
  then have open_bracket: "sscanf (White # lits ''['' @ ds) ('' '' @ ''['' @ s) = sscanf ds s" for ds s
    using sscanf_white_lit [of "CHR ''[''" ds s] by (simp add: lits_def)
  show ?thesis
    unfolding EMERGENCY_TYPE_SYNTAX_def emergency_line_def MAX_EMERGENCY_NAME_LENGTH_def MAX_RESCUER_REQUESTS_LENGTH_def
    using d white
    by (simp add: sscanf_set [OF d(1,2), of 64 64] sscanf_lits short open_bracket del: sscanf.simps append_Cons append_Nil)
qed

lemma read_emergency_line:
  assumes "good_emergency ts tbl e" and "line ps = Some (emergency_line e)" and "rtypes = map Some ts @ None # cs"
    and "distinct (map rescuer_type_name ts)" and "n = int (length tbl)" and "length es \<le> 65"
    and "stated_desc e \<notin> emergency_desc ` set es"
  shows "\<exists>f'. check_and_extract_emergency_type_fields_from_line tbl n ps (emergency_cells es) rtypes f = Inr (True, ps, f')
    \<and> mallocate_and_populate_emergency_type f' = emergency_of e"
proof -
  let ?r = "requests_text (stated_requests e)"
  define f1 where "f1 = f\<lparr>ef_desc := stated_desc e, ef_priority := int (stated_priority e), ef_requests_string := ?r\<rparr>"
  have g: "stated_desc e \<noteq> []" "trim_right (stated_desc e) = stated_desc e" "int (stated_priority e) \<in> rule_number ` set tbl"
    "length (stated_requests e) \<le> 16" "\<forall>q \<in> set (stated_requests e). stated_request ts q"
    "distinct (map get_name_of_rescuer_requested (stated_requests e))"
    using assms(1) by (auto simp: good_emergency_def)
  have simple: "check_and_extract_simple_emergency_type_fields_from_line tbl n ps f = Inr (True, ps, f1)"
    using scan_emergency_line [OF assms(1)] assms(2,5) g(1,3) priority_in_table [of "length tbl" tbl]
    by (simp add: check_and_extract_simple_emergency_type_fields_from_line_def f1_def Let_def emergency_values_are_illegal_def)
  have "List.find (\<lambda>v. emergency_desc v = stated_desc e) es = None" using assms(7) unfolding find_None_iff by (metis image_eqI)
  then have dup: "check_if_emergency_type_already_parsed (emergency_cells es) f1 = Inr (False, f1)"
    using g(2) by (simp add: check_if_emergency_type_already_parsed_def emergency_lookup [OF assms(6)] f1_def)
  have nil: "request_cells [] = callocate_rescuer_requests" by (simp add: request_cells_def callocate_rescuer_requests_def)
  have "requests_loop (length ?r + 1) rtypes ?r (request_cells []) (int (length ([] :: rescuer_request list)))
      = Inr (Some (request_cells ([] @ stated_requests e), int (length ([] @ stated_requests e))))"
    using g(4-6) requests_text_no_newline(3) [OF g(5)] by (intro requests_loop_reads [OF assms(3,4)]) simp_all
  then have "requests_loop (length (ef_requests_string f1) + 1) rtypes (ef_requests_string f1) callocate_rescuer_requests 0
      = Inr (Some (request_cells (stated_requests e), int (length (stated_requests e))))"
    unfolding nil by (simp add: f1_def del: requests_loop.simps)
  then have "check_and_extract_rescuer_requests_from_string ps rtypes f1 = Inr (True, ps,
      f1\<lparr>ef_req_number := int (length (stated_requests e)), ef_rescuers := request_cells (stated_requests e)\<rparr>)"
    unfolding check_and_extract_rescuer_requests_from_string_def by simp
  then show ?thesis using simple dup g(2)
    by (simp add: check_and_extract_emergency_type_fields_from_line_def mallocate_and_populate_emergency_type_def
        emergency_of_def f1_def)
qed

lemma emergency_line_data:
  "good_emergency ts tbl e \<Longrightarrow> data_line MAX_RESCUER_CONF_LINE_LENGTH (emergency_line e)"
  unfolding good_emergency_def
  by (simp add: data_line_def emergency_line_def line_is_comment_def COMMENT_CHAR_def is_line_empty_def isspace_def
      MAX_RESCUER_CONF_LINE_LENGTH_def)

lemma emergencies_loop_reads:
  assumes "unread ps = map emergency_line ss" "length ss < m" and "\<forall>e \<in> set ss. good_emergency ts tbl e"
    and "rtypes = map Some ts @ None # cs" "distinct (map rescuer_type_name ts)" "n = int (length tbl)"
    and "distinct (map emergency_desc es @ map stated_desc ss)" "length es + length ss \<le> 65"
    and "line_number ps + int (length ss) \<le> 128" "parsed_so_far ps = int (length es)"
  shows "\<exists>ps'. emergencies_loop m tbl n ps (emergency_cells es) rtypes f
      = Inr (Some (ps', emergency_cells (es @ map emergency_of ss))) \<and> parsed_so_far ps' = int (length es + length ss)"
  using assms
proof (induction ss arbitrary: m ps es f)
  case Nil
  then obtain k where "m = Suc k" by (cases m) auto
  then show ?case using Nil by simp
next
  case (Cons e ss)
  then obtain k where k: "m = Suc k" by (cases m) auto
  define ps1 where "ps1 = ps\<lparr>unread := map emergency_line ss, line := Some (emergency_line e), line_number := line_number ps + 1\<rparr>"
  let ?ps2 = "ps1\<lparr>parsed_so_far := parsed_so_far ps1 + 1\<rparr>"
  have g: "good_emergency ts tbl e" using Cons.prems(3) by simp
  have le: "length es \<le> 64" using Cons.prems(8) by simp
  have "int (length (emergency_line e)) \<le> MAX_RESCUER_CONF_LINE_LENGTH"
    using emergency_line_data [OF g] by (simp add: data_line_def)
  then have chk: "check_if_line_can_be_processed ps1 (int MAX_RESCUER_CONF_LINES) MAX_RESCUER_TYPES_COUNT
      MAX_RESCUER_CONF_LINE_LENGTH = Inr (True, ps1)"
    using Cons.prems(9,10) le emergency_line_data [OF g]
    by (subst check_line [of _ "emergency_line e"])
       (simp_all add: ps1_def MAX_RESCUER_CONF_LINES_def MAX_RESCUER_TYPES_COUNT_def)
  obtain f' where f': "check_and_extract_emergency_type_fields_from_line tbl n ps1 (emergency_cells es) rtypes f = Inr (True, ps1, f')"
    "mallocate_and_populate_emergency_type f' = emergency_of e"
    using read_emergency_line [OF g _ Cons.prems(4-6), of ps1 es f] le Cons.prems(7) by (auto simp: ps1_def)
  have "emergencies_loop m tbl n ps (emergency_cells es) rtypes f
      = emergencies_loop k tbl n ?ps2 (emergency_cells (es @ [emergency_of e])) rtypes f'"
    using Cons.prems(1,10) chk f' add_emergency [OF le, of "emergency_of e"] unfolding k
    by (simp add: ps1_def [symmetric]) (simp add: ps1_def)
  moreover have "\<exists>ps'. emergencies_loop k tbl n ?ps2 (emergency_cells (es @ [emergency_of e])) rtypes f'
      = Inr (Some (ps', emergency_cells ((es @ [emergency_of e]) @ map emergency_of ss)))
      \<and> parsed_so_far ps' = int (length (es @ [emergency_of e]) + length ss)"
    by (rule Cons.IH [OF _ _ _ Cons.prems(4-6)])
       (use Cons.prems k in \<open>auto simp: ps1_def emergency_of_def\<close>)
  ultimately show ?case by simp
qed

section \<open>Properties\<close>

lemma requests_ok_of_legal:
  assumes "legal_emergency ts tbl e" and "rescuer_types s = map Some ts @ None # cs"
    and "rescuers_req_number e < 16" and "distinct (map get_name_of_rescuer_requested (requests (rescuers_req_number e) (rescuers e)))"
  shows "requests_ok s (rescuers_req_number e) (rescuers e)"
proof -
  obtain qs where q: "rescuers e = request_cells qs" "rescuers_req_number e = int (length qs)" "\<forall>q \<in> set qs. legal_request ts q"
    using assms(1) by (auto simp: legal_emergency_def)
  obtain k where k: "request_cells qs = map Some qs @ None # replicate k None"
    using q(2) assms(3) by (cases "16 - length qs") (auto simp: request_cells_def MAX_RESCUER_REQ_NUMBER_PER_EMERGENCY_def)
  have "requests (rescuers_req_number e) (rescuers e) = qs" by (simp add: requests_def q(1,2) k)
  moreover have "request_cells qs ! length qs = None" "length qs < length (request_cells qs)"
    "take (length qs) (request_cells qs) = map Some qs" by (simp_all add: k nth_append)
  ultimately show ?thesis using assms(2,4) q by (auto simp: requests_ok_def legal_request_def)
qed


text \<open>
  C24. A file that states emergency types with different names, each with at most sixteen
  requests for different rescuers, is read back: the types in the order of the lines.
\<close>

theorem parse_emergencies_roundtrip:
  assumes "parsed_types rdata = map Some ts @ None # cs" and "distinct (map rescuer_type_name ts)" and "n = int (length tbl)"
    and "\<forall>e \<in> set ss. good_emergency ts tbl e" and "distinct (map stated_desc ss)" and "length ss \<le> 65"
  shows "parse_emergencies (Some (map emergency_line ss)) rdata tbl n
    = Inr (Some \<lparr>parsed_emergency_types = emergency_cells (map emergency_of ss), parsed_emergency_count = int (length ss)\<rparr>)"
proof -
  let ?ps = "\<lparr>unread = map emergency_line ss, line = None, line_number = 0, parsed_so_far = 0, should_continue_parsing = True\<rparr>"
  have nil: "emergency_cells [] = callocate_emergency_types" by (simp add: emergency_cells_def callocate_emergency_types_def)
  have "\<exists>ps'. emergencies_loop (length ss + 1) tbl n ?ps (emergency_cells []) (parsed_types rdata) no_emergency_fields
      = Inr (Some (ps', emergency_cells ([] @ map emergency_of ss)))
    \<and> parsed_so_far ps' = int (length ([] :: emergency_type list) + length ss)"
    using assms by (intro emergencies_loop_reads) simp_all
  then show ?thesis
    unfolding nil by (auto simp: parse_emergencies_def mallocate_parsing_state_def simp del: emergencies_loop.simps)
qed

text \<open>
  The test for a second request of the same rescuer compares the name before it is trimmed:
  with a blank before the colon the same rescuer is requested twice, and the type gets two
  requests for it, which the server's invariant excludes.
\<close>

theorem blank_hides_duplicate_request:
  assumes "types = map Some ts @ None # cs" and "distinct (map rescuer_type_name ts)"
    and "legal_request ts q" "legal_request ts q'" "req_type q' = req_type q"
    and "request_name_ok (get_name_of_rescuer_requested q @ '' '')" "request_name_ok (get_name_of_rescuer_requested q)"
    and "trim_right (get_name_of_rescuer_requested q) = get_name_of_rescuer_requested q"
    and "ef_requests_string f = request_text (get_name_of_rescuer_requested q) (required_count q) (time_to_manage q)
      @ CHR '';'' # request_text (get_name_of_rescuer_requested q @ '' '') (required_count q') (time_to_manage q')"
  shows "check_and_extract_rescuer_requests_from_string ps types f
    = Inr (True, ps, f\<lparr>ef_req_number := 2, ef_rescuers := request_cells [q, q']\<rparr>)"
proof -
  let ?n = "get_name_of_rescuer_requested q"
  let ?t2 = "request_text (?n @ '' '') (required_count q') (time_to_manage q')"
  have trim: "trim_right (?n @ '' '') = ?n" using assms(8) by (simp add: trim_right_rev isspace_blank)
  obtain m where m: "length (ef_requests_string f) = Suc (Suc m)"
    by (cases "length (ef_requests_string f)"; cases "length (ef_requests_string f) - 1") (auto simp: assms(9) request_text_def)
  have nil: "request_cells [] = callocate_rescuer_requests" by (simp add: request_cells_def callocate_rescuer_requests_def)
  have "requests_loop (Suc (Suc (Suc m))) types (ef_requests_string f) (request_cells []) (int (length ([] :: rescuer_request list)))
    = requests_loop (Suc (Suc m)) types ?t2 (request_cells ([] @ [q])) (int (length ([] @ [q])))"
    using assms(8) request_text_token(1) [OF assms(7)] unfolding assms(9)
    by (intro requests_loop_token [OF assms(1,2) _ assms(3,7)]) (simp_all add: get_name_of_rescuer_requested_def)
  also have "\<dots> = requests_loop (Suc m) types [] (request_cells (([] @ [q]) @ [q'])) (int (length (([] @ [q]) @ [q'])))"
    using trim request_text_token(2) [OF assms(6)] assms(5)
    by (intro requests_loop_token [OF assms(1,2) _ assms(4,6)]) (simp_all add: get_name_of_rescuer_requested_def)
  also have "\<dots> = Inr (Some (request_cells [q, q'], 2))" by (simp add: strtok_def)
  finally show ?thesis
    by (simp add: check_and_extract_rescuer_requests_from_string_def m nil del: requests_loop.simps)
qed

section \<open>On concrete files\<close>

definition van_data :: rescuers_data where
  "van_data = \<lparr>parsed_types = [Some van, None], parsed_count = 1\<rparr>"

definition two_vans :: rescuer_request where
  "two_vans = \<lparr>req_type = van, required_count = 2, time_to_manage = 4\<rparr>"

definition fire :: stated_emergency where
  "fire = \<lparr>stated_desc = ''Fire'', stated_priority = 1, stated_requests = [two_vans]\<rparr>"

lemma fire_good: "good_emergency [van] priority_lookup_table fire"
  by code_simp

lemma two_vans_legal: "legal_request [van] two_vans"
  by code_simp


theorem parse_emergencies_roundtrip_witness:
  "emergency_line fire = ''[Fire] [1] Van:2,4;'' @ [CHR 0x0A]
    \<and> parse_emergencies (Some [emergency_line fire]) van_data priority_lookup_table 3
      = Inr (Some \<lparr>parsed_emergency_types = emergency_cells [emergency_of fire], parsed_emergency_count = 1\<rparr>)"
proof -
  have "emergency_line fire = ''[Fire] [1] Van:2,4;'' @ [CHR 0x0A]" by code_simp
  then show ?thesis using parse_emergencies_roundtrip [of van_data "[van]" "[]" 3 priority_lookup_table "[fire]"] fire_good
    by (simp add: van_data_def priority_lookup_table_def)
qed

definition one_line :: parsing_state where
  "one_line = \<lparr>unread = [], line = Some ''[Fire] [1] Van:2,4;Van :2,4'', line_number = 1, parsed_so_far = 0, should_continue_parsing = True\<rparr>"

theorem blank_hides_duplicate_request_witness:
  "check_and_extract_rescuer_requests_from_string one_line [Some van, None] (no_emergency_fields\<lparr>ef_requests_string := ''Van:2,4;Van :2,4''\<rparr>)
    = Inr (True, one_line, no_emergency_fields\<lparr>ef_requests_string := ''Van:2,4;Van :2,4'', ef_req_number := 2,
        ef_rescuers := request_cells [two_vans, two_vans]\<rparr>)"
proof -
  let ?f = "no_emergency_fields\<lparr>ef_requests_string := ''Van:2,4;Van :2,4''\<rparr>"
  have "request_name_ok (get_name_of_rescuer_requested two_vans @ '' '')" "request_name_ok (get_name_of_rescuer_requested two_vans)"
    "trim_right (get_name_of_rescuer_requested two_vans) = get_name_of_rescuer_requested two_vans" by code_simp+
  moreover have "ef_requests_string ?f = request_text (get_name_of_rescuer_requested two_vans) (required_count two_vans) (time_to_manage two_vans)
      @ CHR '';'' # request_text (get_name_of_rescuer_requested two_vans @ '' '') (required_count two_vans) (time_to_manage two_vans)"
    by code_simp
  ultimately show ?thesis
    using blank_hides_duplicate_request [of "[Some van, None]" "[van]" "[]" two_vans two_vans ?f one_line] two_vans_legal
    by simp
qed

end
