(* ===== verification/Receiver.thy ===== *)
theory Receiver
  imports Emergencies_File Dispatch_Correct Updater_Waiting
begin

text \<open>
  The thread that receives the emergencies, \<^verbatim>\<open>thread_reciever.c\<close>. What the message queue
  delivers is an argument: the bytes of a message, or \<open>None\<close> for a receive that failed. The time
  of day is an argument as well.
\<close>

section \<open>The thread\<close>

definition MAX_EMERGENCY_QUEUE_MESSAGE_LENGTH :: nat where
  "MAX_EMERGENCY_QUEUE_MESSAGE_LENGTH = 512"

definition MQ_STOP_MESSAGE :: string where
  "MQ_STOP_MESSAGE = ''-stop''"

definition get_current_tick_count :: "server \<Rightarrow> int" where
  "get_current_tick_count s = tick_count_since_start s"

definition request_at :: "emergency_type \<Rightarrow> nat \<Rightarrow> rescuer_request res" where
  "request_at type i = rbind (arr_get (rescuers type) (int i)) deref"

definition allocate_and_copy_rescuer_requests_from_type :: "emergency_type \<Rightarrow> rescuer_request option list res" where
  "allocate_and_copy_rescuer_requests_from_type type =
     rfold (\<lambda>i rs. rbind (request_at type i) (\<lambda>q.
         arr_set rs (int i) (Some (mallocate_and_populate_rescuer_request (required_count q) (time_to_manage q) (req_type q)))))
       [0..<nat (rescuers_req_number type)] callocate_rescuer_requests"

definition sum_required :: "emergency_type \<Rightarrow> int res" where
  "sum_required type =
     rfold (\<lambda>i n. rbind (request_at type i) (\<lambda>q. Inr (n + required_count q))) [0..<nat (rescuers_req_number type)] 0"

text \<open>The new emergency takes the next address.\<close>

definition mallocate_emergency ::
  "int \<Rightarrow> emergency_type option list \<Rightarrow> emergency_request \<Rightarrow> server \<Rightarrow> (emg_ptr \<times> server) res" where
  "mallocate_emergency ident types r s =
     rbind (get_emergency_type_by_name (emergency_name r) types) (\<lambda>(t, _).
     rbind (deref t) (\<lambda>type.
     rbind (sum_required type) (\<lambda>n.
     rbind (allocate_and_copy_rescuer_requests_from_type type) (\<lambda>rs.
     rbind (priority_to_timeout_timer (type_priority type)) (\<lambda>timeout.
     rbind (priority_to_promotion_timer (type_priority type)) (\<lambda>promotion.
       let e = emg_brk s in
       Inr (e, (set_emg e \<lparr>etype = type, eid = ident, priority = type_priority type, status = WAITING,
         emg_x = request_x r, emg_y = request_y r, emg_time = timestamp r,
         tick_time = get_current_tick_count s, rescuer_count = n, rescuers_missing = rs,
         rescuer_twins = replicate (nat n + 1) None, rescuers_not_arrived_yet = n, rescuers_not_done_yet = n,
         timeout_timer = timeout, promotion_timer = promotion, how_many_times_was_paused = 0,
         how_many_times_was_promoted = 0, cond = 0\<rparr> s)\<lparr>emg_brk := e + 1\<rparr>)))))))"

text \<open>The bytes of a message as the string that the buffer holds.\<close>

definition buffer_string :: "string \<Rightarrow> string" where
  "buffer_string bytes =
    (let b = (if length bytes \<ge> MAX_EMERGENCY_QUEUE_MESSAGE_LENGTH
              then take (MAX_EMERGENCY_QUEUE_MESSAGE_LENGTH - 1) bytes else bytes)
     in takeWhile (\<lambda>c. c \<noteq> CHR 0x00) b)"

text \<open>One round of the loop; the first component says whether the loop goes on.\<close>

definition receive :: "int \<Rightarrow> string option \<Rightarrow> server \<Rightarrow> (bool \<times> server) res" where
  "receive now message s =
    (case message of
       None \<Rightarrow> Inr (True, s)
     | Some bytes \<Rightarrow>
         let buffer = buffer_string bytes in
         if buffer = MQ_STOP_MESSAGE then Inr (False, s)
         else
           let s1 = s\<lparr>requests_count := requests_count s + 1\<rparr> in
           rbind (parse_emergency_request now buffer (emergency_types s1) (env_height s1) (env_width s1)) (\<lambda>r.
           case r of
             None \<Rightarrow> Inr (True, s1)
           | Some r \<Rightarrow>
               let s2 = s1\<lparr>requests_valid_count := requests_valid_count s1 + 1\<rparr>;
                   ident = emergencies_count s2;
                   s3 = s2\<lparr>emergencies_count := ident + 1\<rparr> in
               rbind (mallocate_emergency ident (emergency_types s3) r s3) (\<lambda>(e, s4).
               rbind (priority_to_level (priority (emg_at s4 e))) (\<lambda>l.
               Inr (True, s4\<lparr>emergency_queue := lq_push (emergency_queue s4) e l\<rparr>)))))"

text \<open>The loop over what arrives; with nothing more to receive it waits (\<open>True\<close>).\<close>

fun thread_reciever :: "(int \<times> string option) list \<Rightarrow> server \<Rightarrow> (bool \<times> server) res" where
  "thread_reciever [] s = Inr (\<not> server_must_stop s, s)"
| "thread_reciever ((now, m) # ms) s =
    (if server_must_stop s then Inr (False, s)
     else rbind (receive now m s) (\<lambda>(more, s'). if more then thread_reciever ms s' else Inr (False, s')))"

section \<open>A new emergency\<close>

text \<open>A type whose requests the server can work with, in an array of the size the parser gives it.\<close>

definition type_ready :: "server \<Rightarrow> emergency_type \<Rightarrow> bool" where
  "type_ready s type \<longleftrightarrow> requests_ok s (rescuers_req_number type) (rescuers type) \<and> rescuers_req_number type < 16"

lemma request_at:
  assumes "requests_ok s (rescuers_req_number type) (rescuers type)" and "i < nat (rescuers_req_number type)"
  shows "request_at type i = Inr (requests (rescuers_req_number type) (rescuers type) ! i)"
  using requests_nth [OF assms] requests_cells(2) [OF assms(1)] assms(2) by (simp add: request_at_def)

lemma sum_required_correct:
  assumes "requests_ok s (rescuers_req_number type) (rescuers type)"
  shows "sum_required type = Inr (total_count (requests (rescuers_req_number type) (rescuers type)))"
proof -
  let ?qs = "requests (rescuers_req_number type) (rescuers type)"
  have len: "length ?qs = nat (rescuers_req_number type)" by (rule requests_cells(3) [OF assms])
  have "n \<le> length ?qs \<Longrightarrow> rfold (\<lambda>i n. rbind (request_at type i) (\<lambda>q. Inr (n + required_count q))) [0..<n] 0
      = Inr (total_count (take n ?qs))" for n
  proof (induction n)
    case (Suc n)
    then show ?case using request_at [OF assms] len
      by (simp add: rfold_append total_count_def take_Suc_conv_app_nth)
  qed (simp add: total_count_def)
  from this [of "length ?qs"] show ?thesis by (simp add: sum_required_def len)
qed

lemma copy_requests_correct:
  assumes "type_ready s type"
  shows "\<exists>cs. allocate_and_copy_rescuer_requests_from_type type
    = Inr (map Some (requests (rescuers_req_number type) (rescuers type)) @ None # cs)"
proof -
  let ?qs = "requests (rescuers_req_number type) (rescuers type)"
  let ?step = "\<lambda>i rs. rbind (request_at type i) (\<lambda>q.
    arr_set rs (int i) (Some (mallocate_and_populate_rescuer_request (required_count q) (time_to_manage q) (req_type q))))"
  have ok: "requests_ok s (rescuers_req_number type) (rescuers type)" and lt: "nat (rescuers_req_number type) < 16"
    using assms by (auto simp: type_ready_def)
  have len: "length ?qs = nat (rescuers_req_number type)" by (rule requests_cells(3) [OF ok])
  have same: "mallocate_and_populate_rescuer_request (required_count q) (time_to_manage q) (req_type q) = q" for q
    by (simp add: mallocate_and_populate_rescuer_request_def)
  have "n \<le> length ?qs \<Longrightarrow> rfold ?step [0..<n] callocate_rescuer_requests
      = Inr (map Some (take n ?qs) @ replicate (16 - n) None)" for n
  proof (induction n)
    case (Suc n)
    have n: "16 - n = Suc (15 - n)" using Suc.prems len lt by simp
    have "arr_set (map Some (take n ?qs) @ replicate (16 - n) None) (int n) (Some (?qs ! n))
        = Inr ((map Some (take n ?qs) @ replicate (16 - n) None)[n := Some (?qs ! n)])"
      using Suc.prems len lt by (intro arr_set_nth) simp
    also have "\<dots> = Inr (map Some (take (Suc n) ?qs) @ replicate (16 - Suc n) None)"
      using Suc.prems unfolding n by (simp add: list_update_append take_Suc_conv_app_nth)
    finally show ?case using Suc request_at [OF ok, of n] len by (simp add: rfold_append same)
  qed (simp add: callocate_rescuer_requests_def MAX_RESCUER_REQ_NUMBER_PER_EMERGENCY_def)
  from this [of "length ?qs"] have "allocate_and_copy_rescuer_requests_from_type type = Inr (map Some ?qs @ replicate (16 - length ?qs) None)"
    by (simp add: allocate_and_copy_rescuer_requests_from_type_def len)
  moreover have "16 - length ?qs = Suc (15 - length ?qs)" using len lt by simp
  ultimately show ?thesis by simp
qed

text \<open>An emergency nobody works on yet can be added.\<close>

lemma links_inv_new:
  assumes inv: "links_inv s {} f" and ok: "requests_inv s em" "missing em = m"
    and new: "\<forall>c \<in> set (active_twins em). c = None" "rescuers_not_done_yet em = m" "rescuers_not_arrived_yet em = m" "m \<le> rescuer_count em" "0 \<le> m"
    and ident: "\<And>e. e < emg_brk s \<Longrightarrow> eid (emg_at s e) \<noteq> eid em"
  shows "links_inv ((set_emg (emg_brk s) em s)\<lparr>emg_brk := emg_brk s + 1\<rparr>) {} (f(emg_brk s := m))"
proof -
  note i = links_invD [OF inv]
  let ?s = "(set_emg (emg_brk s) em s)\<lparr>emg_brk := emg_brk s + 1\<rparr>"
  have frame: "known ?s = known s" "types_inv ?s = types_inv s" "requests_inv ?s = requests_inv s" "slots_inv ?s = slots_inv s"
    "counts_inv ?s = counts_inv s" "twin_at ?s = twin_at s" "emg_brk ?s = Suc (emg_brk s)"
    "emg_at ?s = (emg_at s)(emg_brk s := em)"
    by (simp_all add: fun_eq_iff set_emg_def known_def types_inv_def type_ok_def twin_ok_def
      requests_inv_def requests_ok_def slots_inv_def counts_inv_def en_route_def [abs_def])
  have none: "count_if P (active_twins em) = 0" if "\<not> P None" for P
    using new(1) that by (auto simp: count_if_0_iff)
  have "filter (\<lambda>c. c \<noteq> None) (active_twins em) = []" using new(1) by (simp add: filter_empty_conv)
  then have slots: "slots_inv s {} (emg_brk s) em" using new(1) by (auto simp: slots_inv_def)
  have counts: "counts_inv s em m" using new none by (simp add: counts_inv_def en_route_def)
  have "requests_inv s (emg_at ?s e) \<and> slots_inv s {} e (emg_at ?s e) \<and> counts_inv s (emg_at ?s e) ((f(emg_brk s := m)) e)"
    if "e < emg_brk ?s" for e
    using that i(2,3,4) ok(1) slots counts unfolding frame by (cases "e = emg_brk s") auto
  moreover have "e < emg_brk ?s \<and> Some t \<in> set (active_twins (emg_at ?s e))"
    if "known s t" "emergency (twin_at s t) = Some e" for t e
    using i(5,6) [OF that(1) _ that(2)] unfolding frame by auto
  moreover have "inj_on (\<lambda>e. eid (emg_at ?s e)) {..<emg_brk ?s}"
    unfolding frame lessThan_Suc using i(7) ident by (fastforce simp: inj_on_def)
  ultimately show ?thesis using i(1) unfolding links_inv_def frame by simp
qed

section \<open>Receiving\<close>

definition new_emergency :: "int \<Rightarrow> int \<Rightarrow> emergency_type \<Rightarrow> emergency_request \<Rightarrow> emergency \<Rightarrow> bool" where
  "new_emergency tick ident type r em \<longleftrightarrow>
     etype em = type \<and> eid em = ident \<and> priority em = type_priority type \<and> status em = WAITING
     \<and> emg_x em = request_x r \<and> emg_y em = request_y r \<and> emg_time em = timestamp r \<and> tick_time em = tick
     \<and> rescuer_count em = total_count (requests (rescuers_req_number type) (rescuers type))
     \<and> missing em = rescuer_count em \<and> rescuers_not_done_yet em = rescuer_count em \<and> rescuers_not_arrived_yet em = rescuer_count em
     \<and> (\<forall>c \<in> set (rescuer_twins em). c = None)
     \<and> timeout_timer em = (if priority em = 1 then 60 else if priority em = 2 then 30 else NO_TIMEOUT)
     \<and> promotion_timer em = (if priority em = 1 \<or> priority em = 2 then NO_PROMOTION else 60)
     \<and> how_many_times_was_paused em = 0 \<and> how_many_times_was_promoted em = 0"

text \<open>What the receiver needs of the state: usable types, and numbers that are not taken.\<close>

definition receiver_ready :: "server \<Rightarrow> bool" where
  "receiver_ready s \<longleftrightarrow> server_inv s
     \<and> (\<exists>es cs. emergency_types s = map Some es @ None # cs \<and> (\<forall>t \<in> set es. type_ready s t))
     \<and> (\<forall>e < emg_brk s. eid (emg_at s e) < emergencies_count s) \<and> lq_inv (emergency_queue s)"

lemma requests_same: "requests n (map Some qs @ cs) = qs" if "length qs = nat n"
  using that by (simp add: requests_def)

lemma mallocate_emergency_correct:
  assumes "server_inv s" and "\<And>e. e < emg_brk s \<Longrightarrow> eid (emg_at s e) \<noteq> ident"
    and "get_emergency_type_by_name (emergency_name r) types = Inr (Some type, name)" and "type_ready s type"
  shows "\<exists>em. mallocate_emergency ident types r s
      = Inr (emg_brk s, (set_emg (emg_brk s) em s)\<lparr>emg_brk := emg_brk s + 1\<rparr>)
    \<and> new_emergency (tick_count_since_start s) ident type r em
    \<and> server_inv ((set_emg (emg_brk s) em s)\<lparr>emg_brk := emg_brk s + 1\<rparr>)"
proof -
  let ?qs = "requests (rescuers_req_number type) (rescuers type)"
  let ?n = "total_count ?qs"
  have ok: "requests_ok s (rescuers_req_number type) (rescuers type)" using assms(4) by (simp add: type_ready_def)
  have len: "length ?qs = nat (rescuers_req_number type)" by (rule requests_cells(3) [OF ok])
  have pos: "0 \<le> ?n" using ok by (intro total_count_nonneg) (auto simp: requests_ok_def)
  obtain cs where copy: "allocate_and_copy_rescuer_requests_from_type type = Inr (map Some ?qs @ None # cs)"
    using copy_requests_correct [OF assms(4)] by blast
  define em where "em = \<lparr>etype = type, eid = ident, priority = type_priority type, status = WAITING,
         emg_x = request_x r, emg_y = request_y r, emg_time = timestamp r,
         tick_time = tick_count_since_start s, rescuer_count = ?n, rescuers_missing = map Some ?qs @ None # cs,
         rescuer_twins = replicate (nat ?n + 1) None, rescuers_not_arrived_yet = ?n, rescuers_not_done_yet = ?n,
         timeout_timer = (if type_priority type = 1 then 60 else if type_priority type = 2 then 30 else NO_TIMEOUT),
         promotion_timer = (if type_priority type = 1 \<or> type_priority type = 2 then NO_PROMOTION else 60),
         how_many_times_was_paused = 0, how_many_times_was_promoted = 0, cond = 0\<rparr>"
  have run: "mallocate_emergency ident types r s
      = Inr (emg_brk s, (set_emg (emg_brk s) em s)\<lparr>emg_brk := emg_brk s + 1\<rparr>)"
    by (simp add: mallocate_emergency_def assms(3) sum_required_correct [OF ok] copy get_current_tick_count_def em_def Let_def)
  have miss: "missing em = ?n" by (simp add: missing_def em_def requests_same [OF len])
  then have new: "new_emergency (tick_count_since_start s) ident type r em"
    by (simp add: new_emergency_def em_def)
  have copy_ok: "requests_ok s (rescuers_req_number type) (map Some ?qs @ None # cs)"
    using ok len by (simp add: requests_ok_def requests_same [OF len] nth_append)
  have "requests_inv s em"
    using ok copy_ok pos by (simp add: requests_inv_def em_def wanted_def requests_same [OF len])
  moreover have "\<forall>c \<in> set (active_twins em). c = None" by (auto simp: active_twins_def em_def dest: in_set_takeD)
  ultimately have "links_inv ((set_emg (emg_brk s) em s)\<lparr>emg_brk := emg_brk s + 1\<rparr>) {}
      ((\<lambda>e. missing (emg_at s e))(emg_brk s := ?n))"
    using assms(1,2) miss pos by (intro links_inv_new) (simp_all add: server_inv_def em_def)
  moreover have "(\<lambda>e. missing (emg_at s e))(emg_brk s := ?n)
      = (\<lambda>e. missing (emg_at ((set_emg (emg_brk s) em s)\<lparr>emg_brk := emg_brk s + 1\<rparr>) e))"
    using miss by (simp add: fun_eq_iff set_emg_def)
  ultimately have "server_inv ((set_emg (emg_brk s) em s)\<lparr>emg_brk := emg_brk s + 1\<rparr>)" unfolding server_inv_def by simp
  then show ?thesis using run new by blast
qed

lemma server_inv_counters [simp]:
  "server_inv (s\<lparr>requests_count := a\<rparr>) = server_inv s" "server_inv (s\<lparr>requests_valid_count := a\<rparr>) = server_inv s"
  "server_inv (s\<lparr>emergencies_count := a\<rparr>) = server_inv s" "server_inv (s\<lparr>emergency_queue := q\<rparr>) = server_inv s"
  by (rule server_inv_frame; simp)+

lemma type_ready_frame:
  "rescuer_types s' = rescuer_types s \<Longrightarrow> type_ready s' t = type_ready s t"
  by (simp add: type_ready_def requests_ok_def)

lemma parse_request_cases:
  assumes "types = map Some es @ None # cs"
  shows "(\<exists>e. parse_emergency_request now m types h w = Inl e \<and> (e = OutOfBounds \<or> e = SignedOverflow))
    \<or> parse_emergency_request now m types h w = Inr None
    \<or> (\<exists>r t. parse_emergency_request now m types h w = Inr (Some r) \<and> t \<in> set es
        \<and> get_emergency_type_by_name (emergency_name r) types = Inr (Some t, emergency_name r) \<and> emergency_desc t = emergency_name r
        \<and> \<bar>request_x r\<bar> \<le> \<bar>w\<bar> \<and> \<bar>request_y r\<bar> \<le> \<bar>h\<bar> \<and> timestamp r = now)"
proof (cases "sscanf EMERGENCY_REQUEST_SYNTAX m")
  case (Inl e)
  then show ?thesis using sscanf_fails [OF Inl] by (simp add: parse_emergency_request_def)
next
  case (Inr vs)
  have find: "get_emergency_type_by_name n types = Inr (List.find (\<lambda>e. emergency_desc e = trim_right n) es, trim_right n)" for n
    by (simp add: get_emergency_type_by_name_def Let_def assms scan_null_terminated_find)
  show ?thesis
  proof (cases "\<exists>n x y d. vs = [Scanned_String n, Scanned_Int x, Scanned_Int y, Scanned_Int d]")
    case True
    then obtain n x y d where vs: "vs = [Scanned_String n, Scanned_Int x, Scanned_Int y, Scanned_Int d]" by blast
    show ?thesis
    proof (cases "List.find (\<lambda>e. emergency_desc e = trim_right n) es")
      case None
      then show ?thesis using Inr vs by (simp add: parse_emergency_request_def emergency_request_values_are_illegal_def find)
    next
      case (Some t)
      then have "t \<in> set es" "emergency_desc t = trim_right n" by (auto simp: find_Some_iff)
      then show ?thesis using Inr vs Some find
        by (auto simp: parse_emergency_request_def emergency_request_values_are_illegal_def)
    qed
  next
    case False
    then show ?thesis using Inr by (auto simp: parse_emergency_request_def split: list.split scanned.split)
  qed
qed

text \<open>The state after a request was accepted, and that it is reached.\<close>

definition received :: "server \<Rightarrow> emergency_type \<Rightarrow> emergency_request \<Rightarrow> server \<Rightarrow> bool" where
  "received s t r s' \<longleftrightarrow> (\<exists>em. s' = s\<lparr>requests_count := requests_count s + 1, requests_valid_count := requests_valid_count s + 1,
       emergencies_count := emergencies_count s + 1, emg_at := (emg_at s)(emg_brk s := em), emg_brk := emg_brk s + 1,
       emergency_queue := lq_push (emergency_queue s) (emg_brk s) (the_level (type_priority t))\<rparr>
     \<and> new_emergency (tick_count_since_start s) (emergencies_count s) t r em)"

lemma receive_accepts:
  assumes "receiver_ready s" and "m = Some b" and "buffer_string b \<noteq> MQ_STOP_MESSAGE"
    and "emergency_types s = map Some es @ None # cs" "\<forall>t \<in> set es. type_ready s t" "t \<in> set es"
    and "parse_emergency_request now (buffer_string b) (emergency_types s) (env_height s) (env_width s) = Inr (Some r)"
    and "get_emergency_type_by_name (emergency_name r) (emergency_types s) = Inr (Some t, emergency_name r)"
  shows "\<exists>s'. receive now m s = Inr (True, s') \<and> received s t r s' \<and> receiver_ready s'"
proof -
  let ?s3 = "s\<lparr>requests_count := requests_count s + 1, requests_valid_count := requests_valid_count s + 1,
    emergencies_count := emergencies_count s + 1\<rparr>"
  have inv: "server_inv ?s3" "\<And>e. e < emg_brk ?s3 \<Longrightarrow> eid (emg_at ?s3 e) \<noteq> emergencies_count s"
    using assms(1) by (auto simp: receiver_ready_def)
  have ready: "type_ready ?s3 t" using assms(5,6) type_ready_frame [of ?s3 s t] by simp
  from mallocate_emergency_correct [OF inv assms(8) ready] obtain em where
    em: "mallocate_emergency (emergencies_count s) (emergency_types s) r ?s3
    = Inr (emg_brk s, (set_emg (emg_brk s) em ?s3)\<lparr>emg_brk := emg_brk s + 1\<rparr>)"
      "new_emergency (tick_count_since_start s) (emergencies_count s) t r em"
      "server_inv ((set_emg (emg_brk s) em ?s3)\<lparr>emg_brk := emg_brk s + 1\<rparr>)" by auto
  let ?q = "lq_push (emergency_queue s) (emg_brk s) (the_level (type_priority t))"
  let ?s' = "s\<lparr>requests_count := requests_count s + 1, requests_valid_count := requests_valid_count s + 1,
    emergencies_count := emergencies_count s + 1, emg_at := (emg_at s)(emg_brk s := em), emg_brk := emg_brk s + 1, emergency_queue := ?q\<rparr>"
  have s': "((set_emg (emg_brk s) em ?s3)\<lparr>emg_brk := emg_brk s + 1\<rparr>)\<lparr>emergency_queue := ?q\<rparr> = ?s'"
    by (intro server.equality) (simp_all add: set_emg_def)
  have pr: "priority em = type_priority t" "emg_x em = request_x r" "emg_y em = request_y r" "eid em = emergencies_count s"
    using em(2) by (simp_all add: new_emergency_def)
  have "receive now m s = Inr (True, ((set_emg (emg_brk s) em ?s3)\<lparr>emg_brk := emg_brk s + 1\<rparr>)\<lparr>emergency_queue := ?q\<rparr>)"
    using assms(2,3,7) em(1) pr(1) by (simp add: receive_def Let_def set_emg_def)
  then have run: "receive now m s = Inr (True, ?s')" unfolding s' .
  have "server_inv ?s'" unfolding s' [symmetric] using em(3) by simp
  moreover have "\<forall>t \<in> set es. type_ready ?s' t" using assms(5) type_ready_frame [of ?s' s] by simp
  moreover have "eid (emg_at ?s' e) < emergencies_count ?s'" if "e < emg_brk ?s'" for e
  proof (cases "e = emg_brk s")
    case False
    then have "eid (emg_at s e) < emergencies_count s" using assms(1) that by (simp add: receiver_ready_def)
    then show ?thesis using False by simp
  qed (simp add: pr(4))
  moreover have "lq_inv (emergency_queue ?s')"
    using assms(1) lq_push_items(1) [of "emergency_queue s"] by (simp add: receiver_ready_def)
  ultimately have "receiver_ready ?s'" unfolding receiver_ready_def using assms(4) by auto
  moreover have "received s t r ?s'" unfolding received_def using em(2) by blast
  ultimately show ?thesis using run by blast
qed


lemma sample_receiver_ready: "receiver_ready sample_server"
proof -
  have r: "requests_ok sample_server (rescuers_req_number t) (rescuers t)" if "t \<in> {small_fire, big_fire}" for t
  proof -
    have "requests_inv sample_server (emg_at sample_server 0)" "requests_inv sample_server (emg_at sample_server 1)"
      using sample_server_inv unfolding server_inv_def links_inv_def by (auto simp: sample_server_def)
    then show ?thesis using that by (auto simp: requests_inv_def sample_server_def sample_emg_def)
  qed
  have "type_ready sample_server t" if "t \<in> {small_fire, big_fire}" for t
    using r [OF that] that by (auto simp: type_ready_def small_fire_def big_fire_def)
  moreover have "emergency_types sample_server = map Some [small_fire, big_fire] @ None # []"
    by (simp add: sample_server_def)
  moreover have "eid (emg_at sample_server e) < emergencies_count sample_server" for e
    by (simp add: sample_server_def sample_emg_def)
  moreover have "lq_inv (emergency_queue sample_server)"
    by (simp add: sample_server_def lq_inv_def lq_create_def)
  ultimately show ?thesis using sample_server_inv unfolding receiver_ready_def
    by (metis (no_types, opaque_lifting) empty_iff insert_iff list.set(1,2))
qed


end
