(* ===== verification/Client.thy ===== *)
theory Client
  imports Receiver
begin

text \<open>
  The client, \<^verbatim>\<open>client.c\<close>: which mode its arguments choose, and the messages it sends. The
  queue is opened by the server with messages of at most 512 bytes; sending more fails, which
  ends the process. Messages to the log, the usage text and the wait before a message is sent are
  left out.
\<close>

section \<open>Modes\<close>

datatype client_mode =
  UNDEFINED_MODE | HELP_MODE | NORMAL_MODE | FILE_MODE | STOP_JUST_CLIENT_MODE | STOP_CLIENT_AND_SERVER_MODE

text \<open>The mode of \<open>main\<close>; with any other number of arguments the process ends.\<close>

definition mode_of_args :: "string list \<Rightarrow> client_mode res" where
  "mode_of_args argv =
    (if length argv = 5 then Inr NORMAL_MODE
     else if length argv = 3 then Inr (if argv ! 1 = ''-f'' then FILE_MODE else UNDEFINED_MODE)
     else if length argv = 2 then
       (let m1 = (if argv ! 1 = ''-S'' then STOP_CLIENT_AND_SERVER_MODE else UNDEFINED_MODE);
            m2 = (if argv ! 1 = ''-z'' then STOP_JUST_CLIENT_MODE else m1);
            m3 = (if argv ! 1 = ''-h'' then HELP_MODE else m2)
        in Inr m3)
     else Inl ProcessExit)"

section \<open>Sending\<close>

definition MAX_EMERGENCY_REQUEST_LENGTH :: nat where
  "MAX_EMERGENCY_REQUEST_LENGTH = 512"

definition MAX_EMERGENCY_REQUEST_COUNT :: int where
  "MAX_EMERGENCY_REQUEST_COUNT = 256"

definition MAX_CLIENT_INPUT_FILE_LINES :: int where
  "MAX_CLIENT_INPUT_FILE_LINES = 128"

definition MAX_REQUEST_DELAY_SECONDS :: int where
  "MAX_REQUEST_DELAY_SECONDS = 32"

text \<open>
  The messages that reached the queue, each with its terminator, so that a failure keeps those
  sent before. The flag says that the process ended.
\<close>

record client_state =
  sent :: "string list"
  ended :: bool

definition mq_send :: "string \<Rightarrow> client_state \<Rightarrow> client_state" where
  "mq_send bytes c =
    (if length bytes > MAX_EMERGENCY_QUEUE_MESSAGE_LENGTH then c\<lparr>ended := True\<rparr> else c\<lparr>sent := sent c @ [bytes]\<rparr>)"

definition send_emergency_request_message :: "char \<Rightarrow> string \<Rightarrow> client_state \<Rightarrow> client_state res" where
  "send_emergency_request_message separator s c =
     rbind (sscanf (Unsigned_Conv # lits ''d'') (extract_last_token s separator)) (\<lambda>vs.
     case vs of
       [Scanned_Int delay] \<Rightarrow>
         if delay > MAX_REQUEST_DELAY_SECONDS then Inr c
         else if s = [] then Inl OutOfBounds
         else let s' = (if last s = CHR 0x0A then butlast s else s)
              in Inr (mq_send (s' @ [CHR 0x00]) c)
     | _ \<Rightarrow> Inr c)"

definition handle_normal_mode_input :: "char \<Rightarrow> string list \<Rightarrow> client_state \<Rightarrow> client_state res" where
  "handle_normal_mode_input separator args c =
    (if length (args ! 1) + length (args ! 2) + length (args ! 3) + length (args ! 4) + 3 > MAX_EMERGENCY_REQUEST_LENGTH
     then Inr (c\<lparr>ended := True\<rparr>)
     else
       let s = args ! 1 @ '' '' @ args ! 2 @ '' '' @ args ! 3 @ '' '' @ args ! 4
       in if length s \<ge> MAX_EMERGENCY_REQUEST_LENGTH + 1 then Inr (c\<lparr>ended := True\<rparr>)
          else send_emergency_request_message separator s c)"

text \<open>The loop over the lines of the file; the last value counts the messages tried.\<close>

fun file_loop :: "char \<Rightarrow> string list \<Rightarrow> int \<Rightarrow> int \<Rightarrow> client_state \<Rightarrow> client_state res" where
  "file_loop separator [] line_count emergency_count c = Inr c"
| "file_loop separator (l # ls) line_count emergency_count c =
    (let line_count = line_count + 1 in
     if line_count > MAX_CLIENT_INPUT_FILE_LINES then Inr (c\<lparr>ended := True\<rparr>)
     else if emergency_count > MAX_EMERGENCY_REQUEST_COUNT then Inr (c\<lparr>ended := True\<rparr>)
     else rbind (send_emergency_request_message separator (take MAX_EMERGENCY_REQUEST_LENGTH l) c) (\<lambda>c'.
       if ended c' then Inr c' else file_loop separator ls line_count (emergency_count + 1) c'))"

definition handle_file_mode_input :: "char \<Rightarrow> conf_file \<Rightarrow> client_state \<Rightarrow> client_state res" where
  "handle_file_mode_input separator file c =
    (case file of
       None \<Rightarrow> Inr (c\<lparr>ended := True\<rparr>)
     | Some ls \<Rightarrow> file_loop separator ls 0 0 c)"

section \<open>What reaches the server\<close>

lemma sscanf_unsigned:
  assumes "int n \<le> UINT_MAX" and "b = [] \<or> \<not> is_digit (hd b)"
  shows "sscanf (Unsigned_Conv # ds) (digits_of n @ b) = rbind (sscanf ds b) (\<lambda>ws. Inr (Scanned_Int (int n) # ws))"
proof -
  have "int_conv (- UINT_MAX) UINT_MAX ([] @ digits_of n @ b) = Inr (Some ([Scanned_Int (int n)], b))"
    using assms by (intro int_conv_digits) (simp_all add: UINT_MAX_def)
  then show ?thesis using assms(1) by (simp add: UINT_MAX_def)
qed

lemma strrchr_snoc: "c \<notin> set b \<Longrightarrow> strrchr (a @ c # b) c = Some (length a)"
proof (induction a)
  case Nil
  then show ?case using strrchr_None [of b c] by (cases "strrchr b c") auto
qed auto

lemma last_token: "c \<notin> set b \<Longrightarrow> extract_last_token (a @ c # b) c = b"
  by (simp add: extract_last_token_def strrchr_snoc)

lemma digits_no_blank: "CHR '' '' \<notin> set (digits_of n)" "CHR 0x00 \<notin> set (digits_of n)"
  using digits_of_is_digit [of n] by (auto simp: is_digit_def)

lemma digits_head: "digits_of n \<noteq> [] \<and> is_digit (hd (digits_of n)) \<and> \<not> isspace (hd (digits_of n)) \<and> last (digits_of n) \<noteq> CHR 0x0A"
proof -
  have "is_digit (hd (digits_of n))" "is_digit (last (digits_of n))"
    using digits_of_is_digit [of n] digits_of_ne [of n] by simp_all
  then show ?thesis using digits_of_ne [of n] is_digit_not(1) by (auto simp: is_digit_def)
qed

text \<open>The message as the client writes it, and what sending it does.\<close>

definition request_line :: "string \<Rightarrow> nat \<Rightarrow> nat \<Rightarrow> nat \<Rightarrow> string" where
  "request_line name x y d = name @ '' '' @ digits_of x @ '' '' @ digits_of y @ '' '' @ digits_of d"

lemma send_request:
  assumes "a \<noteq> []" and "int d \<le> 32"
  shows "send_emergency_request_message (CHR '' '') (a @ '' '' @ digits_of d) c = Inr (mq_send (a @ '' '' @ digits_of d @ [CHR 0x00]) c)"
proof -
  have tok: "extract_last_token (a @ '' '' @ digits_of d) (CHR '' '') = digits_of d"
    using last_token [OF digits_no_blank(1)] by simp
  have "sscanf (Unsigned_Conv # lits ''d'') (digits_of d @ []) = rbind (sscanf (lits ''d'') []) (\<lambda>ws. Inr (Scanned_Int (int d) # ws))"
    using assms(2) by (intro sscanf_unsigned) (simp_all add: UINT_MAX_def)
  then have "sscanf (Unsigned_Conv # lits ''d'') (digits_of d) = Inr [Scanned_Int (int d)]" by (simp add: lits_def)
  moreover have "last (a @ '' '' @ digits_of d) \<noteq> CHR 0x0A" using digits_head [of d] by simp
  ultimately show ?thesis using assms tok
    by (simp add: send_emergency_request_message_def MAX_REQUEST_DELAY_SECONDS_def)
qed

text \<open>A name a request can have: no digit, no blank end, and room for the blank behind it.\<close>

definition request_name :: "string \<Rightarrow> bool" where
  "request_name name \<longleftrightarrow> name \<noteq> [] \<and> length name \<le> 62 \<and> (\<forall>c \<in> set name. \<not> is_digit c \<and> c \<noteq> CHR 0x00)
     \<and> trim_right name = name"

lemma scan_request_line:
  assumes "request_name name" and "int x \<le> INT_MAX" "int y \<le> INT_MAX" "int d \<le> INT_MAX"
  shows "sscanf EMERGENCY_REQUEST_SYNTAX (request_line name x y d)
    = Inr [Scanned_String (name @ '' ''), Scanned_Int (int x), Scanned_Int (int y), Scanned_Int (int d)]"
proof -
  have blank: "\<not> is_digit (CHR '' '')" "isspace (CHR '' '')" by (simp_all add: is_digit_def isspace_def)
  have white: "sscanf (White # ds) ('' '' @ digits_of n @ b) = sscanf ds (digits_of n @ b)"
    "sscanf (White # ds) (digits_of n @ b) = sscanf ds (digits_of n @ b)" for ds n b
  proof -
    obtain c cs where "digits_of n = c # cs" "\<not> isspace c" using digits_head [of n] by (cases "digits_of n") auto
    then show "sscanf (White # ds) ('' '' @ digits_of n @ b) = sscanf ds (digits_of n @ b)"
      "sscanf (White # ds) (digits_of n @ b) = sscanf ds (digits_of n @ b)"
      using blank by (simp_all add: rbind_def split: sum.splits)
  qed
  have "sscanf [Int_Conv] (digits_of d @ []) = Inr [Scanned_Int (int d)]" using assms(4) by (subst sscanf_int) simp_all
  then have d: "sscanf [White, Int_Conv] ('' '' @ digits_of d @ []) = Inr [Scanned_Int (int d)]" unfolding white by simp
  have y: "sscanf [White, Int_Conv, White, Int_Conv] ('' '' @ digits_of y @ '' '' @ digits_of d @ []) = Inr [Scanned_Int (int y), Scanned_Int (int d)]"
    unfolding white using assms(3) blank(1) d by (subst sscanf_int) simp_all
  have x: "sscanf [White, Int_Conv, White, Int_Conv, White, Int_Conv] (digits_of x @ '' '' @ digits_of y @ '' '' @ digits_of d @ [])
      = Inr [Scanned_Int (int x), Scanned_Int (int y), Scanned_Int (int d)]"
    unfolding white using assms(2) blank(1) y by (subst sscanf_int) simp_all
  have hd: "is_digit (hd (digits_of x @ b))" for b using digits_head [of x] by (cases "digits_of x") auto
  have "sscanf EMERGENCY_REQUEST_SYNTAX ((name @ '' '') @ digits_of x @ '' '' @ digits_of y @ '' '' @ digits_of d @ [])
      = rbind (Inr [Scanned_Int (int x), Scanned_Int (int y), Scanned_Int (int d)]) (\<lambda>ws. Inr (Scanned_String (name @ '' '') # ws))"
    unfolding EMERGENCY_REQUEST_SYNTAX_def MAX_EMERGENCY_NAME_LENGTH_def x [symmetric]
    using assms(1) blank(1) hd by (intro sscanf_set) (auto simp: request_name_def)
  then show ?thesis by (simp add: request_line_def)
qed

text \<open>Direct input sends the request as one message, which the receiver reads back as it was written.\<close>

lemma normal_mode_sends:
  assumes "request_name name" and "x \<le> 99999" "y \<le> 99999" "d \<le> 32"
  shows "handle_normal_mode_input (CHR '' '') [prog, name, digits_of x, digits_of y, digits_of d] c
      = Inr (c\<lparr>sent := sent c @ [request_line name x y d @ [CHR 0x00]]\<rparr>)"
    and "buffer_string (request_line name x y d @ [CHR 0x00]) = request_line name x y d"
proof -
  let ?l = "request_line name x y d"
  have n: "name \<noteq> []" "length name \<le> 62" "\<forall>c \<in> set name. c \<noteq> CHR 0x00" "trim_right name = name"
    using assms(1) by (auto simp: request_name_def)
  have len: "length (digits_of x) \<le> 5" "length (digits_of y) \<le> 5" "length (digits_of d) \<le> 2"
    using length_digits_of [of x 4] length_digits_of [of y 4] length_digits_of [of d 1] assms(2-4) by simp_all
  then have short: "length (?l @ [CHR 0x00]) \<le> 511" using n(2) by (simp add: request_line_def)
  have "send_emergency_request_message (CHR '' '') ((name @ '' '' @ digits_of x @ '' '' @ digits_of y) @ '' '' @ digits_of d) c
      = Inr (mq_send ((name @ '' '' @ digits_of x @ '' '' @ digits_of y) @ '' '' @ digits_of d @ [CHR 0x00]) c)"
    using n(1) assms(4) by (intro send_request) simp_all
  then have sent: "send_emergency_request_message (CHR '' '') ?l c = Inr (c\<lparr>sent := sent c @ [?l @ [CHR 0x00]]\<rparr>)"
    using short by (simp add: request_line_def mq_send_def MAX_EMERGENCY_QUEUE_MESSAGE_LENGTH_def)
  have handle: "handle_normal_mode_input (CHR '' '') [prog, name, digits_of x, digits_of y, digits_of d] c
      = Inr (c\<lparr>sent := sent c @ [?l @ [CHR 0x00]]\<rparr>)"
    using sent n(2) len by (simp add: handle_normal_mode_input_def MAX_EMERGENCY_REQUEST_LENGTH_def request_line_def)
  have "\<forall>c \<in> set ?l. c \<noteq> CHR 0x00" using n(3) digits_no_blank(2) by (auto simp: request_line_def)
  then have buf: "buffer_string (?l @ [CHR 0x00]) = ?l"
    using short by (simp add: buffer_string_def MAX_EMERGENCY_QUEUE_MESSAGE_LENGTH_def Let_def)
  show "handle_normal_mode_input (CHR '' '') [prog, name, digits_of x, digits_of y, digits_of d] c
      = Inr (c\<lparr>sent := sent c @ [request_line name x y d @ [CHR 0x00]]\<rparr>)" by (rule handle)
  show "buffer_string (request_line name x y d @ [CHR 0x00]) = request_line name x y d" by (rule buf)
qed

section \<open>Properties\<close>

text \<open>
  C26. A request typed to the client for a name without digits, a place and a delay of at most 32
  seconds becomes one message, from which the server reads exactly that name and place if the
  name is one of its types and the place is on the map, and refuses the request otherwise.
\<close>

theorem client_request_roundtrip:
  assumes "request_name name" and "x \<le> 99999" "y \<le> 99999" "d \<le> 32" and "types = map Some es @ None # cs"
  shows "\<exists>m. handle_normal_mode_input (CHR '' '') [prog, name, digits_of x, digits_of y, digits_of d] c
        = Inr (c\<lparr>sent := sent c @ [m]\<rparr>)
    \<and> parse_emergency_request now (buffer_string m) types h w =
        Inr (if name \<in> emergency_desc ` set es \<and> int x \<le> \<bar>w\<bar> \<and> int y \<le> \<bar>h\<bar>
             then Some \<lparr>emergency_name = name, request_x = int x, request_y = int y, timestamp = now\<rparr> else None)"
proof -
  let ?l = "request_line name x y d"
  note handle = normal_mode_sends(1) [OF assms(1-4), of prog c] and buf = normal_mode_sends(2) [OF assms(1-4)]
  have n: "trim_right name = name" using assms(1) by (simp add: request_name_def)
  have "sscanf EMERGENCY_REQUEST_SYNTAX ?l
      = Inr [Scanned_String (name @ '' ''), Scanned_Int (int x), Scanned_Int (int y), Scanned_Int (int d)]"
    using assms(1-4) by (intro scan_request_line) (simp_all add: INT_MAX_def)
  moreover have "trim_right (name @ '' '') = name" using n by (simp add: trim_right_rev isspace_blank)
  then have "get_emergency_type_by_name (name @ '' '') types = Inr (List.find (\<lambda>e. emergency_desc e = name) es, name)"
    by (simp add: get_emergency_type_by_name_def Let_def assms(5) scan_null_terminated_find)
  moreover have "(List.find (\<lambda>e. emergency_desc e = name) es = None) = (name \<notin> emergency_desc ` set es)"
    by (auto simp: find_None_iff)
  ultimately have "parse_emergency_request now ?l types h w =
      Inr (if name \<in> emergency_desc ` set es \<and> int x \<le> \<bar>w\<bar> \<and> int y \<le> \<bar>h\<bar>
           then Some \<lparr>emergency_name = name, request_x = int x, request_y = int y, timestamp = now\<rparr> else None)"
    by (auto simp: parse_emergency_request_def emergency_request_values_are_illegal_def)
  then show ?thesis using handle buf by (intro exI [of _ "?l @ [CHR 0x00]"] conjI) simp_all
qed

text \<open>
  A request as long as the client allows, 512 characters, passes its length check but is one
  byte longer, with its terminator, than a message of the queue: sending it fails and the client
  ends.
\<close>

theorem longest_request_ends_client:
  assumes "name \<noteq> []" and "length name + length (digits_of x) + length (digits_of y) + length (digits_of d) + 3 = 512" and "d \<le> 32"
  shows "handle_normal_mode_input (CHR '' '') [prog, name, digits_of x, digits_of y, digits_of d] c = Inr (c\<lparr>ended := True\<rparr>)"
proof -
  have "send_emergency_request_message (CHR '' '') ((name @ '' '' @ digits_of x @ '' '' @ digits_of y) @ '' '' @ digits_of d) c
      = Inr (mq_send ((name @ '' '' @ digits_of x @ '' '' @ digits_of y) @ '' '' @ digits_of d @ [CHR 0x00]) c)"
    using assms(1,3) by (intro send_request) simp_all
  then show ?thesis using assms(2)
    by (simp add: handle_normal_mode_input_def MAX_EMERGENCY_REQUEST_LENGTH_def mq_send_def MAX_EMERGENCY_QUEUE_MESSAGE_LENGTH_def)
qed

definition no_messages :: client_state where
  "no_messages = \<lparr>sent = [], ended = False\<rparr>"

theorem client_request_roundtrip_witness:
  "\<exists>m. handle_normal_mode_input (CHR '' '') [''client'', ''Big fire'', ''12'', ''7'', ''2''] no_messages = Inr (no_messages\<lparr>sent := [m]\<rparr>)
    \<and> parse_emergency_request 5 (buffer_string m) [Some (big_fire\<lparr>emergency_desc := ''Big fire''\<rparr>), None] 20 20
      = Inr (Some \<lparr>emergency_name = ''Big fire'', request_x = 12, request_y = 7, timestamp = 5\<rparr>)"
proof -
  have "request_name ''Big fire''" by code_simp
  moreover have "digits_of 12 = ''12''" "digits_of 7 = ''7''" "digits_of 2 = ''2''" by code_simp+
  moreover have "sent no_messages = []" by (simp add: no_messages_def)
  ultimately show ?thesis
    using client_request_roundtrip [of "''Big fire''" 12 7 2 "[Some (big_fire\<lparr>emergency_desc := ''Big fire''\<rparr>), None]"
        "[big_fire\<lparr>emergency_desc := ''Big fire''\<rparr>]" "[]" "''client''" no_messages 5 20 20] by simp
qed

theorem longest_request_ends_client_witness:
  "handle_normal_mode_input (CHR '' '') [''client'', replicate 506 (CHR ''x''), ''1'', ''1'', ''1''] no_messages
    = Inr (no_messages\<lparr>ended := True\<rparr>)"
proof -
  have "digits_of 1 = ''1''" by code_simp
  then show ?thesis using longest_request_ends_client [of "replicate 506 (CHR ''x'')" 1 1 1 "''client''" no_messages] by simp
qed

end
