(* ===== verification/Ipc.thy ===== *)
theory Ipc
  imports Client Parse_Env
begin

text \<open>
  How a client finds the server: \<^verbatim>\<open>server_ipc_setup\<close> of \<^verbatim>\<open>main.c\<close> and the first half of the
  client's \<^verbatim>\<open>main\<close>, step by step, one step for each system call or write to the shared memory.
  The names of the shared memory and of the semaphore are fixed, so the state of the system holds
  what they name, if anything, the names of the message queues, and the signals sent.
\<close>

section \<open>The shared memory\<close>

definition FILENAME_BUFF :: nat where
  "FILENAME_BUFF = 256"

record config_files_names =
  env_file :: string
  rescuer_types_file :: string
  emergency_types_file :: string

record client_server_shm =
  shm_queue_name :: string
  requests_argument_separator :: char
  shm_config :: config_files_names
  server_pid :: int

definition ENV_CONF :: string where
  "ENV_CONF = ''conf/env.conf''"

definition RESCUERS_CONF :: string where
  "RESCUERS_CONF = ''conf/rescuers.conf''"

definition EMERGENCY_TYPES_CONF :: string where
  "EMERGENCY_TYPES_CONF = ''conf/emergency_types.conf''"

definition EMERGENCY_REQUESTS_ARGUMENT_SEPARATOR_CHAR :: char where
  "EMERGENCY_REQUESTS_ARGUMENT_SEPARATOR_CHAR = CHR '' ''"

text \<open>What \<^verbatim>\<open>ftruncate\<close> leaves: zeros.\<close>

definition fresh_shm :: client_server_shm where
  "fresh_shm = \<lparr>shm_queue_name = [], requests_argument_separator = CHR 0x00,
     shm_config = \<lparr>env_file = [], rescuer_types_file = [], emergency_types_file = []\<rparr>, server_pid = 0\<rparr>"

record posix =
  the_shm :: "client_server_shm option"
  the_sem :: "nat option"
  message_queues :: "string set"
  terminated :: "int list"

section \<open>The server\<close>

datatype setup_pc =
  S_Unlink_Shm | S_Unlink_Sem | S_Check | S_Unlink_Queue | S_Open_Queue | S_Open_Shm | S_Queue_Name | S_Separator
  | S_Env | S_Rescuers | S_Emergencies | S_Pid | S_Open_Sem | S_Post | S_Done

definition write_shm :: "(client_server_shm \<Rightarrow> client_server_shm) \<Rightarrow> posix \<Rightarrow> posix res" where
  "write_shm f p = rbind (deref (the_shm p)) (\<lambda>m. Inr (p\<lparr>the_shm := Some (f m)\<rparr>))"

text \<open>\<open>take n\<close> is \<^verbatim>\<open>snprintf\<close> into \<open>n + 1\<close> bytes.\<close>

fun setup_step :: "string \<Rightarrow> int \<Rightarrow> setup_pc \<Rightarrow> posix \<Rightarrow> (setup_pc \<times> posix) res" where
  "setup_step q pid S_Unlink_Shm p = Inr (S_Unlink_Sem, p\<lparr>the_shm := None\<rparr>)"
| "setup_step q pid S_Unlink_Sem p = Inr (S_Check, p\<lparr>the_sem := None\<rparr>)"
| "setup_step q pid S_Check p = (if q = [] \<or> hd q \<noteq> CHR ''/'' then Inl ProcessExit else Inr (S_Unlink_Queue, p))"
| "setup_step q pid S_Unlink_Queue p = Inr (S_Open_Queue, p\<lparr>message_queues := message_queues p - {q}\<rparr>)"
| "setup_step q pid S_Open_Queue p = Inr (S_Open_Shm, p\<lparr>message_queues := insert q (message_queues p)\<rparr>)"
| "setup_step q pid S_Open_Shm p =
     (if the_shm p \<noteq> None then Inl ProcessExit else Inr (S_Queue_Name, p\<lparr>the_shm := Some fresh_shm\<rparr>))"
| "setup_step q pid S_Queue_Name p =
     rbind (write_shm (\<lambda>m. m\<lparr>shm_queue_name := take (MAX_EMERGENCY_QUEUE_NAME_LENGTH - 1) q\<rparr>) p) (\<lambda>p. Inr (S_Separator, p))"
| "setup_step q pid S_Separator p =
     rbind (write_shm (\<lambda>m. m\<lparr>requests_argument_separator := EMERGENCY_REQUESTS_ARGUMENT_SEPARATOR_CHAR\<rparr>) p) (\<lambda>p. Inr (S_Env, p))"
| "setup_step q pid S_Env p =
     rbind (write_shm (\<lambda>m. m\<lparr>shm_config := (shm_config m)\<lparr>env_file := take (FILENAME_BUFF - 1) ENV_CONF\<rparr>\<rparr>) p) (\<lambda>p. Inr (S_Rescuers, p))"
| "setup_step q pid S_Rescuers p =
     rbind (write_shm (\<lambda>m. m\<lparr>shm_config := (shm_config m)\<lparr>rescuer_types_file := take (FILENAME_BUFF - 1) RESCUERS_CONF\<rparr>\<rparr>) p) (\<lambda>p. Inr (S_Emergencies, p))"
| "setup_step q pid S_Emergencies p =
     rbind (write_shm (\<lambda>m. m\<lparr>shm_config := (shm_config m)\<lparr>emergency_types_file := take (FILENAME_BUFF - 1) EMERGENCY_TYPES_CONF\<rparr>\<rparr>) p) (\<lambda>p. Inr (S_Pid, p))"
| "setup_step q pid S_Pid p = rbind (write_shm (\<lambda>m. m\<lparr>server_pid := pid\<rparr>) p) (\<lambda>p. Inr (S_Open_Sem, p))"
| "setup_step q pid S_Open_Sem p = (if the_sem p \<noteq> None then Inl ProcessExit else Inr (S_Post, p\<lparr>the_sem := Some 0\<rparr>))"
| "setup_step q pid S_Post p = rbind (deref (the_sem p)) (\<lambda>n. Inr (S_Done, p\<lparr>the_sem := Some (n + 1)\<rparr>))"
| "setup_step q pid S_Done p = Inr (S_Done, p)"

fun setup_run :: "string \<Rightarrow> int \<Rightarrow> nat \<Rightarrow> setup_pc \<Rightarrow> posix \<Rightarrow> (setup_pc \<times> posix) res" where
  "setup_run q pid 0 pc p = Inr (pc, p)"
| "setup_run q pid (Suc n) pc p = rbind (setup_step q pid pc p) (\<lambda>(pc, p). setup_run q pid n pc p)"

definition server_ipc_setup :: "string \<Rightarrow> int \<Rightarrow> posix \<Rightarrow> posix res" where
  "server_ipc_setup q pid p = rbind (setup_run q pid 14 S_Unlink_Shm p) (\<lambda>(pc, p). Inr p)"

section \<open>A client\<close>

text \<open>
  \<open>K_Refused\<close> is a client that ended because there was no semaphore yet, \<open>K_Died\<close> one that ended
  on a later error.
\<close>

datatype client_pc =
  K_Open_Sem | K_Wait | K_Post | K_Open_Shm | K_Open_Queue client_server_shm | K_Ready client_server_shm | K_Refused | K_Died

text \<open>A step; \<open>None\<close> if it waits.\<close>

fun client_step :: "client_pc \<Rightarrow> posix \<Rightarrow> (client_pc \<times> posix) option" where
  "client_step K_Open_Sem p = Some (if the_sem p = None then K_Refused else K_Wait, p)"
| "client_step K_Wait p =
     (case the_sem p of
        None \<Rightarrow> Some (K_Died, p)
      | Some 0 \<Rightarrow> None
      | Some (Suc n) \<Rightarrow> Some (K_Post, p\<lparr>the_sem := Some n\<rparr>))"
| "client_step K_Post p =
     (case the_sem p of None \<Rightarrow> Some (K_Died, p) | Some n \<Rightarrow> Some (K_Open_Shm, p\<lparr>the_sem := Some (Suc n)\<rparr>))"
| "client_step K_Open_Shm p = Some (case the_shm p of None \<Rightarrow> K_Died | Some m \<Rightarrow> K_Open_Queue m, p)"
| "client_step (K_Open_Queue m) p = Some (if shm_queue_name m \<in> message_queues p then K_Ready m else K_Died, p)"
| "client_step (K_Ready m) p = None"
| "client_step K_Refused p = None"
| "client_step K_Died p = None"

section \<open>Server and clients together\<close>

text \<open>The steps of the server's set-up and of any number of clients, in any order.\<close>

inductive ipc_reached :: "string \<Rightarrow> int \<Rightarrow> setup_pc \<times> posix \<times> client_pc list \<Rightarrow> bool" for q pid where
  start: "the_shm p = None \<Longrightarrow> the_sem p = None \<Longrightarrow> set ks \<subseteq> {K_Open_Sem} \<Longrightarrow> ipc_reached q pid (S_Unlink_Shm, p, ks)"
| server: "ipc_reached q pid (pc, p, ks) \<Longrightarrow> setup_step q pid pc p = Inr (pc', p') \<Longrightarrow> ipc_reached q pid (pc', p', ks)"
| client: "ipc_reached q pid (pc, p, ks) \<Longrightarrow> i < length ks \<Longrightarrow> client_step (ks ! i) p = Some (k', p') \<Longrightarrow>
    ipc_reached q pid (pc, p', ks[i := k'])"

definition full_shm :: "string \<Rightarrow> int \<Rightarrow> client_server_shm" where
  "full_shm q pid = \<lparr>shm_queue_name = q, requests_argument_separator = CHR '' '',
     shm_config = \<lparr>env_file = ''conf/env.conf'', rescuer_types_file = ''conf/rescuers.conf'',
       emergency_types_file = ''conf/emergency_types.conf''\<rparr>, server_pid = pid\<rparr>"

text \<open>What the shared memory holds at each point of the set-up.\<close>

definition shm_so_far :: "string \<Rightarrow> int \<Rightarrow> setup_pc \<Rightarrow> client_server_shm option" where
  "shm_so_far q pid pc = (case pc of
      S_Queue_Name \<Rightarrow> Some fresh_shm
    | S_Separator \<Rightarrow> Some (fresh_shm\<lparr>shm_queue_name := q\<rparr>)
    | S_Env \<Rightarrow> Some (fresh_shm\<lparr>shm_queue_name := q, requests_argument_separator := CHR '' ''\<rparr>)
    | S_Rescuers \<Rightarrow> Some ((full_shm q 0)\<lparr>shm_config := \<lparr>env_file = ''conf/env.conf'', rescuer_types_file = [], emergency_types_file = []\<rparr>\<rparr>)
    | S_Emergencies \<Rightarrow> Some ((full_shm q 0)\<lparr>shm_config := \<lparr>env_file = ''conf/env.conf'', rescuer_types_file = ''conf/rescuers.conf'', emergency_types_file = []\<rparr>\<rparr>)
    | S_Pid \<Rightarrow> Some (full_shm q 0)
    | S_Open_Sem \<Rightarrow> Some (full_shm q pid) | S_Post \<Rightarrow> Some (full_shm q pid) | S_Done \<Rightarrow> Some (full_shm q pid)
    | _ \<Rightarrow> None)"

definition queue_is_open :: "setup_pc \<Rightarrow> bool" where
  "queue_is_open pc \<longleftrightarrow> pc \<notin> {S_Unlink_Shm, S_Unlink_Sem, S_Check, S_Unlink_Queue, S_Open_Queue}"

definition setup_inv :: "string \<Rightarrow> int \<Rightarrow> setup_pc \<Rightarrow> posix \<Rightarrow> bool" where
  "setup_inv q pid pc p \<longleftrightarrow> the_shm p = shm_so_far q pid pc \<and> (queue_is_open pc \<longrightarrow> q \<in> message_queues p)
     \<and> (the_sem p \<noteq> None \<longleftrightarrow> pc \<in> {S_Post, S_Done})"

definition client_inv :: "string \<Rightarrow> int \<Rightarrow> setup_pc \<Rightarrow> client_pc \<Rightarrow> bool" where
  "client_inv q pid pc k = (case k of
      K_Open_Sem \<Rightarrow> True | K_Refused \<Rightarrow> True | K_Died \<Rightarrow> False
    | K_Wait \<Rightarrow> pc \<in> {S_Post, S_Done}
    | K_Post \<Rightarrow> pc = S_Done | K_Open_Shm \<Rightarrow> pc = S_Done
    | K_Open_Queue m \<Rightarrow> pc = S_Done \<and> m = full_shm q pid | K_Ready m \<Rightarrow> pc = S_Done \<and> m = full_shm q pid)"

definition ipc_inv :: "string \<Rightarrow> int \<Rightarrow> setup_pc \<times> posix \<times> client_pc list \<Rightarrow> bool" where
  "ipc_inv q pid = (\<lambda>(pc, p, ks). setup_inv q pid pc p \<and> (\<forall>k \<in> set ks. client_inv q pid pc k)
     \<and> (\<forall>n. the_sem p = Some n \<longrightarrow> n + count_if (\<lambda>k. k = K_Post) ks = (if pc = S_Done then 1 else 0)))"

lemma setup_step_inv:
  assumes "setup_inv q pid pc p" and "setup_step q pid pc p = Inr (pc', p')" and "length q < MAX_EMERGENCY_QUEUE_NAME_LENGTH"
  shows "setup_inv q pid pc' p'"
  using assms by (cases pc) (auto simp: setup_inv_def shm_so_far_def queue_is_open_def write_shm_def full_shm_def fresh_shm_def
    FILENAME_BUFF_def ENV_CONF_def RESCUERS_CONF_def EMERGENCY_TYPES_CONF_def EMERGENCY_REQUESTS_ARGUMENT_SEPARATOR_CHAR_def
    res_simps split: if_splits)

lemma client_inv_step:
  assumes "client_inv q pid pc k" and "setup_step q pid pc p = Inr (pc', p')"
  shows "client_inv q pid pc' k"
  using assms by (cases pc; cases k) (auto simp: client_inv_def res_simps split: if_splits)

lemma no_holder:
  assumes "\<forall>k \<in> set ks. client_inv q pid pc k" and "pc \<noteq> S_Done"
  shows "count_if (\<lambda>k. k = K_Post) ks = 0"
  using assms by (auto simp: count_if_0_iff client_inv_def split: client_pc.splits)

lemma ipc_inv_server:
  assumes "ipc_inv q pid (pc, p, ks)" and "setup_step q pid pc p = Inr (pc', p')" and "length q < MAX_EMERGENCY_QUEUE_NAME_LENGTH"
  shows "ipc_inv q pid (pc', p', ks)"
proof -
  have inv: "setup_inv q pid pc p" "\<forall>k \<in> set ks. client_inv q pid pc k"
    and sem: "\<And>n. the_sem p = Some n \<Longrightarrow> n + count_if (\<lambda>k. k = K_Post) ks = (if pc = S_Done then 1 else 0)"
    using assms(1) by (auto simp: ipc_inv_def)
  have s: "setup_inv q pid pc' p'" by (rule setup_step_inv [OF inv(1) assms(2,3)])
  have c: "\<forall>k \<in> set ks. client_inv q pid pc' k" using inv(2) client_inv_step [OF _ assms(2)] by blast
  have "n + count_if (\<lambda>k. k = K_Post) ks = (if pc' = S_Done then 1 else 0)" if "the_sem p' = Some n" for n
  proof (cases "pc \<in> {S_Open_Sem, S_Post, S_Done}")
    case True
    then show ?thesis using assms(2) that sem no_holder [OF inv(2)]
      by (auto simp: res_simps split: if_splits)
  next
    case False
    then have "the_sem p' = None" using inv(1) assms(2)
      by (cases pc) (auto simp: setup_inv_def write_shm_def res_simps split: if_splits)
    then show ?thesis using that by simp
  qed
  then show ?thesis using s c by (simp add: ipc_inv_def)
qed

lemma ipc_inv_client:
  assumes "ipc_inv q pid (pc, p, ks)" and "i < length ks" and "client_step (ks ! i) p = Some (k', p')"
  shows "ipc_inv q pid (pc, p', ks[i := k'])"
proof -
  have inv: "setup_inv q pid pc p" "\<forall>k \<in> set ks. client_inv q pid pc k"
    and sem: "\<And>n. the_sem p = Some n \<Longrightarrow> n + count_if (\<lambda>k. k = K_Post) ks = (if pc = S_Done then 1 else 0)"
    using assms(1) by (auto simp: ipc_inv_def)
  have k: "client_inv q pid pc (ks ! i)" using inv(2) assms(2) by simp
  have cnt: "count_if (\<lambda>k. k = K_Post) (ks[i := k']) + (if ks ! i = K_Post then 1 else 0)
      = count_if (\<lambda>k. k = K_Post) ks + (if k' = K_Post then 1 else 0)"
    by (rule count_if_update [OF assms(2)])
  have "setup_inv q pid pc p' \<and> client_inv q pid pc k'
      \<and> (\<forall>n. the_sem p' = Some n \<longrightarrow> n + count_if (\<lambda>k. k = K_Post) (ks[i := k']) = (if pc = S_Done then 1 else 0))"
  proof (cases "ks ! i")
    case K_Wait
    then obtain n where n: "the_sem p = Some (Suc n)" "k' = K_Post" "p' = p\<lparr>the_sem := Some n\<rparr>"
      using k inv(1) assms(3) by (auto simp: client_inv_def setup_inv_def split: option.splits nat.splits)
    then have "pc = S_Done" using sem [OF n(1)] by (auto split: if_splits)
    then show ?thesis using n K_Wait inv(1) sem [OF n(1)] cnt by (simp add: setup_inv_def client_inv_def)
  next
    case K_Post
    then obtain n where n: "the_sem p = Some n" "k' = K_Open_Shm" "p' = p\<lparr>the_sem := Some (Suc n)\<rparr>"
      using k inv(1) assms(3) by (auto simp: client_inv_def setup_inv_def split: option.splits)
    then show ?thesis using K_Post inv(1) k sem [OF n(1)] cnt by (auto simp: setup_inv_def client_inv_def)
  next
    case (K_Open_Queue m)
    then have "q \<in> message_queues p" "shm_queue_name m = q" using k inv(1)
      by (auto simp: client_inv_def setup_inv_def queue_is_open_def full_shm_def)
    then show ?thesis using K_Open_Queue k inv(1) sem cnt assms(3) by (auto simp: client_inv_def)
  qed (use k inv(1) sem cnt assms(3) in \<open>auto simp: client_inv_def setup_inv_def shm_so_far_def\<close>)
  then show ?thesis using inv(2) set_update_subset_insert [of ks i k'] by (auto simp: ipc_inv_def)
qed

lemma ipc_reached_inv:
  assumes "ipc_reached q pid s" and "length q < MAX_EMERGENCY_QUEUE_NAME_LENGTH"
  shows "ipc_inv q pid s"
  using assms(1)
proof (induction rule: ipc_reached.induct)
  case (start p ks)
  have "client_inv q pid S_Unlink_Shm K_Open_Sem" by (simp add: client_inv_def)
  then have "\<forall>k \<in> set ks. client_inv q pid S_Unlink_Shm k" using start(3) by blast
  then show ?case using start(1,2)
    by (simp add: ipc_inv_def setup_inv_def shm_so_far_def queue_is_open_def)
next
  case (server pc p ks pc' p')
  then show ?case using ipc_inv_server assms(2) by blast
next
  case (client pc p ks i k' p')
  then show ?case using ipc_inv_client by blast
qed

lemma ready_server_facts:
  assumes "ipc_reached q pid (pc, p, ks)" and "length q < MAX_EMERGENCY_QUEUE_NAME_LENGTH"
  shows "K_Died \<notin> set ks"
    and "\<forall>m. K_Ready m \<in> set ks \<longrightarrow> pc = S_Done \<and> m = full_shm q pid \<and> q \<in> message_queues p"
    and "count_if (\<lambda>k. k = K_Post) ks \<le> 1"
    and "pc = S_Done \<and> K_Post \<notin> set ks \<and> K_Wait \<in> set ks \<longrightarrow> (\<exists>p'. client_step K_Wait p = Some (K_Post, p'))"
proof -
  have inv: "setup_inv q pid pc p" "\<forall>k \<in> set ks. client_inv q pid pc k"
    and sem: "\<And>n. the_sem p = Some n \<Longrightarrow> n + count_if (\<lambda>k. k = K_Post) ks = (if pc = S_Done then 1 else 0)"
    using ipc_reached_inv [OF assms] by (auto simp: ipc_inv_def)
  show "K_Died \<notin> set ks" using inv(2) by (auto simp: client_inv_def)
  show "\<forall>m. K_Ready m \<in> set ks \<longrightarrow> pc = S_Done \<and> m = full_shm q pid \<and> q \<in> message_queues p"
    using inv by (auto simp: client_inv_def setup_inv_def queue_is_open_def)
  show "count_if (\<lambda>k. k = K_Post) ks \<le> 1"
  proof (cases "pc = S_Done")
    case True
    then obtain n where "the_sem p = Some n" using inv(1) by (auto simp: setup_inv_def)
    then show ?thesis using sem by (auto split: if_splits)
  qed (use no_holder [OF inv(2)] in simp)
  show "pc = S_Done \<and> K_Post \<notin> set ks \<and> K_Wait \<in> set ks \<longrightarrow> (\<exists>p'. client_step K_Wait p = Some (K_Post, p'))"
  proof (intro impI, elim conjE)
    assume a: "pc = S_Done" "K_Post \<notin> set ks"
    then obtain n where n: "the_sem p = Some n" using inv(1) by (auto simp: setup_inv_def)
    have "count_if (\<lambda>k. k = K_Post) ks = 0" using a(2) by (auto simp: count_if_0_iff)
    then have "n = 1" using sem [OF n] a(1) by simp
    then show "\<exists>p'. client_step K_Wait p = Some (K_Post, p')" using n by simp
  qed
qed

text \<open>A client that runs alone; \<open>None\<close> if it waits on the way.\<close>

fun client_run :: "nat \<Rightarrow> client_pc \<Rightarrow> posix \<Rightarrow> (client_pc \<times> posix) option" where
  "client_run 0 k p = Some (k, p)"
| "client_run (Suc n) k p = (case k of
      K_Ready m \<Rightarrow> Some (k, p) | K_Refused \<Rightarrow> Some (k, p) | K_Died \<Rightarrow> Some (k, p)
    | _ \<Rightarrow> (case client_step k p of None \<Rightarrow> None | Some (k', p') \<Rightarrow> client_run n k' p'))"

lemma setup_run_reached:
  "ipc_reached q pid (pc, p, ks) \<Longrightarrow> setup_run q pid n pc p = Inr (pc', p') \<Longrightarrow> ipc_reached q pid (pc', p', ks)"
  by (induction n arbitrary: pc p) (auto simp: res_simps intro: ipc_reached.server)

lemma client_run_step: "client_step k p = Some (k1, p1) \<Longrightarrow> client_run (Suc n) k p = client_run n k1 p1"
  by (cases k) auto

lemma client_run_reached:
  "ipc_reached q pid (pc, p, ks) \<Longrightarrow> i < length ks \<Longrightarrow> client_run n (ks ! i) p = Some (k', p') \<Longrightarrow> ipc_reached q pid (pc, p', ks[i := k'])"
proof (induction n arbitrary: p ks)
  case (Suc n)
  show ?case
  proof (cases "client_step (ks ! i) p")
    case None
    then show ?thesis using Suc.prems by (auto split: client_pc.splits) (metis list_update_id)+
  next
    case (Some r)
    obtain k1 p1 where r: "r = (k1, p1)" by (cases r)
    have "ipc_reached q pid (pc, p1, ks[i := k1])"
      using ipc_reached.client [OF Suc.prems(1,2)] Some r by simp
    moreover have "client_run n ((ks[i := k1]) ! i) p1 = Some (k', p')"
      using Suc.prems(2,3) Some r client_run_step [of "ks ! i" p k1 p1 n] by simp
    ultimately show ?thesis using Suc.IH [of p1 "ks[i := k1]"] Suc.prems(2) by simp
  qed
qed auto

text \<open>The set-up of a queue whose name starts with a slash and fits, and a client after it.\<close>

lemma setup_then_connect:
  assumes "q \<noteq> []" and "hd q = CHR ''/''" and "length q < MAX_EMERGENCY_QUEUE_NAME_LENGTH"
  shows "\<exists>p'. setup_run q pid 14 S_Unlink_Shm p = Inr (S_Done, p') \<and> server_ipc_setup q pid p = Inr p'
    \<and> client_run 5 K_Open_Sem p' = Some (K_Ready (full_shm q pid), p') \<and> terminated p' = terminated p"
proof -
  let ?p = "p\<lparr>the_shm := Some (full_shm q pid), the_sem := Some 1, message_queues := insert q (message_queues p - {q})\<rparr>"
  have run: "setup_run q pid 14 S_Unlink_Shm p = Inr (S_Done, ?p)"
    using assms by (simp add: eval_nat_numeral write_shm_def full_shm_def fresh_shm_def
      FILENAME_BUFF_def ENV_CONF_def RESCUERS_CONF_def EMERGENCY_TYPES_CONF_def EMERGENCY_REQUESTS_ARGUMENT_SEPARATOR_CHAR_def
      del: take_Suc_Cons)
  have "client_run 5 K_Open_Sem ?p = Some (K_Ready (full_shm q pid), ?p)"
    by (simp add: eval_nat_numeral full_shm_def)
  then show ?thesis using run by (simp add: server_ipc_setup_def)
qed

text \<open>
  C39. However the set-up of the server and any number of clients interleave, from a system without
  names left over: a client that finds the semaphore never fails afterwards; whoever comes
  through has read the complete shared memory, so it knows the server's queue, which exists, its
  separator, its files and its process; at most one client holds the semaphore; and once
  the server is ready and no client holds it, every client that waits can go on.
\<close>

theorem clients_find_ready_server:
  assumes "ipc_reached q pid (pc, p, ks)" and "length q < MAX_EMERGENCY_QUEUE_NAME_LENGTH"
  shows "K_Died \<notin> set ks
    \<and> (\<forall>m. K_Ready m \<in> set ks \<longrightarrow> pc = S_Done \<and> m = full_shm q pid \<and> q \<in> message_queues p)
    \<and> count_if (\<lambda>k. k = K_Post) ks \<le> 1
    \<and> (pc = S_Done \<and> K_Post \<notin> set ks \<and> K_Wait \<in> set ks \<longrightarrow> (\<exists>p'. client_step K_Wait p = Some (K_Post, p')))"
  using ready_server_facts [OF assms] by blast

definition no_names :: posix where
  "no_names = \<lparr>the_shm = None, the_sem = None, message_queues = {}, terminated = []\<rparr>"

theorem clients_find_ready_server_witness:
  "\<exists>p. ipc_reached ''/q'' 42 (S_Done, p, [K_Ready (full_shm ''/q'' 42), K_Open_Sem]) \<and> ''/q'' \<in> message_queues p"
proof -
  obtain p where p: "setup_run ''/q'' 42 14 S_Unlink_Shm no_names = Inr (S_Done, p)"
      "client_run 5 K_Open_Sem p = Some (K_Ready (full_shm ''/q'' 42), p)"
    using setup_then_connect [of "''/q''" 42 no_names] by (auto simp: MAX_EMERGENCY_QUEUE_NAME_LENGTH_def)
  have "ipc_reached ''/q'' 42 (S_Unlink_Shm, no_names, [K_Open_Sem, K_Open_Sem])"
    by (rule ipc_reached.start) (simp_all add: no_names_def)
  from setup_run_reached [OF this p(1)] have "ipc_reached ''/q'' 42 (S_Done, p, [K_Open_Sem, K_Open_Sem])" .
  from client_run_reached [OF this, of 0 5] p(2)
  have r: "ipc_reached ''/q'' 42 (S_Done, p, [K_Ready (full_shm ''/q'' 42), K_Open_Sem])" by simp
  moreover have "length ''/q'' < MAX_EMERGENCY_QUEUE_NAME_LENGTH" by (simp add: MAX_EMERGENCY_QUEUE_NAME_LENGTH_def)
  ultimately show ?thesis using clients_find_ready_server [OF r] by auto
qed

end
