(* ===== verification/Json_Visualizer.thy ===== *)
theory Json_Visualizer
  imports Server_Invariant Samples
begin

text \<open>
  The files in which the server describes its run, \<^verbatim>\<open>json_visualizer.c\<close> without the map in
  characters (theory \<open>Positions_Map\<close>). A file is the text written to it; whether the
  system opens and closes a file of some name is an argument. The context and its parts exist.
\<close>

section \<open>Files\<close>

record json_visualizer =
  file_text :: "string \<Rightarrow> string option"
  global_simulation_json_file :: "string option"
  global_is_first_tick :: bool
  global_positions_json_file :: "string option"
  global_positions_first_emergency :: bool

definition fprintf :: "string \<Rightarrow> string \<Rightarrow> json_visualizer \<Rightarrow> json_visualizer" where
  "fprintf path t v = v\<lparr>file_text := (file_text v)(path := map_option (\<lambda>u. u @ t) (file_text v path))\<rparr>"

definition fopen :: "(string \<Rightarrow> bool) \<Rightarrow> string \<Rightarrow> json_visualizer \<Rightarrow> string option \<times> json_visualizer" where
  "fopen opens path v = (if opens path then (Some path, v\<lparr>file_text := (file_text v)(path := Some [])\<rparr>) else (None, v))"

definition newline :: string where
  "newline = [CHR 0x0A]"

section \<open>Names of the states\<close>

fun rescuer_status_to_string :: "rescuer_status \<Rightarrow> string" where
  "rescuer_status_to_string IDLE = ''IDLE''"
| "rescuer_status_to_string EN_ROUTE_TO_SCENE = ''EN_ROUTE_TO_SCENE''"
| "rescuer_status_to_string ON_SCENE = ''ON_SCENE''"
| "rescuer_status_to_string RETURNING_TO_BASE = ''RETURNING_TO_BASE''"

fun emergency_status_to_string :: "emergency_status \<Rightarrow> string" where
  "emergency_status_to_string WAITING = ''WAITING''"
| "emergency_status_to_string ASSIGNED = ''ASSIGNED''"
| "emergency_status_to_string ASKING_FOR_RESCUERS = ''ASKING_FOR_RESCUERS''"
| "emergency_status_to_string WAITING_FOR_RESCUERS = ''WAITING_FOR_RESCUERS''"
| "emergency_status_to_string IN_PROGRESS = ''IN_PROGRESS''"
| "emergency_status_to_string PAUSED = ''PAUSED''"
| "emergency_status_to_string COMPLETED = ''COMPLETED''"
| "emergency_status_to_string CANCELED = ''CANCELED''"
| "emergency_status_to_string TIMEOUT = ''TIMEOUT''"

section \<open>The simulation\<close>

text \<open>
  An object of an array is preceded by a comma unless it is the first: the state of such a loop is
  whether the next object is the first, and the files.
\<close>

type_synonym writing = "bool \<times> json_visualizer"

definition emit :: "string \<Rightarrow> string \<Rightarrow> writing \<Rightarrow> writing" where
  "emit out t = (\<lambda>(first, v). (False, fprintf out t (if \<not> first then fprintf out ('','' @ newline) v else v)))"

definition twin_object :: "server \<Rightarrow> rescuer_type \<Rightarrow> twin_ptr \<Rightarrow> string" where \<open>
  twin_object s r t = ''        { "id": '' @ decimal (twin_id (twin_at s t)) @ '', "type": "'' @ rescuer_type_name r
    @ ''", "status": "'' @ rescuer_status_to_string (twin_status (twin_at s t))
    @ ''", "x": '' @ decimal (twin_x (twin_at s t)) @ '', "y": '' @ decimal (twin_y (twin_at s t)) @ '' }''\<close>

definition write_twin :: "server \<Rightarrow> string \<Rightarrow> rescuer_type \<Rightarrow> twin_ptr option \<Rightarrow> writing \<Rightarrow> writing res" where
  "write_twin s out r tp w =
    (case tp of
       None \<Rightarrow> Inr w
     | Some t \<Rightarrow> if twin_status (twin_at s t) = IDLE then Inr w else Inr (emit out (twin_object s r t) w))"

definition write_type_twins :: "server \<Rightarrow> string \<Rightarrow> rescuer_type option \<Rightarrow> writing \<Rightarrow> writing res" where
  "write_type_twins s out rp w =
    (case rp of
       None \<Rightarrow> Inr w
     | Some r \<Rightarrow> rfold (\<lambda>j w. rbind (arr_get (twins r) (int j)) (\<lambda>tp. write_twin s out r tp w)) [0..<nat (amount r)] w)"

definition write_tick_rescuers :: "server \<Rightarrow> string \<Rightarrow> json_visualizer \<Rightarrow> json_visualizer res" where \<open>
  write_tick_rescuers s out v =
     rbind (rfold (\<lambda>i w. rbind (arr_get (rescuer_types s) (int i)) (\<lambda>rp. write_type_twins s out rp w))
              [0..<nat (rescuer_types_count s)] (True, fprintf out (''      "rescuers": ['' @ newline) v))
       (\<lambda>(first, v). Inr (fprintf out (newline @ ''      ]'') v))\<close>

definition active_object :: "server \<Rightarrow> emg_ptr \<Rightarrow> string" where \<open>
  active_object s e = ''        { "id": '' @ decimal (eid (emg_at s e)) @ '', "type": "'' @ emergency_desc (etype (emg_at s e))
    @ ''", "status": "'' @ emergency_status_to_string (status (emg_at s e))
    @ ''", "x": '' @ decimal (emg_x (emg_at s e)) @ '', "y": '' @ decimal (emg_y (emg_at s e)) @ '' }''\<close>

definition write_active :: "server \<Rightarrow> string \<Rightarrow> emg_ptr option \<Rightarrow> writing \<Rightarrow> writing res" where
  "write_active s out ep w = (case ep of None \<Rightarrow> Inr w | Some e \<Rightarrow> Inr (emit out (active_object s e) w))"

definition write_tick_emergencies :: "server \<Rightarrow> string \<Rightarrow> json_visualizer \<Rightarrow> json_visualizer res" where \<open>
  write_tick_emergencies s out v =
     rbind (rfold (\<lambda>i w. rbind (arr_get (slots s) (int i)) (\<lambda>ep. write_active s out ep w))
              [0..<WORKER_THREADS_NUMBER] (True, fprintf out (''      "emergencies": ['' @ newline) v))
       (\<lambda>(first, v). Inr (fprintf out (newline @ ''      ]'') v))\<close>

definition json_visualizer_begin ::
  "(string \<Rightarrow> bool) \<Rightarrow> string \<Rightarrow> int \<Rightarrow> int \<Rightarrow> json_visualizer \<Rightarrow> bool \<times> json_visualizer" where \<open>
  json_visualizer_begin opens path width height v =
    (let (f, v1) = fopen opens path v; v2 = v1\<lparr>global_simulation_json_file := f\<rparr> in
     case f of
       None \<Rightarrow> (False, v2)
     | Some out \<Rightarrow>
         (True, fprintf out (''  "ticks": ['' @ newline)
           (fprintf out (''  "height": '' @ decimal height @ '','' @ newline)
           (fprintf out (''  "width": '' @ decimal width @ '','' @ newline)
           (fprintf out (''{'' @ newline) (v2\<lparr>global_is_first_tick := True\<rparr>))))))\<close>

definition json_visualizer_append_tick :: "server \<Rightarrow> int \<Rightarrow> json_visualizer \<Rightarrow> (bool \<times> json_visualizer) res" where \<open>
  json_visualizer_append_tick s tick v =
    (case global_simulation_json_file v of
       None \<Rightarrow> Inr (False, v)
     | Some out \<Rightarrow>
         let v1 = (if \<not> global_is_first_tick v then fprintf out ('','' @ newline) v else v);
             v2 = v1\<lparr>global_is_first_tick := False\<rparr>;
             v3 = fprintf out (''      "tick": '' @ decimal tick @ '','' @ newline) (fprintf out (''    {'' @ newline) v2)
         in rbind (write_tick_rescuers s out v3) (\<lambda>v4.
            rbind (write_tick_emergencies s out (fprintf out ('','' @ newline) v4)) (\<lambda>v5.
            Inr (True, fprintf out (newline @ ''    }'') v5))))\<close>

definition json_visualizer_end :: "(string \<Rightarrow> bool) \<Rightarrow> json_visualizer \<Rightarrow> bool \<times> json_visualizer" where
  "json_visualizer_end closes v =
    (case global_simulation_json_file v of
       None \<Rightarrow> (False, v)
     | Some out \<Rightarrow> (closes out, (fprintf out (''}'' @ newline) (fprintf out (newline @ ''  ]'' @ newline) v))\<lparr>global_simulation_json_file := None\<rparr>))"

section \<open>The reference document\<close>

text \<open>The texts of an array, with a comma and a new line between them.\<close>

fun join :: "string list \<Rightarrow> string" where
  "join [] = []"
| "join [t] = t"
| "join (t # u # ts) = t @ '','' @ newline @ join (u # ts)"

definition rescuers_listed :: "server \<Rightarrow> string list" where
  "rescuers_listed s = [twin_object s r t. Some r \<leftarrow> take (nat (rescuer_types_count s)) (rescuer_types s),
     Some t \<leftarrow> take (nat (amount r)) (twins r), twin_status (twin_at s t) \<noteq> IDLE]"

definition active_listed :: "server \<Rightarrow> string list" where
  "active_listed s = [active_object s e. Some e \<leftarrow> take WORKER_THREADS_NUMBER (slots s)]"

definition tick_document :: "int \<times> server \<Rightarrow> string" where \<open>
  tick_document = (\<lambda>(n, s).
    ''    {'' @ newline @
    ''      "tick": '' @ decimal n @ '','' @ newline @
    ''      "rescuers": ['' @ newline @ join (rescuers_listed s) @ newline @ ''      ],'' @ newline @
    ''      "emergencies": ['' @ newline @ join (active_listed s) @ newline @ ''      ]'' @ newline @
    ''    }'')\<close>

definition simulation_document :: "int \<Rightarrow> int \<Rightarrow> (int \<times> server) list \<Rightarrow> string" where \<open>
  simulation_document w h ticks =
    ''{'' @ newline @
    ''  "width": '' @ decimal w @ '','' @ newline @
    ''  "height": '' @ decimal h @ '','' @ newline @
    ''  "ticks": ['' @ newline @
    join (map tick_document ticks) @ newline @ ''  ]'' @ newline @ ''}'' @ newline\<close>

text \<open>The arrays are as long as the counts say.\<close>

definition arrays_fit :: "server \<Rightarrow> bool" where
  "arrays_fit s \<longleftrightarrow> nat (rescuer_types_count s) \<le> length (rescuer_types s) \<and> length (slots s) = WORKER_THREADS_NUMBER
     \<and> (\<forall>r. Some r \<in> set (rescuer_types s) \<longrightarrow> nat (amount r) \<le> length (twins r))"

section \<open>Writing is the document\<close>

lemma fprintf_again [simp]: "fprintf out a (fprintf out b v) = fprintf out (b @ a) v"
  by (simp add: fprintf_def option.map_comp comp_def)

lemma fprintf_nothing [simp]: "fprintf out [] v = v"
  by (simp add: fprintf_def option.map_ident)

lemma fprintf_fields [simp]:
  "global_simulation_json_file (fprintf out t v) = global_simulation_json_file v"
  "global_is_first_tick (fprintf out t v) = global_is_first_tick v"
  "global_positions_json_file (fprintf out t v) = global_positions_json_file v"
  "global_positions_first_emergency (fprintf out t v) = global_positions_first_emergency v"
  "file_text (fprintf out t v) out = map_option (\<lambda>u. u @ t) (file_text v out)"
  by (simp_all add: fprintf_def)

lemma fprintf_flags:
  "(fprintf out t v)\<lparr>global_is_first_tick := b\<rparr> = fprintf out t (v\<lparr>global_is_first_tick := b\<rparr>)"
  "(fprintf out t v)\<lparr>global_simulation_json_file := f\<rparr> = fprintf out t (v\<lparr>global_simulation_json_file := f\<rparr>)"
  "(fprintf out t v)\<lparr>global_positions_first_emergency := b\<rparr> = fprintf out t (v\<lparr>global_positions_first_emergency := b\<rparr>)"
  "(fprintf out t v)\<lparr>global_positions_json_file := f\<rparr> = fprintf out t (v\<lparr>global_positions_json_file := f\<rparr>)"
  by (simp_all add: fprintf_def)

text \<open>The text of some objects, the first of them preceded by a comma or not.\<close>

fun emits :: "bool \<Rightarrow> string list \<Rightarrow> string" where
  "emits first [] = []"
| "emits first (t # ts) = (if first then [] else '','' @ newline) @ t @ emits False ts"

lemma emits_append: "emits first (ts @ us) = emits first ts @ emits (first \<and> ts = []) us"
  by (induction ts arbitrary: first) auto

lemma emits_False: "emits False (t # ts) = '','' @ newline @ join (t # ts)"
  by (induction ts arbitrary: t) auto

lemma emits_True: "emits True ts = join ts"
proof (cases ts rule: join.cases)
  case (3 t u us)
  then show ?thesis using emits_False [of u us] by simp
qed simp_all

lemma fold_emit: "fold (emit out) ts (first, v) = (first \<and> ts = [], fprintf out (emits first ts) v)"
  by (induction ts arbitrary: first v) (auto simp: emit_def)

lemma rfold_cells:
  assumes "n \<le> length xs"
  shows "rfold (\<lambda>i w. rbind (arr_get xs (int i)) (\<lambda>c. f c w)) [0..<n] w = rfold f (take n xs) w"
proof -
  have "rfold f (map ((!) xs) [0..<n]) w = rfold (\<lambda>i w. rbind (arr_get xs (int i)) (\<lambda>c. f c w)) [0..<n] w"
    unfolding rfold_map using assms by (intro rfold_cong) simp
  moreover have "map ((!) xs) [0..<n] = take n xs" using assms by (intro nth_equalityI) simp_all
  ultimately show ?thesis by simp
qed

text \<open>A loop whose rounds emit the objects \<open>h x\<close> emits the objects of all.\<close>

lemma rfold_emits:
  assumes "\<And>x w. x \<in> set xs \<Longrightarrow> f x w = Inr (fold (emit out) (h x) w)"
  shows "rfold f xs w = Inr (fold (emit out) (concat (map h xs)) w)"
  using assms by (induction xs arbitrary: w) auto

lemma write_type_twins_listed:
  assumes "\<And>r. rp = Some r \<Longrightarrow> nat (amount r) \<le> length (twins r)"
  shows "write_type_twins s out rp w = Inr (fold (emit out)
    [twin_object s r t. Some r \<leftarrow> [rp], Some t \<leftarrow> take (nat (amount r)) (twins r), twin_status (twin_at s t) \<noteq> IDLE] w)"
proof (cases rp)
  case (Some r)
  have "rfold (write_twin s out r) (take (nat (amount r)) (twins r)) w = Inr (fold (emit out)
      (concat (map (\<lambda>tp. case tp of None \<Rightarrow> [] | Some t \<Rightarrow> if twin_status (twin_at s t) \<noteq> IDLE then [twin_object s r t] else [])
        (take (nat (amount r)) (twins r)))) w)"
    by (rule rfold_emits) (simp add: write_twin_def split: option.split)
  then show ?thesis using Some assms by (simp add: write_type_twins_def rfold_cells)
qed (simp add: write_type_twins_def)

lemma write_tick_rescuers_listed:
  assumes "arrays_fit s"
  shows \<open>write_tick_rescuers s out v
    = Inr (fprintf out (''      "rescuers": ['' @ newline @ join (rescuers_listed s) @ newline @ ''      ]'') v)\<close>
proof -
  let ?cells = "take (nat (rescuer_types_count s)) (rescuer_types s)"
  let ?h = "\<lambda>rp. [twin_object s r t. Some r \<leftarrow> [rp], Some t \<leftarrow> take (nat (amount r)) (twins r), twin_status (twin_at s t) \<noteq> IDLE]"
  have "rfold (write_type_twins s out) ?cells w = Inr (fold (emit out) (concat (map ?h ?cells)) w)" for w
  proof (rule rfold_emits)
    fix rp w assume "rp \<in> set ?cells"
    then have "rp \<in> set (rescuer_types s)" by (rule in_set_takeD)
    then show "write_type_twins s out rp w = Inr (fold (emit out) (?h rp) w)"
      using assms by (intro write_type_twins_listed) (simp add: arrays_fit_def)
  qed
  moreover have "concat (map ?h ?cells) = rescuers_listed s"
    unfolding rescuers_listed_def by (rule arg_cong [where f = concat], rule map_cong) (simp_all split: option.split)
  ultimately show ?thesis using assms
    by (simp add: write_tick_rescuers_def arrays_fit_def rfold_cells fold_emit emits_True)
qed

lemma write_tick_emergencies_listed:
  assumes "arrays_fit s"
  shows \<open>write_tick_emergencies s out v
    = Inr (fprintf out (''      "emergencies": ['' @ newline @ join (active_listed s) @ newline @ ''      ]'') v)\<close>
proof -
  let ?cells = "take WORKER_THREADS_NUMBER (slots s)"
  have "rfold (write_active s out) ?cells w = Inr (fold (emit out) (active_listed s) w)" for w
    unfolding active_listed_def by (rule rfold_emits) (simp add: write_active_def split: option.split)
  then show ?thesis using assms
    by (simp add: write_tick_emergencies_def arrays_fit_def rfold_cells fold_emit emits_True)
qed

lemma append_tick_document:
  assumes "arrays_fit s" and "global_simulation_json_file v = Some out"
  shows "json_visualizer_append_tick s n v = Inr (True,
    fprintf out (emits (global_is_first_tick v) [tick_document (n, s)]) (v\<lparr>global_is_first_tick := False\<rparr>))"
  using assms by (simp add: json_visualizer_append_tick_def Let_def write_tick_rescuers_listed
    write_tick_emergencies_listed fprintf_flags tick_document_def)

text \<open>The ticks of a run, each with the state it shows.\<close>

definition append_ticks :: "(int \<times> server) list \<Rightarrow> json_visualizer \<Rightarrow> json_visualizer res" where
  "append_ticks = rfold (\<lambda>(n, s) v. rbind (json_visualizer_append_tick s n v) (\<lambda>(ok, u). Inr u))"

lemma append_ticks_document:
  assumes "\<forall>(n, s)\<in>set ticks. arrays_fit s" and "global_simulation_json_file v = Some out"
  shows "append_ticks ticks v = Inr (fprintf out (emits (global_is_first_tick v) (map tick_document ticks))
    (v\<lparr>global_is_first_tick := global_is_first_tick v \<and> ticks = []\<rparr>))"
  using assms
proof (induction ticks arbitrary: v)
  case Nil
  then show ?case by (simp add: append_ticks_def)
next
  case (Cons x ticks)
  obtain n s where x: "x = (n, s)" by (cases x)
  let ?v1 = "fprintf out (emits (global_is_first_tick v) [tick_document (n, s)]) (v\<lparr>global_is_first_tick := False\<rparr>)"
  have "json_visualizer_append_tick s n v = Inr (True, ?v1)"
    using Cons.prems x by (intro append_tick_document) auto
  moreover have "append_ticks ticks ?v1 = Inr (fprintf out (emits False (map tick_document ticks)) ?v1)"
    using Cons.IH [of ?v1] Cons.prems by (simp add: fprintf_flags)
  ultimately show ?case by (simp add: append_ticks_def x)
qed

text \<open>
  C37. The file of the simulation is the document it is meant to be: opened, given any number of
  ticks in any states, and closed, it holds the head, one object for each tick with the twins that
  are not idle and the emergencies in the slots, commas exactly between the objects, and the end;
  the result is that of \<^verbatim>\<open>fclose\<close> and no other file is touched.
\<close>

theorem simulation_file_is_document:
  assumes "opens path" and "\<forall>(n, s)\<in>set ticks. arrays_fit s"
  shows "\<exists>v1 v2 v3. json_visualizer_begin opens path w h v = (True, v1) \<and> append_ticks ticks v1 = Inr v2
    \<and> json_visualizer_end closes v2 = (closes path, v3)
    \<and> file_text v3 = (file_text v)(path := Some (simulation_document w h ticks)) \<and> global_simulation_json_file v3 = None"
proof -
  let ?v0 = "v\<lparr>file_text := (file_text v)(path := Some []), global_simulation_json_file := Some path, global_is_first_tick := True\<rparr>"
  let ?head = \<open>''{'' @ newline @ ''  "width": '' @ decimal w @ '','' @ newline @ ''  "height": '' @ decimal h @ '','' @ newline @
    ''  "ticks": ['' @ newline\<close>
  let ?v1 = "fprintf path ?head ?v0"
  let ?v2 = "fprintf path (join (map tick_document ticks)) (?v1\<lparr>global_is_first_tick := ticks = []\<rparr>)"
  let ?v3 = "(fprintf path (newline @ ''  ]'' @ newline @ ''}'' @ newline) ?v2)\<lparr>global_simulation_json_file := None\<rparr>"
  have "json_visualizer_begin opens path w h v = (True, ?v1)"
    using assms(1) by (simp add: json_visualizer_begin_def fopen_def)
  moreover have "append_ticks ticks ?v1 = Inr ?v2"
    using append_ticks_document [OF assms(2), of ?v1 path] by (simp add: emits_True)
  moreover have "json_visualizer_end closes ?v2 = (closes path, ?v3)" by (simp add: json_visualizer_end_def)
  moreover have "file_text ?v3 = (file_text v)(path := Some (simulation_document w h ticks))"
    by (simp add: fprintf_def simulation_document_def)
  ultimately show ?thesis by force
qed

definition no_files :: json_visualizer where
  "no_files = \<lparr>file_text = (\<lambda>p. None), global_simulation_json_file = None, global_is_first_tick = True,
     global_positions_json_file = None, global_positions_first_emergency = True\<rparr>"

lemma sample_arrays_fit: "arrays_fit sample_server"
  by (simp add: arrays_fit_def sample_server_def WORKER_THREADS_NUMBER_def van_def)

theorem simulation_file_is_document_witness:
  "\<exists>v1 v2 v3. json_visualizer_begin (\<lambda>p. True) ''out/simulation.json'' 20 20 no_files = (True, v1)
    \<and> append_ticks [(4, sample_server), (5, sample_server)] v1 = Inr v2 \<and> json_visualizer_end (\<lambda>p. True) v2 = (True, v3)
    \<and> file_text v3 ''out/simulation.json'' = Some (simulation_document 20 20 [(4, sample_server), (5, sample_server)])"
proof -
  have "\<forall>(n, s)\<in>set [(4, sample_server), (5, sample_server)]. arrays_fit s" by (simp add: sample_arrays_fit)
  then show ?thesis
    using simulation_file_is_document [of "\<lambda>p. True" "''out/simulation.json''" "[(4, sample_server), (5, sample_server)]" 20 20 no_files "\<lambda>p. True"]
    by force
qed

text \<open>A file that was not opened is never written: every later call returns false and changes nothing.\<close>

lemma unopened_file_writes_nothing:
  assumes "global_simulation_json_file v = None"
  shows "json_visualizer_append_tick s n v = Inr (False, v)" and "json_visualizer_end closes v = (False, v)"
  using assms by (simp_all add: json_visualizer_append_tick_def json_visualizer_end_def)

section \<open>The positions\<close>

definition type_object :: "rescuer_type \<Rightarrow> string" where \<open>
  type_object r = ''    { "name": "'' @ rescuer_type_name r @ ''", "amount": '' @ decimal (amount r)
    @ '', "x": '' @ decimal (base_x r) @ '', "y": '' @ decimal (base_y r) @ '' }''\<close>

definition write_type :: "string \<Rightarrow> rescuer_type option \<Rightarrow> writing \<Rightarrow> writing res" where
  "write_type out rp w = (case rp of None \<Rightarrow> Inr w | Some r \<Rightarrow> Inr (emit out (type_object r) w))"

definition write_positions_rescuer_types :: "server \<Rightarrow> string \<Rightarrow> json_visualizer \<Rightarrow> json_visualizer res" where \<open>
  write_positions_rescuer_types s out v =
     rbind (rfold (\<lambda>i w. rbind (arr_get (rescuer_types s) (int i)) (\<lambda>rp. write_type out rp w))
              [0..<nat (rescuer_types_count s)] (True, fprintf out (''  "rescuer_types": ['' @ newline) v))
       (\<lambda>(first, v). Inr (fprintf out (newline @ ''  ],'' @ newline) v))\<close>

definition emergency_object :: "server \<Rightarrow> emg_ptr \<Rightarrow> string" where \<open>
  emergency_object s e = (let m = emg_at s e in
    ''    { '' @
      ''"type_desc": "'' @ emergency_desc (etype m) @ ''", '' @
      ''"type_priority": '' @ decimal (type_priority (etype m)) @ '', '' @
      ''"id": '' @ decimal (eid m) @ '', '' @
      ''"priority": '' @ decimal (priority m) @ '', '' @
      ''"status": "'' @ emergency_status_to_string (status m) @ ''", '' @
      ''"x": '' @ decimal (emg_x m) @ '', '' @
      ''"y": '' @ decimal (emg_y m) @ '', '' @
      ''"time": '' @ decimal (emg_time m) @ '', '' @
      ''"tick_time": '' @ decimal (tick_time m) @ '', '' @
      ''"rescuer_count": '' @ decimal (rescuer_count m) @ '', '' @
      ''"how_many_times_was_paused": '' @ decimal (how_many_times_was_paused m) @ '', '' @
      ''"how_many_times_was_promoted": '' @ decimal (how_many_times_was_promoted m) @ '' '' @
    ''}'')\<close>

definition write_positions_one_emergency :: "server \<Rightarrow> emg_ptr \<Rightarrow> json_visualizer \<Rightarrow> json_visualizer" where
  "write_positions_one_emergency s e v =
    (case global_positions_json_file v of
       None \<Rightarrow> v
     | Some out \<Rightarrow>
         let v1 = (if \<not> global_positions_first_emergency v then fprintf out ('','' @ newline) v else v)
         in fprintf out (emergency_object s e) (v1\<lparr>global_positions_first_emergency := False\<rparr>))"

text \<open>\<^verbatim>\<open>pq_map\<close> on a queue of the server: the levels in order, each from its head.\<close>

definition map_queue :: "emg_ptr lqueue \<Rightarrow> (emg_ptr \<Rightarrow> 'a \<Rightarrow> 'a) \<Rightarrow> 'a \<Rightarrow> 'a" where
  "map_queue q f = fold f (concat (lq_levels q))"

text \<open>The first half of \<^verbatim>\<open>json_visualizer_positions_dump\<close>; \<open>None\<close> if the file is not opened.\<close>

definition positions_dump_json ::
  "(string \<Rightarrow> bool) \<Rightarrow> (string \<Rightarrow> bool) \<Rightarrow> server \<Rightarrow> string \<Rightarrow> json_visualizer \<Rightarrow> (bool option \<times> json_visualizer) res" where \<open>
  positions_dump_json opens closes s path v =
    (let (f, v1) = fopen opens path v; v2 = v1\<lparr>global_positions_json_file := f\<rparr> in
     case f of
       None \<Rightarrow> Inr (None, v2)
     | Some out \<Rightarrow>
         let v3 = fprintf out (''{'' @ newline) (v2\<lparr>global_positions_first_emergency := True\<rparr>);
             v4 = fprintf out (''  "map": { "width": '' @ decimal (env_width s) @ '', "height": '' @ decimal (env_height s) @ '' },'' @ newline) v3
         in rbind (write_positions_rescuer_types s out v4) (\<lambda>v5.
            let v6 = fprintf out (''  "emergencies": ['' @ newline) v5;
                v7 = map_queue (completed_emergencies s) (write_positions_one_emergency s) v6;
                v8 = map_queue (canceled_emergencies s) (write_positions_one_emergency s) v7;
                v9 = fprintf out (''}'' @ newline) (fprintf out (newline @ ''  ]'' @ newline) v8)
            in Inr (Some (closes out), v9\<lparr>global_positions_json_file := None\<rparr>)))\<close>

definition positions_document :: "server \<Rightarrow> string" where \<open>
  positions_document s =
    ''{'' @ newline @
    ''  "map": { "width": '' @ decimal (env_width s) @ '', "height": '' @ decimal (env_height s) @ '' },'' @ newline @
    ''  "rescuer_types": ['' @ newline @
    join [type_object r. Some r \<leftarrow> take (nat (rescuer_types_count s)) (rescuer_types s)] @ newline @ ''  ],'' @ newline @
    ''  "emergencies": ['' @ newline @
    join (map (emergency_object s) (concat (lq_levels (completed_emergencies s)) @ concat (lq_levels (canceled_emergencies s))))
      @ newline @ ''  ]'' @ newline @ ''}'' @ newline\<close>

lemma write_types_listed:
  assumes "arrays_fit s"
  shows \<open>write_positions_rescuer_types s out v = Inr (fprintf out (''  "rescuer_types": ['' @ newline @
    join [type_object r. Some r \<leftarrow> take (nat (rescuer_types_count s)) (rescuer_types s)] @ newline @ ''  ],'' @ newline) v)\<close>
proof -
  let ?cells = "take (nat (rescuer_types_count s)) (rescuer_types s)"
  have "rfold (write_type out) ?cells w = Inr (fold (emit out) [type_object r. Some r \<leftarrow> ?cells] w)" for w
    by (rule rfold_emits) (simp add: write_type_def split: option.split)
  then show ?thesis using assms
    by (simp add: write_positions_rescuer_types_def arrays_fit_def rfold_cells fold_emit emits_True)
qed

lemma fold_write_emergencies:
  assumes "global_positions_json_file v = Some out"
  shows "fold (write_positions_one_emergency s) es v = fprintf out (emits (global_positions_first_emergency v) (map (emergency_object s) es))
    (v\<lparr>global_positions_first_emergency := global_positions_first_emergency v \<and> es = []\<rparr>)"
  using assms
proof (induction es arbitrary: v)
  case (Cons e es)
  then show ?case by (simp add: write_positions_one_emergency_def Let_def fprintf_flags)
qed simp

text \<open>
  The file of the positions is the document it is meant to be: the map, every rescuer type, and
  every emergency that was completed or canceled, the completed ones first, each queue from its
  first level on, with commas exactly between them.
\<close>

lemma positions_file_is_document:
  assumes "opens path" and "arrays_fit s"
  shows "\<exists>v1. positions_dump_json opens closes s path v = Inr (Some (closes path), v1)
    \<and> file_text v1 = (file_text v)(path := Some (positions_document s)) \<and> global_positions_json_file v1 = None"
proof -
  let ?v2 = "v\<lparr>file_text := (file_text v)(path := Some []), global_positions_json_file := Some path, global_positions_first_emergency := True\<rparr>"
  let ?b = "concat (lq_levels (completed_emergencies s)) @ concat (lq_levels (canceled_emergencies s)) = []"
  have two: "map_queue q f (map_queue p f u) = fold f (concat (lq_levels p) @ concat (lq_levels q)) u" for p q f and u :: json_visualizer
    by (simp add: map_queue_def)
  have "positions_dump_json opens closes s path v = Inr (Some (closes path),
      (fprintf path (positions_document s) (?v2\<lparr>global_positions_first_emergency := ?b\<rparr>))\<lparr>global_positions_json_file := None\<rparr>)"
    using assms by (simp add: positions_dump_json_def fopen_def write_types_listed two Let_def
      fold_write_emergencies fprintf_flags positions_document_def emits_True del: fold_append map_append concat_append)
  then show ?thesis by (auto simp: fprintf_def)
qed

end
