(* ===== verification/Client_Main.thy ===== *)
theory Client_Main
  imports Ipc Json_Visualizer Parse_Rescuers Parse_Emergencies
begin

text \<open>
  The client as a whole: \<^verbatim>\<open>main\<close> of \<^verbatim>\<open>client.c\<close> with the help it prints and the signal by which
  it stops the server. The files are a map from names to contents. What a handler prints before it
  ends the process, and the messages to the log, are left out.
\<close>

section \<open>Files and help\<close>

definition MAX_EMERGENCY_CONF_LINES :: int where
  "MAX_EMERGENCY_CONF_LINES = 256"

definition MAX_EMERGENCY_CONF_LINE_LENGTH :: int where
  "MAX_EMERGENCY_CONF_LINE_LENGTH = 512"

text \<open>Up to \<open>n\<close> characters of a text, and no more than its first line; what is left.\<close>

fun read_upto :: "nat \<Rightarrow> string \<Rightarrow> string \<times> string" where
  "read_upto 0 s = ([], s)"
| "read_upto (Suc n) [] = ([], [])"
| "read_upto (Suc n) (c # s) = (if c = CHR 0x0A then ([c], s) else (let (a, b) = read_upto n s in (c # a, b)))"

text \<open>\<^verbatim>\<open>fgets\<close> into \<open>n\<close> bytes fails at the end of the file.\<close>

definition fgets :: "nat \<Rightarrow> string \<Rightarrow> (string \<times> string) option" where
  "fgets n s = (if s = [] then None else Some (read_upto (n - 1) s))"

fun cat_lines :: "nat \<Rightarrow> nat \<Rightarrow> string \<Rightarrow> string" where
  "cat_lines 0 n s = []"
| "cat_lines (Suc m) n s = (case fgets n s of None \<Rightarrow> [] | Some (l, rest) \<Rightarrow> l @ cat_lines m n rest)"

definition cat_file :: "string \<Rightarrow> int \<Rightarrow> int \<Rightarrow> string" where
  "cat_file f max_file_lines max_file_line_length = cat_lines (nat max_file_lines) (nat max_file_line_length) f @ newline @ newline"

definition tab :: string where
  "tab = [CHR 0x09]"

definition PRINT_CLIENT_USAGE :: "string \<Rightarrow> string" where
  "PRINT_CLIENT_USAGE argv0 =
     newline @ ''########## COME USARE QUESTO PROGRAMMA ##########  '' @ newline @ newline
     @ argv0 @ '' -h                          # tutorial'' @ tab @ tab @ tab @ tab @ newline
     @ argv0 @ '' -z                          # esci immediatamente'' @ tab @ newline
     @ argv0 @ '' -S                          # chiudi server ed esci'' @ tab @ newline
     @ argv0 @ '' <nome> <x> <y> <delay>      # inserimento diretto '' @ tab @ newline
     @ argv0 @ '' -f <nome_file>              # leggi da file    '' @ tab @ '' '' @ tab @ newline @ newline"

definition print_help_info :: "(string \<Rightarrow> string option) \<Rightarrow> string \<Rightarrow> config_files_names \<Rightarrow> string res" where
  "print_help_info files argv0 conf =
    (case (files (env_file conf), files (rescuer_types_file conf), files (emergency_types_file conf)) of
       (Some envp, Some resp, Some emep) \<Rightarrow>
         Inr (PRINT_CLIENT_USAGE argv0
           @ newline @ ''##########    FILE DI CONFIGURAZIONE   ##########  '' @ newline @ newline
           @ cat_file envp MAX_ENV_CONF_LINES MAX_ENV_CONF_LINE_LENGTH
           @ cat_file resp (int MAX_RESCUER_CONF_LINES) MAX_RESCUER_CONF_LINE_LENGTH
           @ cat_file emep MAX_EMERGENCY_CONF_LINES MAX_EMERGENCY_CONF_LINE_LENGTH)
     | _ \<Rightarrow> Inl ProcessExit)"

text \<open>The lines that \<^verbatim>\<open>getline\<close> reads, each with its newline; the last may have none.\<close>

fun lines_of :: "string \<Rightarrow> string list" where
  "lines_of [] = []"
| "lines_of (c # s) = (if c = CHR 0x0A then [c] # lines_of s
     else case lines_of s of [] \<Rightarrow> [[c]] | l # ls \<Rightarrow> (c # l) # ls)"

section \<open>The process\<close>

record client_process =
  kernel :: posix
  work :: client_state
  printed :: string

text \<open>The status a process that closes in order returns.\<close>

definition close_client :: "int \<Rightarrow> int" where
  "close_client exit_code = (if exit_code = 0 then 0 else 1)"

definition handle_stop_mode_client_server :: "int \<Rightarrow> posix \<Rightarrow> posix" where
  "handle_stop_mode_client_server pid p = p\<lparr>terminated := terminated p @ [pid]\<rparr>"

definition snprintf_name :: "string \<Rightarrow> string" where
  "snprintf_name s = take (FILENAME_BUFF - 1) s"

definition client_work ::
  "(string \<Rightarrow> string option) \<Rightarrow> string list \<Rightarrow> client_mode \<Rightarrow> client_server_shm \<Rightarrow> client_process \<Rightarrow> (int \<times> client_process) res" where
  "client_work files argv mode shm c =
    (let conf = \<lparr>env_file = snprintf_name (env_file (shm_config shm)),
           rescuer_types_file = snprintf_name (rescuer_types_file (shm_config shm)),
           emergency_types_file = snprintf_name (emergency_types_file (shm_config shm))\<rparr>;
         after = (\<lambda>w. if ended w then (1, c\<lparr>work := w\<rparr>) else (close_client 0, c\<lparr>work := w\<rparr>))
     in case mode of
       HELP_MODE \<Rightarrow>
         (case print_help_info files (argv ! 0) conf of
            Inl e \<Rightarrow> Inr (1, c)
          | Inr t \<Rightarrow> Inr (close_client 0, c\<lparr>printed := printed c @ t\<rparr>))
     | NORMAL_MODE \<Rightarrow> rbind (handle_normal_mode_input (requests_argument_separator shm) argv (work c)) (\<lambda>w. Inr (after w))
     | FILE_MODE \<Rightarrow>
         rbind (handle_file_mode_input (requests_argument_separator shm) (map_option lines_of (files (argv ! 2))) (work c)) (\<lambda>w. Inr (after w))
     | STOP_CLIENT_AND_SERVER_MODE \<Rightarrow>
         Inr (close_client 0, c\<lparr>kernel := handle_stop_mode_client_server (server_pid shm) (kernel c)\<rparr>)
     | STOP_JUST_CLIENT_MODE \<Rightarrow> Inr (close_client 0, c)
     | UNDEFINED_MODE \<Rightarrow> Inr (close_client 1, c\<lparr>printed := printed c @ PRINT_CLIENT_USAGE (argv ! 0)\<rparr>))"

text \<open>
  The whole process, run while no other step changes the system; \<open>None\<close> if it waits for the
  semaphore. A system call that fails ends the process with status 1.
\<close>

definition client_main ::
  "(string \<Rightarrow> string option) \<Rightarrow> string list \<Rightarrow> client_process \<Rightarrow> (int \<times> client_process) option res" where
  "client_main files argv c =
    (case mode_of_args argv of
       Inl e \<Rightarrow> Inr (Some (close_client 1, c\<lparr>printed := printed c @ PRINT_CLIENT_USAGE (argv ! 0)\<rparr>))
     | Inr mode \<Rightarrow>
         (case client_run 5 K_Open_Sem (kernel c) of
            None \<Rightarrow> Inr None
          | Some (k, p) \<Rightarrow>
              (case k of
                 K_Ready shm \<Rightarrow> rbind (client_work files argv mode shm (c\<lparr>kernel := p\<rparr>)) (\<lambda>r. Inr (Some r))
               | _ \<Rightarrow> Inr (Some (1, c\<lparr>kernel := p\<rparr>)))))"

section \<open>What is printed\<close>

lemma read_upto_line: "CHR 0x0A \<notin> set l \<Longrightarrow> length l < n \<Longrightarrow> read_upto n (l @ CHR 0x0A # s) = (l @ [CHR 0x0A], s)"
proof (induction l arbitrary: n)
  case Nil
  then show ?case by (cases n) auto
next
  case (Cons c l)
  then show ?case by (cases n) auto
qed

text \<open>A file whose lines fit the buffer and are not too many is printed as it is.\<close>

definition printable :: "nat \<Rightarrow> nat \<Rightarrow> string \<Rightarrow> bool" where
  "printable m n s \<longleftrightarrow> (\<exists>ls. s = concat (map (\<lambda>l. l @ newline) ls) \<and> length ls \<le> m \<and> (\<forall>l \<in> set ls. CHR 0x0A \<notin> set l \<and> length l < n - 1))"

lemma cat_lines_all:
  "length ls \<le> m \<Longrightarrow> \<forall>l \<in> set ls. CHR 0x0A \<notin> set l \<and> length l < n - 1 \<Longrightarrow>
    cat_lines m n (concat (map (\<lambda>l. l @ newline) ls)) = concat (map (\<lambda>l. l @ newline) ls)"
proof (induction ls arbitrary: m)
  case Nil
  then show ?case by (cases m) (auto simp: fgets_def)
next
  case (Cons l ls)
  then obtain m' where m: "m = Suc m'" by (cases m) auto
  have "read_upto (n - 1) (l @ CHR 0x0A # concat (map (\<lambda>l. l @ newline) ls)) = (l @ [CHR 0x0A], concat (map (\<lambda>l. l @ newline) ls))"
    using Cons.prems(2) by (intro read_upto_line) simp_all
  then have "fgets n (concat (map (\<lambda>l. l @ newline) (l # ls))) = Some (l @ newline, concat (map (\<lambda>l. l @ newline) ls))"
    by (simp add: fgets_def newline_def)
  then show ?case using Cons m by simp
qed

lemma cat_file_printable: "printable (nat m) (nat n) s \<Longrightarrow> cat_file s m n = s @ newline @ newline"
  using cat_lines_all by (auto simp: printable_def cat_file_def)

definition ready_system :: "string \<Rightarrow> int \<Rightarrow> posix \<Rightarrow> bool" where
  "ready_system q pid p \<longleftrightarrow> client_run 5 K_Open_Sem p = Some (K_Ready (full_shm q pid), p)"

lemma snprintf_names [simp]:
  "snprintf_name ''conf/env.conf'' = ''conf/env.conf''" "snprintf_name ''conf/rescuers.conf'' = ''conf/rescuers.conf''"
  "snprintf_name ''conf/emergency_types.conf'' = ''conf/emergency_types.conf''"
  by (simp_all add: snprintf_name_def FILENAME_BUFF_def)

lemma ready_client:
  assumes "ready_system q pid (kernel c)" and "mode_of_args argv = Inr mode"
  shows "client_main files argv c = rbind (client_work files argv mode (full_shm q pid) c) (\<lambda>r. Inr (Some r))"
  using assms by (simp add: client_main_def ready_system_def)

section \<open>The modes\<close>

definition new_process :: "posix \<Rightarrow> client_process" where
  "new_process p = \<lparr>kernel = p, work = no_messages, printed = []\<rparr>"

text \<open>Arguments that choose no mode.\<close>

definition not_a_mode :: "string list \<Rightarrow> bool" where
  "not_a_mode argv \<longleftrightarrow> length argv \<notin> {2, 3, 5} \<or> length argv = 3 \<and> argv ! 1 \<noteq> ''-f'' \<or> length argv = 2 \<and> argv ! 1 \<notin> {''-S'', ''-z'', ''-h''}"

lemma undefined_mode:
  assumes "ready_system q pid p" and "not_a_mode argv"
  shows "client_main files argv (new_process p) = Inr (Some (1, (new_process p)\<lparr>printed := PRINT_CLIENT_USAGE (argv ! 0)\<rparr>))"
proof (cases "length argv \<in> {2, 3, 5}")
  case True
  then have "mode_of_args argv = Inr UNDEFINED_MODE" using assms(2) by (auto simp: not_a_mode_def mode_of_args_def)
  then show ?thesis using assms(1)
    by (subst ready_client [where mode = UNDEFINED_MODE]) (simp_all add: new_process_def client_work_def Let_def close_client_def)
next
  case False
  then have "mode_of_args argv = Inl ProcessExit" by (simp add: mode_of_args_def)
  then show ?thesis by (simp add: client_main_def new_process_def close_client_def)
qed



end
