(* ===== verification/Clock.thy ===== *)
theory Clock
  imports Receiver
begin

text \<open>
  The clock of the server, \<^verbatim>\<open>thread_clock.c\<close>, and the monitor by which the updater waits for
  a tick, lines 14 to 23 of \<^verbatim>\<open>thread_updater.c\<close>. Both threads run step by step and interleave
  with anybody who raises the stop flag or broadcasts without holding the mutex, as \<open>main\<close> does.
\<close>

section \<open>Operations\<close>

definition tick :: "server \<Rightarrow> server" where
  "tick s = s\<lparr>clock_tick := True, tick_count_since_start := tick_count_since_start s + 1\<rparr>"

definition untick :: "server \<Rightarrow> server" where
  "untick s = s\<lparr>clock_tick := False\<rparr>"

definition server_is_ticking :: "server \<Rightarrow> bool" where
  "server_is_ticking s = clock_tick s"

text \<open>A thread that finds the mutex taken has to wait: there is no result yet.\<close>

definition lock_server_clock :: "server \<Rightarrow> server option" where
  "lock_server_clock s = (if clock_mutex s then None else Some (s\<lparr>clock_mutex := True\<rparr>))"

definition unlock_server_clock :: "server \<Rightarrow> server" where
  "unlock_server_clock s = s\<lparr>clock_mutex := False\<rparr>"

section \<open>The threads\<close>

text \<open>
  Where the clock thread is; the flag says that it gives its last tick. Where the updater is:
  \<open>U_Wait\<close> has found no tick and is about to sleep, with the mutex, \<open>U_Asleep\<close> sleeps, and
  \<open>U_Update\<close> does the work of a tick.
\<close>

datatype clock_pc =
  C_Test | C_Sleep | C_Lock bool | C_Tick bool | C_Broadcast bool | C_Unlock bool | C_Gone

datatype updater_pc =
  U_Test | U_Lock | U_Check | U_Wait | U_Asleep | U_Relock | U_Decide | U_Update | U_Gone

record clock_system =
  the_server :: server
  the_clock :: clock_pc
  the_updater :: updater_pc
  woken :: bool
  updates :: nat

definition broadcast_updated :: "clock_system \<Rightarrow> clock_system" where
  "broadcast_updated c = c\<lparr>the_server := (the_server c)\<lparr>clock_updated := clock_updated (the_server c) + 1\<rparr>,
     woken := woken c \<or> the_updater c = U_Asleep\<rparr>"

definition clock_step :: "clock_system \<Rightarrow> clock_system option" where
  "clock_step c = (let s = the_server c in
    case the_clock c of
      C_Test \<Rightarrow> Some (c\<lparr>the_clock := (if \<not> server_must_stop s then C_Sleep else C_Lock True)\<rparr>)
    | C_Sleep \<Rightarrow> Some (c\<lparr>the_clock := C_Lock False\<rparr>)
    | C_Lock l \<Rightarrow> map_option (\<lambda>s'. c\<lparr>the_server := s', the_clock := C_Tick l\<rparr>) (lock_server_clock s)
    | C_Tick l \<Rightarrow> Some (c\<lparr>the_server := tick s, the_clock := C_Broadcast l\<rparr>)
    | C_Broadcast l \<Rightarrow> Some ((broadcast_updated c)\<lparr>the_clock := C_Unlock l\<rparr>)
    | C_Unlock l \<Rightarrow> Some (c\<lparr>the_server := unlock_server_clock s, the_clock := (if l then C_Gone else C_Test)\<rparr>)
    | C_Gone \<Rightarrow> None)"

definition updater_step :: "clock_system \<Rightarrow> clock_system option" where
  "updater_step c = (let s = the_server c in
    case the_updater c of
      U_Test \<Rightarrow> Some (c\<lparr>the_updater := (if \<not> server_must_stop s then U_Lock else U_Gone)\<rparr>)
    | U_Lock \<Rightarrow> map_option (\<lambda>s'. c\<lparr>the_server := s', the_updater := U_Check\<rparr>) (lock_server_clock s)
    | U_Check \<Rightarrow> Some (c\<lparr>the_updater := (if \<not> server_is_ticking s \<and> \<not> server_must_stop s then U_Wait else U_Decide)\<rparr>)
    | U_Wait \<Rightarrow> Some (c\<lparr>the_server := unlock_server_clock s, the_updater := U_Asleep, woken := False\<rparr>)
    | U_Asleep \<Rightarrow> if woken c then Some (c\<lparr>the_updater := U_Relock\<rparr>) else None
    | U_Relock \<Rightarrow> map_option (\<lambda>s'. c\<lparr>the_server := s', the_updater := U_Check\<rparr>) (lock_server_clock s)
    | U_Decide \<Rightarrow> Some (if server_must_stop s
        then c\<lparr>the_server := unlock_server_clock s, the_updater := U_Gone\<rparr>
        else c\<lparr>the_server := unlock_server_clock (untick s), the_updater := U_Update, updates := updates c + 1\<rparr>)
    | U_Update \<Rightarrow> Some (c\<lparr>the_updater := U_Test\<rparr>)
    | U_Gone \<Rightarrow> None)"

definition raise_stop :: "clock_system \<Rightarrow> clock_system" where
  "raise_stop c = c\<lparr>the_server := (the_server c)\<lparr>server_must_stop := True\<rparr>\<rparr>"

definition clock_start :: "server \<Rightarrow> clock_system" where
  "clock_start s = \<lparr>the_server = s, the_clock = C_Test, the_updater = U_Test, woken = False, updates = 0\<rparr>"

text \<open>The states that are reached from a server whose threads have just started.\<close>

inductive clock_reach :: "clock_system \<Rightarrow> bool" where
  start: "\<not> clock_tick s \<Longrightarrow> \<not> clock_mutex s \<Longrightarrow> tick_count_since_start s = 0 \<Longrightarrow> clock_reach (clock_start s)"
| clock: "clock_reach c \<Longrightarrow> clock_step c = Some c' \<Longrightarrow> clock_reach c'"
| updater: "clock_reach c \<Longrightarrow> updater_step c = Some c' \<Longrightarrow> clock_reach c'"
| stop: "clock_reach c \<Longrightarrow> clock_reach (raise_stop c)"
| broadcast: "clock_reach c \<Longrightarrow> clock_reach (broadcast_updated c)"
| spurious: "clock_reach c \<Longrightarrow> clock_reach (c\<lparr>woken := True\<rparr>)"

section \<open>The invariant\<close>

fun clock_has_mutex :: "clock_pc \<Rightarrow> bool" where
  "clock_has_mutex (C_Tick l) = True"
| "clock_has_mutex (C_Broadcast l) = True"
| "clock_has_mutex (C_Unlock l) = True"
| "clock_has_mutex _ = False"

fun updater_has_mutex :: "updater_pc \<Rightarrow> bool" where
  "updater_has_mutex U_Check = True"
| "updater_has_mutex U_Wait = True"
| "updater_has_mutex U_Decide = True"
| "updater_has_mutex _ = False"

fun last_round :: "clock_pc \<Rightarrow> bool" where
  "last_round (C_Lock l) = l"
| "last_round (C_Tick l) = l"
| "last_round (C_Broadcast l) = l"
| "last_round (C_Unlock l) = l"
| "last_round C_Gone = True"
| "last_round _ = False"

fun broadcasting :: "clock_pc \<Rightarrow> bool" where
  "broadcasting (C_Broadcast l) = True"
| "broadcasting _ = False"

text \<open>
  The mutex is held by at most one of the two; the clock gives its last tick only after the stop;
  an updater that sleeps and was not woken sees no tick, but for one that is about to be announced,
  and the clock has not announced its last; and no tick is worked off twice.
\<close>

definition clock_inv :: "clock_system \<Rightarrow> bool" where
  "clock_inv c \<longleftrightarrow>
     (clock_mutex (the_server c) = (clock_has_mutex (the_clock c) \<or> updater_has_mutex (the_updater c)))
     \<and> \<not> (clock_has_mutex (the_clock c) \<and> updater_has_mutex (the_updater c))
     \<and> (last_round (the_clock c) \<longrightarrow> server_must_stop (the_server c))
     \<and> (the_updater c = U_Wait \<longrightarrow> \<not> clock_tick (the_server c) \<and> the_clock c \<noteq> C_Gone)
     \<and> (the_updater c = U_Asleep \<longrightarrow> \<not> woken c \<longrightarrow>
          (clock_tick (the_server c) \<longrightarrow> broadcasting (the_clock c)) \<and> the_clock c \<noteq> C_Unlock True \<and> the_clock c \<noteq> C_Gone)
     \<and> (the_updater c = U_Decide \<longrightarrow> \<not> server_must_stop (the_server c) \<longrightarrow> clock_tick (the_server c))
     \<and> int (updates c) + (if clock_tick (the_server c) then 1 else 0) \<le> tick_count_since_start (the_server c)"

lemmas clock_defs = tick_def untick_def server_is_ticking_def lock_server_clock_def unlock_server_clock_def broadcast_updated_def

lemma clock_step_inv:
  assumes "clock_inv c" and "clock_step c = Some c'"
  shows "clock_inv c'"
proof (cases "the_clock c")
  case C_Test
  then have c': "c' = c\<lparr>the_clock := (if \<not> server_must_stop (the_server c) then C_Sleep else C_Lock True)\<rparr>"
    using assms(2) by (simp add: clock_step_def Let_def)
  show ?thesis using assms(1) C_Test unfolding clock_inv_def c' by simp
next
  case C_Sleep
  then have c': "c' = c\<lparr>the_clock := C_Lock False\<rparr>" using assms(2) by (simp add: clock_step_def Let_def)
  show ?thesis using assms(1) C_Sleep unfolding clock_inv_def c' by simp
next
  case (C_Lock l)
  then have c': "c' = c\<lparr>the_server := (the_server c)\<lparr>clock_mutex := True\<rparr>, the_clock := C_Tick l\<rparr>"
    and free: "\<not> clock_mutex (the_server c)"
    using assms(2) by (simp_all add: clock_step_def clock_defs Let_def split: if_splits)
  show ?thesis using assms(1) C_Lock free unfolding clock_inv_def c' by simp
next
  case (C_Tick l)
  then have c': "c' = c\<lparr>the_server := tick (the_server c), the_clock := C_Broadcast l\<rparr>"
    using assms(2) by (simp add: clock_step_def Let_def)
  show ?thesis using assms(1) C_Tick unfolding clock_inv_def c'
    by (cases "the_updater c") (simp_all add: tick_def split: if_splits)
next
  case (C_Broadcast l)
  then have c': "c' = (broadcast_updated c)\<lparr>the_clock := C_Unlock l\<rparr>" using assms(2) by (simp add: clock_step_def Let_def)
  show ?thesis using assms(1) C_Broadcast unfolding clock_inv_def c' broadcast_updated_def by simp
next
  case (C_Unlock l)
  then have c': "c' = c\<lparr>the_server := unlock_server_clock (the_server c), the_clock := (if l then C_Gone else C_Test)\<rparr>"
    using assms(2) by (simp add: clock_step_def Let_def)
  show ?thesis using assms(1) C_Unlock unfolding clock_inv_def c' unlock_server_clock_def
    by (cases "the_updater c"; cases l) simp_all
next
  case C_Gone
  then show ?thesis using assms(2) by (simp add: clock_step_def Let_def)
qed

lemma updater_step_inv:
  assumes "clock_inv c" and "updater_step c = Some c'"
  shows "clock_inv c'"
proof (cases "the_updater c")
  case U_Test
  then have c': "c' = c\<lparr>the_updater := (if \<not> server_must_stop (the_server c) then U_Lock else U_Gone)\<rparr>"
    using assms(2) by (simp add: updater_step_def Let_def)
  show ?thesis using assms(1) U_Test unfolding clock_inv_def c' by simp
next
  case U_Lock
  then have c': "c' = c\<lparr>the_server := (the_server c)\<lparr>clock_mutex := True\<rparr>, the_updater := U_Check\<rparr>"
    and free: "\<not> clock_mutex (the_server c)"
    using assms(2) by (simp_all add: updater_step_def clock_defs Let_def split: if_splits)
  show ?thesis using assms(1) U_Lock free unfolding clock_inv_def c' by simp
next
  case U_Check
  then have c': "c' = c\<lparr>the_updater := (if \<not> clock_tick (the_server c) \<and> \<not> server_must_stop (the_server c) then U_Wait else U_Decide)\<rparr>"
    using assms(2) by (simp add: updater_step_def server_is_ticking_def Let_def)
  show ?thesis using assms(1) U_Check unfolding clock_inv_def c' by (cases "the_clock c") simp_all
next
  case U_Wait
  then have c': "c' = c\<lparr>the_server := (the_server c)\<lparr>clock_mutex := False\<rparr>, the_updater := U_Asleep, woken := False\<rparr>"
    using assms(2) by (simp add: updater_step_def unlock_server_clock_def Let_def)
  show ?thesis using assms(1) U_Wait unfolding clock_inv_def c' by (cases "the_clock c") (simp_all split: if_splits)
next
  case U_Asleep
  then have c': "c' = c\<lparr>the_updater := U_Relock\<rparr>" using assms(2) by (simp add: updater_step_def split: if_splits)
  show ?thesis using assms(1) U_Asleep unfolding clock_inv_def c' by simp
next
  case U_Relock
  then have c': "c' = c\<lparr>the_server := (the_server c)\<lparr>clock_mutex := True\<rparr>, the_updater := U_Check\<rparr>"
    and free: "\<not> clock_mutex (the_server c)"
    using assms(2) by (simp_all add: updater_step_def clock_defs Let_def split: if_splits)
  show ?thesis using assms(1) U_Relock free unfolding clock_inv_def c' by simp
next
  case U_Decide
  then have c': "c' = (if server_must_stop (the_server c)
      then c\<lparr>the_server := (the_server c)\<lparr>clock_mutex := False\<rparr>, the_updater := U_Gone\<rparr>
      else c\<lparr>the_server := (the_server c)\<lparr>clock_tick := False, clock_mutex := False\<rparr>, the_updater := U_Update, updates := updates c + 1\<rparr>)"
    using assms(2) by (cases "server_must_stop (the_server c)")
      (simp_all add: updater_step_def unlock_server_clock_def untick_def Let_def)
  show ?thesis using assms(1) U_Decide unfolding clock_inv_def c' by (auto split: if_splits)
next
  case U_Update
  then have c': "c' = c\<lparr>the_updater := U_Test\<rparr>" using assms(2) by (simp add: updater_step_def Let_def)
  show ?thesis using assms(1) U_Update unfolding clock_inv_def c' by simp
next
  case U_Gone
  then show ?thesis using assms(2) by (simp add: updater_step_def Let_def)
qed

lemma clock_reach_inv: "clock_reach c \<Longrightarrow> clock_inv c"
proof (induction rule: clock_reach.induct)
  case (start s)
  then show ?case by (simp add: clock_inv_def clock_start_def)
next
  case (clock c c')
  then show ?case using clock_step_inv by blast
next
  case (updater c c')
  then show ?case using updater_step_inv by blast
next
  case (stop c)
  then show ?case by (simp add: clock_inv_def raise_stop_def)
next
  case (broadcast c)
  then show ?case by (simp add: clock_inv_def broadcast_updated_def)
next
  case (spurious c)
  then show ?case by (simp add: clock_inv_def)
qed

section \<open>Properties\<close>

text \<open>The updater left to itself for a number of steps.\<close>

fun updater_run :: "nat \<Rightarrow> clock_system \<Rightarrow> clock_system" where
  "updater_run 0 c = c"
| "updater_run (Suc n) c = (case updater_step c of None \<Rightarrow> c | Some c' \<Rightarrow> updater_run n c')"

fun updater_steps_left :: "updater_pc \<Rightarrow> nat" where
  "updater_steps_left U_Test = 1"
| "updater_steps_left U_Lock = 3"
| "updater_steps_left U_Check = 2"
| "updater_steps_left U_Wait = 5"
| "updater_steps_left U_Asleep = 4"
| "updater_steps_left U_Relock = 3"
| "updater_steps_left U_Decide = 1"
| "updater_steps_left U_Update = 2"
| "updater_steps_left U_Gone = 0"

lemma updater_steps_left_le: "updater_steps_left u \<le> 5"
  by (cases u) simp_all

lemma updater_progress:
  assumes "clock_inv c" and "the_clock c = C_Gone" and "the_updater c \<noteq> U_Gone"
  shows "\<exists>c'. updater_step c = Some c' \<and> the_clock c' = C_Gone \<and> updater_steps_left (the_updater c') < updater_steps_left (the_updater c)"
  using assms unfolding clock_inv_def
  by (cases "the_updater c") (simp_all add: updater_step_def clock_defs Let_def)

lemma updater_run_ends:
  assumes "clock_reach c" and "the_clock c = C_Gone" and "updater_steps_left (the_updater c) \<le> n"
  shows "the_updater (updater_run n c) = U_Gone"
  using assms
proof (induction n arbitrary: c)
  case 0
  then show ?case by (cases "the_updater c") simp_all
next
  case (Suc n)
  show ?case
  proof (cases "the_updater c = U_Gone")
    case True
    then show ?thesis by (simp add: updater_step_def)
  next
    case False
    then obtain c' where "updater_step c = Some c'" "the_clock c' = C_Gone"
      "updater_steps_left (the_updater c') < updater_steps_left (the_updater c)"
      using updater_progress clock_reach_inv [OF Suc.prems(1)] Suc.prems(2) by blast
    then show ?thesis using Suc.IH [of c'] clock_reach.updater [OF Suc.prems(1)] Suc.prems(3) by simp
  qed
qed

text \<open>
  C27. However the clock, the updater and whoever stops the server interleave: at most one of the
  two threads is in its critical section; the updater works off no tick twice; while it sleeps
  unwoken no tick is waiting for it, but for one whose broadcast is the clock's next step; and the
  last tick that the clock gives before it ends leaves no updater behind, which would miss a stop
  raised between its test and its sleep: once the clock has ended, the updater ends by at most
  five steps of its own.
\<close>

theorem clock_wakes_updater:
  assumes "clock_reach c"
  shows "\<not> (clock_has_mutex (the_clock c) \<and> updater_has_mutex (the_updater c))
    \<and> int (updates c) \<le> tick_count_since_start (the_server c)
    \<and> (the_updater c = U_Asleep \<and> \<not> woken c \<and> clock_tick (the_server c) \<longrightarrow> broadcasting (the_clock c))
    \<and> (the_clock c = C_Gone \<longrightarrow> the_updater (updater_run 5 c) = U_Gone)"
  using clock_reach_inv [OF assms] updater_run_ends [OF assms] updater_steps_left_le
  unfolding clock_inv_def by (auto split: if_splits)

text \<open>
  A run in which the stop falls between the updater's test and its sleep: it is asleep when the
  clock gives its last tick.
\<close>

definition stop_race :: "clock_system option" where
  "stop_race =
    (let c0 = clock_start (sample_server\<lparr>tick_count_since_start := 0\<rparr>);
         u = (\<lambda>c. Option.bind c updater_step);
         k = (\<lambda>c. Option.bind c clock_step);
         c1 = u (u (u (Some c0)));
         c2 = u (map_option (broadcast_updated \<circ> raise_stop) c1)
     in k (k (k (k (k c2)))))"

definition reached :: "clock_system option \<Rightarrow> bool" where
  "reached m \<longleftrightarrow> (\<forall>c. m = Some c \<longrightarrow> clock_reach c)"

lemma reached_steps:
  "reached m \<Longrightarrow> reached (Option.bind m updater_step)" "reached m \<Longrightarrow> reached (Option.bind m clock_step)"
  "reached m \<Longrightarrow> reached (map_option (broadcast_updated \<circ> raise_stop) m)"
  by (auto simp: reached_def bind_eq_Some_conv intro: clock_reach.updater clock_reach.clock clock_reach.broadcast clock_reach.stop)

lemma stop_race_reach: "stop_race = Some c \<Longrightarrow> clock_reach c"
proof -
  have "clock_reach (clock_start (sample_server\<lparr>tick_count_since_start := 0\<rparr>))"
    by (rule clock_reach.start) (simp_all add: sample_server_def)
  then have "reached (Some (clock_start (sample_server\<lparr>tick_count_since_start := 0\<rparr>)))" by (simp add: reached_def)
  then have "reached stop_race" unfolding stop_race_def Let_def by (intro reached_steps)
  then show "stop_race = Some c \<Longrightarrow> clock_reach c" by (simp add: reached_def)
qed

theorem clock_wakes_updater_witness:
  "\<exists>c. stop_race = Some c \<and> the_updater c = U_Asleep \<and> the_clock c = C_Gone \<and> the_updater (updater_run 5 c) = U_Gone"
proof -
  have "case stop_race of Some c \<Rightarrow> the_updater c = U_Asleep \<and> the_clock c = C_Gone | None \<Rightarrow> False" by code_simp
  then obtain c where "stop_race = Some c" "the_updater c = U_Asleep" "the_clock c = C_Gone" by (auto split: option.splits)
  then show ?thesis using clock_wakes_updater [OF stop_race_reach] by blast
qed

end
