(* ===== verification/System_Frames.thy ===== *)
theory System_Frames
  imports Updater_Tick Worker Receiver
begin

text \<open>
  What the search for rescuers and the locked part of a tick leave alone, whatever state they
  start from: the slots, the queues, the locks and the stop flag. No emergency ceases to be
  paused by them, and a completed one can at most be paused.
\<close>

section \<open>Quiet steps\<close>

definition status_kept :: "emergency_status \<Rightarrow> emergency_status \<Rightarrow> bool" where
  "status_kept a b \<longleftrightarrow> (a = PAUSED \<longrightarrow> b = PAUSED) \<and> (a = COMPLETED \<longrightarrow> b = COMPLETED \<or> b = PAUSED)"

lemma status_kept_simps [simp]: "status_kept a a" "status_kept a PAUSED" "status_kept COMPLETED b = (b = COMPLETED \<or> b = PAUSED)"
  by (auto simp: status_kept_def)

lemma status_kept_trans: "status_kept a b \<Longrightarrow> status_kept b c \<Longrightarrow> status_kept a c"
  by (auto simp: status_kept_def)

definition quiet :: "server \<Rightarrow> server \<Rightarrow> bool" where
  "quiet s s' \<longleftrightarrow> slots s' = slots s \<and> emergency_queue s' = emergency_queue s
     \<and> completed_emergencies s' = completed_emergencies s \<and> canceled_emergencies s' = canceled_emergencies s
     \<and> emg_brk s' = emg_brk s \<and> server_must_stop s' = server_must_stop s
     \<and> rescuers_mutex s' = rescuers_mutex s \<and> emergencies_mutex s' = emergencies_mutex s
     \<and> (\<forall>e. status_kept (status (emg_at s e)) (status (emg_at s' e)))"

named_theorems quiet_steps \<open>operations that are quiet when they succeed\<close>

lemma quiet_refl [simp, quiet_steps]: "quiet s s"
  by (simp add: quiet_def)

lemma quiet_trans [trans]: "quiet a b \<Longrightarrow> quiet b c \<Longrightarrow> quiet a c"
  unfolding quiet_def using status_kept_trans by metis

lemma quiet_set_twin [simp, quiet_steps]: "quiet s (set_twin t v s)"
  by (simp add: quiet_def set_twin_def)

lemma quiet_set_emg [quiet_steps]: "status_kept (status (emg_at s e)) (status v) \<Longrightarrow> quiet s (set_emg e v s)"
  by (simp add: quiet_def set_emg_def)

lemma quiet_after_twin: "quiet s s' \<Longrightarrow> quiet s (set_twin t v s')"
  using quiet_trans quiet_set_twin by blast

lemma quiet_after_emg: "quiet s s' \<Longrightarrow> status_kept (status (emg_at s' e)) (status v) \<Longrightarrow> quiet s (set_emg e v s')"
  using quiet_trans quiet_set_emg by blast

lemma quiet_rfold:
  assumes "\<And>x s s'. f x s = Inr s' \<Longrightarrow> quiet s s'" and "rfold f xs s = Inr s'"
  shows "quiet s s'"
  using assms(2)
proof (induction xs arbitrary: s)
  case (Cons x xs)
  then obtain s1 where "f x s = Inr s1" "rfold f xs s1 = Inr s'" by (auto simp: rbind_eq_Inr)
  then show ?case using Cons.IH assms(1) quiet_trans by blast
qed simp

lemma quiet_rfold_on:
  assumes "\<And>x a a'. f x a = Inr a' \<Longrightarrow> quiet (p a) (p a')" and "rfold f xs a = Inr a'"
  shows "quiet (p a) (p a')"
  using assms(2)
proof (induction xs arbitrary: a)
  case (Cons x xs)
  then obtain a1 where "f x a = Inr a1" "rfold f xs a1 = Inr a'" by (auto simp: rbind_eq_Inr)
  then show ?case using Cons.IH assms(1) quiet_trans by blast
qed simp

section \<open>The search for rescuers\<close>

lemma remove_twin_quiet:
  assumes "remove_twin_from_its_emergency tp s = Inr s'"
  shows "quiet s s'"
  using assms unfolding remove_twin_from_its_emergency_def
  by (auto simp: rbind_eq_Inr quiet_set_emg split: option.splits if_splits)

lemma change_destination_quiet:
  assumes "change_rescuer_digital_twin_destination tp x y s = Inr s'"
  shows "quiet s s'"
  using assms unfolding change_rescuer_digital_twin_destination_def
  by (auto simp: Let_def split: option.splits if_splits)

lemma preempt_quiet:
  assumes "preempt_if_needed tp e s = Inr s'"
  shows "quiet s s'"
proof (cases "s' = s")
  case False
  with assms obtain t old i r where t: "tp = Some t" "emergency (twin_at s t) = Some old"
    and rest: "(let s1 = set_emg old ((emg_at s old)\<lparr>rescuers_missing :=
                   (rescuers_missing (emg_at s old))[i := Some (r\<lparr>required_count := required_count r + 1\<rparr>)]\<rparr>) s;
                 s2 = (if twin_status (twin_at s1 t) = ON_SCENE
                       then set_emg old ((emg_at s1 old)\<lparr>rescuers_not_arrived_yet :=
                              rescuers_not_arrived_yet (emg_at s1 old) + 1\<rparr>) s1
                       else s1)
             in rbind (remove_twin_from_its_emergency (Some t) s2) (\<lambda>s3.
                if status (emg_at s3 old) \<noteq> PAUSED
                then Inr (set_emg old ((emg_at s3 old)\<lparr>
                       how_many_times_was_paused := how_many_times_was_paused (emg_at s3 old) + 1,
                       status := PAUSED, cond := cond (emg_at s3 old) + 1\<rparr>) s3)
                else Inr s3)) = Inr s'"
    unfolding preempt_if_needed_def by (fastforce simp: rbind_eq_Inr split: option.splits if_splits)
  let ?s1 = "set_emg old ((emg_at s old)\<lparr>rescuers_missing :=
      (rescuers_missing (emg_at s old))[i := Some (r\<lparr>required_count := required_count r + 1\<rparr>)]\<rparr>) s"
  let ?s2 = "if twin_status (twin_at ?s1 t) = ON_SCENE
    then set_emg old ((emg_at ?s1 old)\<lparr>rescuers_not_arrived_yet := rescuers_not_arrived_yet (emg_at ?s1 old) + 1\<rparr>) ?s1 else ?s1"
  have "quiet s ?s1" by (rule quiet_set_emg) simp
  moreover have "quiet ?s1 ?s2" using quiet_set_emg [of ?s1 old] by simp
  ultimately have s2: "quiet s ?s2" by (rule quiet_trans)
  obtain s3 where s3: "remove_twin_from_its_emergency (Some t) ?s2 = Inr s3"
    and s': "(if status (emg_at s3 old) \<noteq> PAUSED
                then set_emg old ((emg_at s3 old)\<lparr>
                       how_many_times_was_paused := how_many_times_was_paused (emg_at s3 old) + 1,
                       status := PAUSED, cond := cond (emg_at s3 old) + 1\<rparr>) s3 else s3) = s'"
    using rest unfolding Let_def rbind_eq_Inr by (metis sum.inject(2))
  have "quiet s s3" using s2 remove_twin_quiet [OF s3] quiet_trans by blast
  then show ?thesis unfolding s' [symmetric] by (auto intro: quiet_after_emg)
qed simp

lemma send_to_scene_quiet:
  assumes "send_rescuer_digital_twin_to_scene t e s = Inr s'"
  shows "quiet s s'"
proof (cases "s' = s")
  case False
  with assms obtain u v x y where "change_rescuer_digital_twin_destination (Some t) x y (set_twin t v (set_twin t u s)) = Inr s'"
    unfolding send_rescuer_digital_twin_to_scene_def by (auto simp: rbind_eq_Inr Let_def split: if_splits)
  from change_destination_quiet [OF this] show ?thesis using quiet_after_twin quiet_trans quiet_refl by metis
qed simp

lemma search_one_quiet:
  assumes "search_one e r a = Inr a'"
  shows "quiet (snd (snd (snd a))) (snd (snd (snd a')))"
  using assms unfolding search_one_def
  by (auto simp: rbind_eq_Inr Let_def split: prod.splits if_splits option.splits)

lemma search_type_quiet:
  assumes "search_type e i a = Inr a'"
  shows "quiet (snd (snd (snd a))) (snd (snd (snd a')))"
proof -
  obtain found k c s where a: "a = (found, k, c, s)" by (cases a)
  show ?thesis
  proof (cases found)
    case False
    then show ?thesis using assms a by (simp add: search_type_def)
  next
    case True
    then obtain req :: rescuer_request where "rfold (\<lambda>_. search_one e (req_type req)) [0..<nat (required_count req)] a = Inr a'"
      using assms a by (auto simp: search_type_def rbind_eq_Inr intro: that)
    then show ?thesis by (rule quiet_rfold_on [where p = "\<lambda>a. snd (snd (snd a))", rotated]) (rule search_one_quiet)
  qed
qed

lemma clear_candidate_quiet: "clear_candidate c i s = Inr s' \<Longrightarrow> quiet s s'"
  by (auto simp: clear_candidate_def rbind_eq_Inr)

lemma assign_slot_quiet:
  assumes "assign_slot e c i a = Inr a'"
  shows "quiet (snd a) (snd a')"
proof -
  obtain k s where a: "a = (k, s)" by (cases a)
  show ?thesis
  proof (cases "a' = a")
    case False
    then obtain t s1 ts s2 where s1: "preempt_if_needed (Some t) e s = Inr s1"
      and s2: "send_rescuer_digital_twin_to_scene t e (set_emg e ((emg_at s1 e)\<lparr>rescuer_twins := ts\<rparr>) s1) = Inr s2"
      and a': "snd a' = s2"
      using assms unfolding a assign_slot_def by (auto simp: rbind_eq_Inr split: if_splits intro: that)
    have "quiet s1 (set_emg e ((emg_at s1 e)\<lparr>rescuer_twins := ts\<rparr>) s1)" by (rule quiet_set_emg) simp
    then show ?thesis using preempt_quiet [OF s1] send_to_scene_quiet [OF s2] quiet_trans unfolding a a' by (metis snd_conv)
  qed simp
qed

lemma zero_missing_quiet: "zero_missing e i s = Inr s' \<Longrightarrow> quiet s s'"
  by (auto simp: zero_missing_def rbind_eq_Inr intro!: quiet_set_emg)

text \<open>Locked and unlocked around something quiet.\<close>

lemma lock_system_iff: "lock_system s = Inr s' \<longleftrightarrow> \<not> rescuers_mutex s \<and> \<not> emergencies_mutex s \<and>
    s' = s\<lparr>rescuers_mutex := True, emergencies_mutex := True\<rparr>"
  by (auto simp: lock_system_def)

lemma quiet_locked:
  assumes "lock_system s = Inr s1" and "quiet s1 s2"
  shows "quiet s (unlock_system s2)"
  using assms by (auto simp: lock_system_iff quiet_def unlock_system_def)

lemma find_rescuers_quiet:
  assumes "find_rescuers e s = Inr (found, s')"
  shows "quiet s s'"
proof -
  from assms obtain s0 m where s0: "lock_system s = Inr s0" "sum_missing (emg_at s0 e) = Inr m"
    unfolding find_rescuers_def by (auto simp: rbind_eq_Inr)
  show ?thesis
  proof (cases "m = 0")
    case True
    then have "s' = unlock_system s0" using assms s0 by (simp add: find_rescuers_def)
    then show ?thesis using quiet_locked [OF s0(1) quiet_refl] by simp
  next
    case False
    let ?n = "nat (rescuers_req_number (etype (emg_at s0 e)))"
    from assms s0 False obtain fd k c s1 s2 where
      s1: "rfold (search_type e) [0..<?n] (True, 0, replicate (nat m) None, s0) = Inr (fd, k, c, s1)"
      and s2: "rfold (clear_candidate c) [0..<nat k] s1 = Inr s2"
      and rest: "(if \<not> fd then Inr (False, unlock_system s2)
      else rbind (rfold (assign_slot e c) [0..<nat (rescuer_count (emg_at s2 e))] (0, s2)) (\<lambda>(k2, s3).
        rbind (rfold (zero_missing e) [0..<?n] s3) (\<lambda>s4. Inr (fd, unlock_system s4)))) = Inr (found, s')"
      unfolding find_rescuers_def by (auto simp: rbind_eq_Inr Let_def)
    have "quiet (snd (snd (snd (True, 0 :: int, replicate (nat m) (None :: nat option), s0)))) (snd (snd (snd (fd, k, c, s1))))"
      using s1 by (rule quiet_rfold_on [where p = "\<lambda>a. snd (snd (snd a))", rotated]) (rule search_type_quiet)
    moreover have "quiet s1 s2" using s2 by (rule quiet_rfold [rotated]) (rule clear_candidate_quiet)
    ultimately have q2: "quiet s0 s2" using quiet_trans by simp
    show ?thesis
    proof (cases fd)
      case False
      then show ?thesis using rest quiet_locked [OF s0(1) q2] by simp
    next
      case True
      then obtain k2 s3 s4 where s3: "rfold (assign_slot e c) [0..<nat (rescuer_count (emg_at s2 e))] (0, s2) = Inr (k2, s3)"
        and s4: "rfold (zero_missing e) [0..<?n] s3 = Inr s4" and s': "s' = unlock_system s4"
        using rest by (auto simp: rbind_eq_Inr)
      have "quiet (snd (0 :: int, s2)) (snd (k2, s3))"
        using s3 by (rule quiet_rfold_on [where p = snd, rotated]) (rule assign_slot_quiet)
      moreover have "quiet s3 s4" using s4 by (rule quiet_rfold [rotated]) (rule zero_missing_quiet)
      ultimately have "quiet s0 s4" using q2 quiet_trans [of s0 s2 s3] quiet_trans [of s0 s3 s4] by simp
      then show ?thesis unfolding s' by (rule quiet_locked [OF s0(1)])
    qed
  qed
qed

section \<open>The locked part of a tick\<close>

lemma quiet_mutex: "quiet s s' \<Longrightarrow> emergencies_mutex s' = emergencies_mutex s"
  by (simp add: quiet_def)

lemma quiet_rfold_locked:
  assumes "\<And>x s s'. emergencies_mutex s \<Longrightarrow> f x s = Inr s' \<Longrightarrow> quiet s s'"
    and "emergencies_mutex s" and "rfold f xs s = Inr s'"
  shows "quiet s s'"
  using assms(2,3)
proof (induction xs arbitrary: s)
  case (Cons x xs)
  then obtain s1 where s1: "f x s = Inr s1" "rfold f xs s1 = Inr s'" by (auto simp: rbind_eq_Inr)
  then have q: "quiet s s1" using assms(1) Cons.prems(1) by blast
  have "emergencies_mutex s1" using quiet_mutex [OF q] Cons.prems(1) by simp
  then have "quiet s1 s'" using Cons.IH s1(2) by blast
  with q show ?case by (rule quiet_trans)
qed simp

lemma request_shutdown_locked_quiet:
  assumes "emergencies_mutex s" and "log_error_and_exit request_shutdown_from_thread s = Inr s'"
  shows "quiet s s'"
  using assms by (cases "shutting_down s")
    (auto simp: log_error_and_exit_def request_shutdown_from_thread_def wake_everyone_now_def lock_emergencies_def quiet_def)

lemma send_back_quiet:
  assumes "send_rescuer_digital_twin_back_to_base t s = Inr s'"
  shows "quiet s s'"
proof (cases "s' = s")
  case False
  with assms obtain v x y where "change_rescuer_digital_twin_destination (Some t) x y (set_twin t v s) = Inr s'"
    unfolding send_rescuer_digital_twin_back_to_base_def by (auto simp: Let_def split: if_splits)
  from change_destination_quiet [OF this] show ?thesis using quiet_after_twin quiet_trans quiet_refl by metis
qed simp

lemma leave_scene_quiet:
  assumes "leave_scene t s = Inr s'"
  shows "quiet s s'"
proof -
  from assms obtain e s2 s3 where
    s2: "remove_twin_from_its_emergency (Some t)
      (set_emg e ((emg_at s e)\<lparr>rescuers_not_done_yet := rescuers_not_done_yet (emg_at s e) - 1\<rparr>) s) = Inr s2"
    and s3: "send_rescuer_digital_twin_back_to_base t s2 = Inr s3"
    and s': "s' = set_twin t ((twin_at s3 t)\<lparr>emergency := None\<rparr>) s3"
    unfolding leave_scene_def by (auto simp: rbind_eq_Inr Let_def)
  have "quiet s (set_emg e ((emg_at s e)\<lparr>rescuers_not_done_yet := rescuers_not_done_yet (emg_at s e) - 1\<rparr>) s)"
    by (rule quiet_set_emg) simp
  then have "quiet s s3" using remove_twin_quiet [OF s2] send_back_quiet [OF s3] quiet_trans by blast
  then show ?thesis unfolding s' by (rule quiet_after_twin)
qed

lemma walk_arrived_quiet:
  assumes "emergencies_mutex s" and q3: "quiet s s3"
    and rest: "(if \<not> arrived then Inr (True, s3)
       else
         let s4 = set_twin t ((twin_at s3 t)\<lparr>is_travelling := Some False\<rparr>) s3
         in case twin_status (twin_at s4 t) of
              EN_ROUTE_TO_SCENE \<Rightarrow>
                let u = twin_at s4 t;
                    s5 = set_twin t (u\<lparr>time_left_before_leaving := twin_time_to_manage u, twin_status := ON_SCENE\<rparr>) s4
                in rbind (deref (emergency (twin_at s5 t))) (\<lambda>e.
                   Inr (True, set_emg e ((emg_at s5 e)\<lparr>rescuers_not_arrived_yet :=
                     rescuers_not_arrived_yet (emg_at s5 e) - 1\<rparr>) s5))
            | RETURNING_TO_BASE \<Rightarrow> Inr (True, set_twin t ((twin_at s4 t)\<lparr>twin_status := IDLE\<rparr>) s4)
            | _ \<Rightarrow> rbind (log_error_and_exit request_shutdown_from_thread s4) (\<lambda>s5. Inr (False, s5))) = Inr (b, s')"
  shows "quiet s s'"
proof (cases arrived)
  case False
  then show ?thesis using rest q3 by simp
next
  case True
  let ?s4 = "set_twin t ((twin_at s3 t)\<lparr>is_travelling := Some False\<rparr>) s3"
  have q4: "quiet s ?s4" using q3 by (rule quiet_after_twin)
  have m4: "emergencies_mutex ?s4" using quiet_mutex [OF q4] assms(1) by simp
  have no_exit: "quiet s s'" if "log_error_and_exit request_shutdown_from_thread ?s4 = Inr s'"
    using request_shutdown_locked_quiet [OF m4 that] q4 quiet_trans by blast
  show ?thesis
  proof (cases "twin_status (twin_at ?s4 t)")
    case EN_ROUTE_TO_SCENE
    then show ?thesis using rest True q4
      by (auto simp: rbind_eq_Inr Let_def intro!: quiet_after_emg quiet_after_twin q3)
  next
    case RETURNING_TO_BASE
    then show ?thesis using rest True q4 by (auto simp: Let_def intro!: quiet_after_twin q3)
  next
    case IDLE
    then show ?thesis using rest True no_exit by (auto simp: rbind_eq_Inr Let_def)
  next
    case ON_SCENE
    then show ?thesis using rest True no_exit by (auto simp: rbind_eq_Inr Let_def)
  qed
qed

lemma walk_twin_quiet:
  assumes "emergencies_mutex s" and "walk_twin t minx miny h w s = Inr (b, s')"
  shows "quiet s s'"
proof -
  let ?s1 = "set_twin t ((twin_at s t)\<lparr>is_travelling := Some True\<rparr>) s"
  let ?v = "twin_at ?s1 t"
  from assms(2) obtain arrived tr x y where
    "compute_bresenham_step (twin_x ?v) (twin_y ?v) (trajectory ?v) (speed (rescuer ?v)) 0 0 = Inr (arrived, tr, x, y)"
    unfolding walk_twin_def Let_def by (auto simp: rbind_eq_Inr)
  note comp = assms(2) [unfolded walk_twin_def Let_def this rbind_simps prod.case]
  define s2 where "s2 = set_twin t (?v\<lparr>trajectory := tr, twin_x := twin_x ?v + x, twin_y := twin_y ?v + y\<rparr>) ?s1"
  from comp [folded s2_def, unfolded rbind_eq_Inr] obtain s3 where
    s3: "(if twin_x (twin_at s2 t) < minx \<or> twin_x (twin_at s2 t) \<ge> w \<or> twin_y (twin_at s2 t) < miny \<or> twin_y (twin_at s2 t) \<ge> h
          then log_error_and_exit request_shutdown_from_thread s2 else Inr s2) = Inr s3"
    and tail: "(if \<not> arrived then Inr (True, s3)
       else
         let s4 = set_twin t ((twin_at s3 t)\<lparr>is_travelling := Some False\<rparr>) s3
         in case twin_status (twin_at s4 t) of
              EN_ROUTE_TO_SCENE \<Rightarrow>
                let u = twin_at s4 t;
                    s5 = set_twin t (u\<lparr>time_left_before_leaving := twin_time_to_manage u, twin_status := ON_SCENE\<rparr>) s4
                in rbind (deref (emergency (twin_at s5 t))) (\<lambda>e.
                   Inr (True, set_emg e ((emg_at s5 e)\<lparr>rescuers_not_arrived_yet :=
                     rescuers_not_arrived_yet (emg_at s5 e) - 1\<rparr>) s5))
            | RETURNING_TO_BASE \<Rightarrow> Inr (True, set_twin t ((twin_at s4 t)\<lparr>twin_status := IDLE\<rparr>) s4)
            | _ \<Rightarrow> rbind (log_error_and_exit request_shutdown_from_thread s4) (\<lambda>s5. Inr (False, s5))) = Inr (b, s')"
    unfolding Let_def rbind_eq_Inr by blast
  have q2: "quiet s s2" unfolding s2_def by (intro quiet_after_twin quiet_refl)
  have "emergencies_mutex s2" using quiet_mutex [OF q2] assms(1) by simp
  then have "quiet s2 s3" using s3 request_shutdown_locked_quiet [of s2 s3] by (auto split: if_splits)
  then have "quiet s s3" using q2 quiet_trans by blast
  then show ?thesis using tail by (rule walk_arrived_quiet [OF assms(1)])
qed

lemma update_twin_quiet:
  assumes "emergencies_mutex s" and "update_rescuer_digital_twin_state tp minx miny h w s = Inr (b, s')"
  shows "quiet s s'"
proof (cases tp)
  case None
  then show ?thesis using assms(2) by (simp add: update_rescuer_digital_twin_state_def)
next
  case (Some t)
  let ?s1 = "set_twin t ((twin_at s t)\<lparr>time_left_before_leaving := time_left_before_leaving (twin_at s t) - 1\<rparr>) s"
  have q1: "quiet s ?s1" by simp
  consider "s' = s" | "s' = ?s1" | s2 where "leave_scene t ?s1 = Inr s2" "walk_twin t minx miny h w s2 = Inr (b, s')"
    | "walk_twin t minx miny h w s = Inr (b, s')"
    using assms(2) Some unfolding update_rescuer_digital_twin_state_def
    by (auto simp: rbind_eq_Inr Let_def split: if_splits)
  then show ?thesis
  proof cases
    case 3
    have q2: "quiet s s2" using leave_scene_quiet [OF 3(1)] q1 quiet_trans by blast
    then have "emergencies_mutex s2" using quiet_mutex assms(1) by blast
    then show ?thesis using walk_twin_quiet [OF _ 3(2)] q2 quiet_trans by blast
  qed (use q1 walk_twin_quiet [OF assms(1)] in auto)
qed

lemma update_type_quiet:
  assumes "emergencies_mutex s" and "update_type rp s = Inr s'"
  shows "quiet s s'"
proof (cases rp)
  case None
  then show ?thesis using assms(2) by (simp add: update_type_def)
next
  case (Some r)
  then show ?thesis using assms
    by (auto simp: update_type_def rbind_eq_Inr elim!: quiet_rfold_locked [rotated -1] intro: update_twin_quiet)
qed

lemma update_rescuers_quiet:
  assumes "emergencies_mutex s" and "update_rescuers_states s = Inr s'"
  shows "quiet s s'"
  using assms unfolding update_rescuers_states_def
  by (auto simp: rbind_eq_Inr elim!: quiet_rfold_locked [rotated -1] intro: update_type_quiet)

lemma active_state_quiet:
  assumes "update_active_emergency_state ep s = Inr s'"
  shows "quiet s s'"
proof (cases ep)
  case None
  then show ?thesis using assms by (simp add: update_active_emergency_state_def)
next
  case (Some e)
  have "status_kept (status (emg_at s e)) (status (active_next (emg_at s e)))"
    by (cases "status (emg_at s e)") (auto simp: active_next_def promoted_def status_kept_def Let_def)
  then show ?thesis using assms Some by (auto simp: update_active_emergency_state intro: quiet_set_emg)
qed

lemma update_active_quiet:
  assumes "update_active_emergencies_states s = Inr s'"
  shows "quiet s s'"
  using assms unfolding update_active_emergencies_states_def
  by (auto simp: rbind_eq_Inr elim!: quiet_rfold [rotated] intro: active_state_quiet)

end
