(* ===== verification/System.thy ===== *)
theory System
  imports System_Frames Clock
begin

text \<open>
  The server as a whole: ten workers, the receiver, the updater, the clock and the shutdown, all
  working on one state, step by step and in any order. What a step does while it holds a lock, or
  inside one operation of a queue, is one step; between two of them every thread may run. Only
  steps that have a result are steps: a run that meets undefined behaviour ends there.
\<close>

section \<open>Steps\<close>

text \<open>
  Where the updater is: before the locked part of a tick, before it counts down the timers of the
  waiting emergencies, in one of its two loops, or in one of them with an emergency that it has
  taken out of the queue.
\<close>

datatype updater_at = At_Tick | At_Waiting | At_Expired | Expired emg_ptr | At_Promotion | To_Promote emg_ptr

fun update_step :: "updater_at \<Rightarrow> server \<Rightarrow> (updater_at \<times> server) res" where
  "update_step At_Tick s =
     rbind (lock_system s) (\<lambda>s1.
     rbind (update_rescuers_states s1) (\<lambda>s2.
     rbind (update_active_emergencies_states s2) (\<lambda>s3.
     Inr (At_Waiting, unlock_system s3))))"
| "update_step At_Waiting s = Inr (At_Expired, update_waiting_emergencies_states s)"
| "update_step At_Expired s =
     (let (ep, q) = lq_extract (emergency_queue s) (emergency_has_expired s)
      in Inr (case ep of None \<Rightarrow> At_Promotion | Some e \<Rightarrow> Expired e, s\<lparr>emergency_queue := q\<rparr>))"
| "update_step (Expired e) s =
     (let s2 = set_emg e ((emg_at s e)\<lparr>status := TIMEOUT\<rparr>) s
      in rbind (priority_to_level (priority (emg_at s2 e))) (\<lambda>l.
         Inr (At_Expired, s2\<lparr>canceled_emergencies := lq_push (canceled_emergencies s2) e l\<rparr>)))"
| "update_step At_Promotion s =
     (let (ep, q) = lq_extract (emergency_queue s) (emergency_is_to_promote s)
      in Inr (case ep of None \<Rightarrow> At_Tick | Some e \<Rightarrow> To_Promote e, s\<lparr>emergency_queue := q\<rparr>))"
| "update_step (To_Promote e) s =
     rbind (promote_emergency e s) (\<lambda>s2.
     rbind (priority_to_level (priority (emg_at s2 e))) (\<lambda>l.
     Inr (At_Promotion, s2\<lparr>emergency_queue := lq_push (emergency_queue s2) e l\<rparr>)))"

record system =
  srv :: server
  workers :: "worker_pc list"
  updating :: updater_at

inductive sys_step :: "system \<Rightarrow> system \<Rightarrow> bool" where
  working: "i < length (workers c) \<Longrightarrow> worker_step (int i) (workers c ! i) (srv c) = Inr (Some (pc, s)) \<Longrightarrow>
    sys_step c (c\<lparr>srv := s, workers := (workers c)[i := pc]\<rparr>)"
| receiving: "receive now m (srv c) = Inr (goes_on, s) \<Longrightarrow> sys_step c (c\<lparr>srv := s\<rparr>)"
| updates: "update_step (updating c) (srv c) = Inr (u, s) \<Longrightarrow> sys_step c (c\<lparr>srv := s, updating := u\<rparr>)"
| ticking: "sys_step c (c\<lparr>srv := tick (srv c)\<rparr>)"
| shutting: "request_shutdown_from_thread code (srv c) = Inr s \<Longrightarrow> sys_step c (c\<lparr>srv := s\<rparr>)"
| signalled: "stop_on_signal (srv c) = Inr s \<Longrightarrow> sys_step c (c\<lparr>srv := s\<rparr>)"
| flagging: "sys_step c (c\<lparr>srv := (srv c)\<lparr>server_must_stop := True\<rparr>\<rparr>)"

text \<open>A server that has just been set up, and what it reaches.\<close>

definition set_up :: "server \<Rightarrow> bool" where
  "set_up s \<longleftrightarrow> emg_brk s = 0 \<and> slots s = replicate WORKER_THREADS_NUMBER None
     \<and> lq_items (emergency_queue s) = [] \<and> lq_items (completed_emergencies s) = [] \<and> lq_items (canceled_emergencies s) = []
     \<and> lq_inv (emergency_queue s) \<and> lq_inv (completed_emergencies s) \<and> lq_inv (canceled_emergencies s)
     \<and> \<not> lq_closed (emergency_queue s) \<and> \<not> lq_closed (completed_emergencies s) \<and> \<not> lq_closed (canceled_emergencies s)
     \<and> \<not> rescuers_mutex s \<and> \<not> emergencies_mutex s \<and> \<not> server_must_stop s"

definition system_start :: "server \<Rightarrow> system" where
  "system_start s = \<lparr>srv = s, workers = replicate WORKER_THREADS_NUMBER Looping, updating = At_Tick\<rparr>"

inductive reached_from :: "server \<Rightarrow> system \<Rightarrow> bool" for s0 where
  start: "reached_from s0 (system_start s0)"
| step: "reached_from s0 c \<Longrightarrow> sys_step c c' \<Longrightarrow> reached_from s0 c'"

section \<open>Where an emergency is\<close>

fun holds :: "worker_pc \<Rightarrow> emg_ptr list" where
  "holds Looping = []"
| "holds Popping = []"
| "holds (Opening e) = [e]"
| "holds (Trying e) = [e]"
| "holds (Searching e) = [e]"
| "holds (Unserved e) = [e]"
| "holds (Waiting e) = [e]"
| "holds (Woken e) = [e]"
| "holds (Leaving e) = [e]"
| "holds Gone = []"

text \<open>While the server runs, a worker that leaves has stored its emergency.\<close>

fun owes :: "worker_pc \<Rightarrow> emg_ptr list" where
  "owes (Leaving e) = []"
| "owes pc = holds pc"

fun in_slot :: "worker_pc \<Rightarrow> emg_ptr option \<Rightarrow> bool" where
  "in_slot Looping c \<longleftrightarrow> c = None"
| "in_slot Popping c \<longleftrightarrow> c = None"
| "in_slot (Opening e) c \<longleftrightarrow> c = None"
| "in_slot (Leaving e) c \<longleftrightarrow> c = None \<or> c = Some e"
| "in_slot Gone c \<longleftrightarrow> c = None"
| "in_slot pc c \<longleftrightarrow> c = Some (hd (holds pc))"

fun carried :: "updater_at \<Rightarrow> emg_ptr list" where
  "carried (Expired e) = [e]"
| "carried (To_Promote e) = [e]"
| "carried _ = []"

definition waiting :: "server \<Rightarrow> emg_ptr multiset" where
  "waiting s = mset (lq_items (emergency_queue s))"

definition stored :: "server \<Rightarrow> emg_ptr multiset" where
  "stored s = mset (lq_items (completed_emergencies s)) + mset (lq_items (canceled_emergencies s))"

definition canceled :: "server \<Rightarrow> emg_ptr multiset" where
  "canceled s = mset (lq_items (canceled_emergencies s))"

text \<open>The final queues only grow.\<close>

definition grows :: "server \<Rightarrow> server \<Rightarrow> bool" where
  "grows s s' \<longleftrightarrow> stored s \<subseteq># stored s' \<and> canceled s \<subseteq># canceled s'"

lemma grows_simps [simp]: "grows s s"
  by (simp add: grows_def)

definition in_work :: "(worker_pc \<Rightarrow> emg_ptr list) \<Rightarrow> system \<Rightarrow> emg_ptr multiset" where
  "in_work f c = mset (concat (map f (workers c))) + mset (carried (updating c))"

definition settled :: "server \<Rightarrow> emg_ptr \<Rightarrow> bool" where
  "settled s e \<longleftrightarrow> status (emg_at s e) = PAUSED \<or> status (emg_at s e) = COMPLETED"

definition woken_ok :: "worker_pc \<Rightarrow> server \<Rightarrow> bool" where
  "woken_ok pc s \<longleftrightarrow> server_must_stop s \<or> (\<forall>e. pc = Woken e \<longrightarrow> settled s e)"

text \<open>What every operation keeps of the state of the server.\<close>

definition base_inv :: "server \<Rightarrow> bool" where
  "base_inv s \<longleftrightarrow> length (slots s) = WORKER_THREADS_NUMBER \<and> \<not> rescuers_mutex s \<and> \<not> emergencies_mutex s
     \<and> lq_inv (emergency_queue s) \<and> lq_inv (completed_emergencies s) \<and> lq_inv (canceled_emergencies s)
     \<and> \<not> lq_closed (completed_emergencies s) \<and> \<not> lq_closed (canceled_emergencies s)
     \<and> (lq_closed (emergency_queue s) \<longrightarrow> server_must_stop s)"

definition system_inv :: "system \<Rightarrow> bool" where
  "system_inv c \<longleftrightarrow> base_inv (srv c) \<and> length (workers c) = WORKER_THREADS_NUMBER
     \<and> waiting (srv c) + in_work holds c \<subseteq># mset [0..<emg_brk (srv c)]
     \<and> (\<forall>i < WORKER_THREADS_NUMBER. in_slot (workers c ! i) (slots (srv c) ! i) \<and> woken_ok (workers c ! i) (srv c))
     \<and> (\<not> server_must_stop (srv c) \<longrightarrow>
          waiting (srv c) + in_work owes c + stored (srv c) = mset [0..<emg_brk (srv c)])"

section \<open>What a step does to the places\<close>

lemma lq_extract_places:
  assumes "lq_extract q P = (r, q')" and "lq_inv q"
  shows "lq_inv q'" "lq_closed q' = lq_closed q"
    "mset (lq_items q) = mset (case r of None \<Rightarrow> [] | Some e \<Rightarrow> [e]) + mset (lq_items q')"
proof -
  obtain r1 q1 where x: "lq_extract q P = (r1, q1)" "lq_inv q1" "lq_closed q1 = lq_closed q"
    "r1 = (if filter P (lq_items q) = [] then None else Some (hd (filter P (lq_items q))))"
    "lq_items q1 = remove_first P (lq_items q)"
    by (rule lq_extract_total [OF assms(2)])
  then have e: "r = r1" "q' = q1" using assms(1) by simp_all
  show "lq_inv q'" "lq_closed q' = lq_closed q" using x e by simp_all
  show "mset (lq_items q) = mset (case r of None \<Rightarrow> [] | Some e \<Rightarrow> [e]) + mset (lq_items q')"
  proof (cases "filter P (lq_items q)")
    case Nil
    then show ?thesis using x(4,5) e remove_first_none [OF Nil] by simp
  next
    case (Cons a as)
    then show ?thesis using x(4,5) e mset_remove_first [OF Cons] by simp
  qed
qed

lemma lq_push_places:
  assumes "lq_inv q"
  shows "lq_inv (lq_push q x p)" "lq_closed (lq_push q x p) = lq_closed q"
    "mset (lq_items (lq_push q x p)) = (if lq_closed q then mset (lq_items q) else add_mset x (mset (lq_items q)))"
  using lq_push_items(1,2) [OF assms] lq_push_mset [OF assms] by (auto simp: lq_push_def)

lemma lq_pop_places:
  assumes "lq_pop q = Some (r, q')" and "lq_inv q"
  shows "lq_inv q'" "lq_closed q' = lq_closed q" "r = None \<Longrightarrow> q' = q"
    "mset (lq_items q) = mset (case r of None \<Rightarrow> [] | Some e \<Rightarrow> [e]) + mset (lq_items q')"
proof -
  have x: "lq_extract q (\<lambda>_. True) = (r, q')"
    using assms(1) by (auto simp: lq_pop_def lq_extract_def split: option.splits if_splits)
  from lq_extract_places [OF this assms(2)] show "lq_inv q'" "lq_closed q' = lq_closed q"
    "mset (lq_items q) = mset (case r of None \<Rightarrow> [] | Some e \<Rightarrow> [e]) + mset (lq_items q')" .
  show "q' = q" if "r = None" using assms(1) that by (auto simp: lq_pop_def split: option.splits if_splits)
qed

lemma lq_close_places [simp]: "lq_items (lq_close q) = lq_items q" "lq_inv (lq_close q) = lq_inv q" "lq_closed (lq_close q)"
  by (simp_all add: lq_close_def lq_inv_def)

lemma mset_concat_update:
  "i < length xs \<Longrightarrow> mset (concat (map f (xs[i := y]))) + mset (f (xs ! i)) = mset (concat (map f xs)) + mset (f y)"
proof (induction xs arbitrary: i)
  case (Cons x xs)
  then show ?case by (cases i) (auto simp: ac_simps)
qed simp

text \<open>
  The effect of a step of worker \<open>i\<close>: it moves its emergency between the queue, its hands and the
  final queues, and touches only its own slot and the status of the emergency it holds.
\<close>

definition worker_effect :: "nat \<Rightarrow> worker_pc \<Rightarrow> server \<Rightarrow> worker_pc \<Rightarrow> server \<Rightarrow> bool" where
  "worker_effect i pc s pc' s' \<longleftrightarrow> base_inv s' \<and> emg_brk s' = emg_brk s \<and> server_must_stop s' = server_must_stop s
     \<and> waiting s' + mset (holds pc') \<subseteq># waiting s + mset (holds pc)
     \<and> (\<not> server_must_stop s \<longrightarrow>
          waiting s' + mset (owes pc') + stored s' = waiting s + mset (owes pc) + stored s)
     \<and> (\<exists>c. slots s' = (slots s)[i := c] \<and> in_slot pc' c) \<and> grows s s'
     \<and> (\<forall>e. pc \<noteq> Opening e \<and> pc \<noteq> Unserved e \<and> pc \<noteq> Leaving e \<longrightarrow>
          status_kept (status (emg_at s e)) (status (emg_at s' e)))
     \<and> (\<forall>e. pc = Unserved e \<longrightarrow> e \<in># canceled s') \<and> woken_ok pc' s'"

lemma push_final_simps [simp]:
  "slots (push_final q e l s) = slots s" "emg_brk (push_final q e l s) = emg_brk s"
  "server_must_stop (push_final q e l s) = server_must_stop s" "emg_at (push_final q e l s) = emg_at s"
  "emergency_queue (push_final q e l s) = emergency_queue s"
  "rescuers_mutex (push_final q e l s) = rescuers_mutex s" "emergencies_mutex (push_final q e l s) = emergencies_mutex s"
  by (simp_all add: push_final_def split: final_queue.splits)

lemma set_emg_simps [simp]:
  "slots (set_emg e v s) = slots s"
  "server_must_stop (set_emg e v s) = server_must_stop s"
  "emergency_queue (set_emg e v s) = emergency_queue s"
  "completed_emergencies (set_emg e v s) = completed_emergencies s" "canceled_emergencies (set_emg e v s) = canceled_emergencies s"
  "rescuers_mutex (set_emg e v s) = rescuers_mutex s" "emergencies_mutex (set_emg e v s) = emergencies_mutex s"
  by (simp_all add: set_emg_def)

lemma base_inv_set_emg [simp]: "base_inv (set_emg e v s) = base_inv s"
  by (simp add: base_inv_def)

lemma base_inv_slots [simp]: "base_inv (s\<lparr>slots := (slots s)[i := c]\<rparr>) = base_inv s"
  by (simp add: base_inv_def)

lemma push_final_base:
  assumes "base_inv s"
  shows "base_inv (push_final q e l s)" "stored (push_final q e l s) = add_mset e (stored s)"
    "canceled (push_final q e l s) = (case q of Canceled_Queue \<Rightarrow> add_mset e (canceled s) | Completed_Queue \<Rightarrow> canceled s)"
  using assms by (simp_all add: base_inv_def push_final_def stored_def canceled_def lq_push_places split: final_queue.splits)

lemma places_frame [simp]:
  "waiting (set_emg e v s) = waiting s" "stored (set_emg e v s) = stored s"
  "waiting (s\<lparr>slots := sl\<rparr>) = waiting s" "stored (s\<lparr>slots := sl\<rparr>) = stored s"
  "waiting (push_final q e l s) = waiting s"
  "canceled (set_emg e v s) = canceled s" "canceled (s\<lparr>slots := sl\<rparr>) = canceled s"
  "grows s (set_emg e v s)" "grows s (s\<lparr>slots := sl\<rparr>)"
  by (simp_all add: waiting_def stored_def grows_def canceled_def)

lemma grows_cong:
  "completed_emergencies s' = completed_emergencies s \<Longrightarrow> canceled_emergencies s' = canceled_emergencies s \<Longrightarrow> grows s s'"
  by (simp add: grows_def stored_def canceled_def)

lemma quiet_base:
  assumes "quiet s s'"
  shows "base_inv s' = base_inv s" "waiting s' = waiting s" "stored s' = stored s"
    "emg_brk s' = emg_brk s" "server_must_stop s' = server_must_stop s" "slots s' = slots s"
    "\<And>e. status_kept (status (emg_at s e)) (status (emg_at s' e))"
    "\<And>e. settled s e \<Longrightarrow> settled s' e" "grows s s'"
  using assms by (auto simp: quiet_def base_inv_def waiting_def stored_def settled_def status_kept_def grows_def canceled_def)

lemma status_kept_settled: "status_kept (status (emg_at s e)) (status (emg_at s' e)) \<Longrightarrow> settled s e \<Longrightarrow> settled s' e"
  by (auto simp: settled_def status_kept_def)

lemma stored_step_effect:
  assumes "base_inv s" and "i < WORKER_THREADS_NUMBER"
  shows "\<exists>s'. change_status_store_close (int i) (Some e) news (Some q) s = Inr s'
    \<and> base_inv s' \<and> emg_brk s' = emg_brk s \<and> server_must_stop s' = server_must_stop s \<and> waiting s' = waiting s
    \<and> stored s' = add_mset e (stored s) \<and> slots s' = (slots s)[i := None]
    \<and> grows s s' \<and> (q = Canceled_Queue \<longrightarrow> e \<in># canceled s')
    \<and> status (emg_at s' e) = news \<and> (\<forall>x. x \<noteq> e \<longrightarrow> emg_at s' x = emg_at s x)"
proof -
  have "\<not> emergencies_mutex s" "i < length (slots s)" using assms by (simp_all add: base_inv_def)
  then have "change_status_store_close (int i) (Some e) news (Some q) s
    = Inr (push_final q e (the_level (priority (emg_at s e)))
        (set_emg e ((emg_at s e)\<lparr>status := news\<rparr>) (s\<lparr>slots := (slots s)[i := None]\<rparr>)))"
    using change_status_eq [of s "int i" e news q] by simp
  moreover have "base_inv (set_emg e ((emg_at s e)\<lparr>status := news\<rparr>) (s\<lparr>slots := (slots s)[i := None]\<rparr>))"
    using assms(1) by simp
  note pf = push_final_base [OF this, of q e "the_level (priority (emg_at s e))"]
  ultimately show ?thesis using pf by (simp add: grows_def split: final_queue.splits)
qed
lemma worker_effect:
  assumes "base_inv s" and "i < WORKER_THREADS_NUMBER" and "in_slot pc (slots s ! i)" and "woken_ok pc s"
    and "worker_step (int i) pc s = Inr (Some (pc', s'))"
  shows "worker_effect i pc s pc' s'"
proof -
  have mx: "\<not> rescuers_mutex s" "\<not> emergencies_mutex s" and len: "i < length (slots s)" and qi: "lq_inv (emergency_queue s)"
    using assms(1,2) by (simp_all add: base_inv_def)
  have same: "\<exists>c. slots s = (slots s)[i := c] \<and> in_slot pc' c" if "in_slot pc' (slots s ! i)"
    using that by (intro exI [of _ "slots s ! i"]) simp
  show ?thesis
  proof (cases pc)
    case Looping
    then show ?thesis using assms(1,3,5) same by (auto simp: worker_effect_def woken_ok_def split: if_splits)
  next
    case Popping
    from assms(5) Popping obtain r q where pop: "lq_pop (emergency_queue s) = Some (r, q)"
      and s': "s' = s\<lparr>emergency_queue := q\<rparr>" and pc': "pc' = (case r of None \<Rightarrow> Gone | Some e \<Rightarrow> Opening e)"
      by (auto split: option.splits)
    note p = lq_pop_places [OF pop qi]
    have "base_inv s'" using assms(1) p(1,2) unfolding s' base_inv_def by simp
    moreover have "mset (holds pc') = mset (case r of None \<Rightarrow> [] | Some e \<Rightarrow> [e])" "owes pc' = holds pc'"
      unfolding pc' by (auto split: option.splits)
    moreover have "in_slot pc' (slots s ! i)" "\<And>e. pc' \<noteq> Woken e" using assms(3) Popping unfolding pc' by (auto split: option.splits)
    ultimately show ?thesis using p(4) same Popping unfolding worker_effect_def
      by (auto simp: s' waiting_def stored_def woken_ok_def ac_simps intro: grows_cong)
  next
    case (Opening e)
    have "open_slot (int i) e s = Inr (set_emg e ((emg_at s e)\<lparr>status := ASSIGNED\<rparr>) (s\<lparr>slots := (slots s)[i := Some e]\<rparr>))"
      using open_slot_eq [of s "int i" e] mx len by simp
    then have "pc' = Trying e" "s' = set_emg e ((emg_at s e)\<lparr>status := ASSIGNED\<rparr>) (s\<lparr>slots := (slots s)[i := Some e]\<rparr>)"
      using assms(5) Opening by simp_all
    then show ?thesis using assms(1) Opening by (auto simp: worker_effect_def woken_ok_def intro: grows_cong)
  next
    case (Trying e)
    then show ?thesis using assms(1,3,5) same by (auto simp: worker_effect_def woken_ok_def split: if_splits)
  next
    case (Searching e)
    then obtain found where fr: "find_rescuers e s = Inr (found, s')" and pc': "pc' = (if \<not> found then Unserved e else Waiting e)"
      using assms(5) by (auto simp: rbind_eq_Inr)
    note q = quiet_base [OF find_rescuers_quiet [OF fr]]
    have "in_slot pc' (slots s ! i)" using assms(3) Searching pc' by simp
    then show ?thesis using assms(1) q same Searching pc' by (auto simp: worker_effect_def woken_ok_def)
  next
    case (Unserved e)
    from stored_step_effect [OF assms(1,2)] obtain s1 where s1:
      "change_status_store_close (int i) (Some e) TIMEOUT (Some Canceled_Queue) s = Inr s1"
      "base_inv s1" "emg_brk s1 = emg_brk s" "server_must_stop s1 = server_must_stop s" "waiting s1 = waiting s"
      "stored s1 = add_mset e (stored s)" "slots s1 = (slots s)[i := None]" "grows s s1" "e \<in># canceled s1" "\<forall>x. x \<noteq> e \<longrightarrow> emg_at s1 x = emg_at s x" by blast
    then have "s' = s1" "pc' = Leaving e" using assms(5) Unserved by simp_all
    then show ?thesis using s1 Unserved by (auto simp: worker_effect_def woken_ok_def)
  next
    case (Waiting e)
    have "unlock_emergencies (s\<lparr>emergencies_mutex := True\<rparr>) = s"
      using mx by (intro server.equality) (simp_all add: unlock_emergencies_def)
    then have s': "s' = s" "pc' = Woken e" "wait_over (s\<lparr>emergencies_mutex := True\<rparr>) e"
      using assms(5) Waiting mx by (auto simp: rbind_eq_Inr lock_emergencies_def split: if_splits)
    then have "woken_ok pc' s" by (auto simp: woken_ok_def wait_over_def settled_def)
    then show ?thesis using assms(1,3) same s' Waiting by (auto simp: worker_effect_def)
  next
    case (Woken e)
    have slot: "slots s ! i = Some e" using assms(3) Woken by simp
    show ?thesis
    proof (cases "server_must_stop s")
      case True
      then show ?thesis using assms(1,3,5) same Woken slot by (auto simp: worker_effect_def woken_ok_def)
    next
      case False
      then have st: "status (emg_at s e) = PAUSED \<or> status (emg_at s e) = COMPLETED"
        using assms(4) Woken by (simp add: woken_ok_def settled_def)
      show ?thesis
      proof (cases "status (emg_at s e) = PAUSED")
        case True
        then show ?thesis using assms(1,3,5) same Woken slot False by (auto simp: worker_effect_def woken_ok_def)
      next
        case c: False
        then have c: "status (emg_at s e) = COMPLETED" using st by blast
        from stored_step_effect [OF assms(1,2)] obtain s1 where s1:
          "change_status_store_close (int i) (Some e) COMPLETED (Some Completed_Queue) s = Inr s1"
          "base_inv s1" "emg_brk s1 = emg_brk s" "server_must_stop s1 = server_must_stop s" "waiting s1 = waiting s"
          "stored s1 = add_mset e (stored s)" "slots s1 = (slots s)[i := None]" "grows s s1" "status (emg_at s1 e) = COMPLETED"
          "\<forall>x. x \<noteq> e \<longrightarrow> emg_at s1 x = emg_at s x" by blast
        then have e: "s' = s1" "pc' = Leaving e" using assms(5) Woken False c by simp_all
        have "status_kept (status (emg_at s x)) (status (emg_at s1 x))" for x using s1(9,10) c by (cases "x = e") simp_all
        then show ?thesis using e s1 Woken by (auto simp: worker_effect_def woken_ok_def)
      qed
    qed
  next
    case (Leaving e)
    show ?thesis
    proof (cases "server_must_stop s")
      case False
      have "close_slot (int i) s = Inr (s\<lparr>slots := (slots s)[i := None]\<rparr>)" using close_slot_eq [of s "int i"] mx len by simp
      then have "s' = s\<lparr>slots := (slots s)[i := None]\<rparr>" "pc' = Looping" using assms(5) Leaving False by simp_all
      then show ?thesis using assms(1) Leaving by (auto simp: worker_effect_def woken_ok_def)
    next
      case True
      from stored_step_effect [OF assms(1,2)] obtain s1 where s1:
        "change_status_store_close (int i) (Some e) CANCELED (Some Canceled_Queue) s = Inr s1"
        "base_inv s1" "emg_brk s1 = emg_brk s" "server_must_stop s1 = server_must_stop s" "waiting s1 = waiting s"
        "stored s1 = add_mset e (stored s)" "slots s1 = (slots s)[i := None]" "grows s s1" "\<forall>x. x \<noteq> e \<longrightarrow> emg_at s1 x = emg_at s x" by blast
      have "close_slot (int i) s1 = Inr (s1\<lparr>slots := (slots s1)[i := None]\<rparr>)"
        using close_slot_eq [of s1 "int i"] s1(2) assms(2) by (simp add: base_inv_def)
      moreover have "grows s (s1\<lparr>slots := (slots s1)[i := None]\<rparr>)" using s1(8) by (simp add: grows_def)
      ultimately have "s' = s1\<lparr>slots := (slots s1)[i := None]\<rparr>" "pc' = Gone" "grows s s'" using assms(5) Leaving True s1(1) by simp_all
      moreover have "base_inv (s1\<lparr>slots := (slots s1)[i := None]\<rparr>)" using s1(2) by (simp only: base_inv_slots)
      ultimately show ?thesis using s1 Leaving True by (auto simp: worker_effect_def woken_ok_def)
    qed
  next
    case Gone
    then show ?thesis using assms(5) by simp
  qed
qed

section \<open>The invariant\<close>

lemma in_work_update:
  assumes "i < length (workers c)"
  shows "in_work f (c\<lparr>srv := s, workers := (workers c)[i := pc]\<rparr>) + mset (f (workers c ! i)) = in_work f c + mset (f pc)"
  using mset_concat_update [OF assms, of f pc] by (simp add: in_work_def ac_simps)

lemma in_work_frame [simp]: "in_work f (c\<lparr>srv := s\<rparr>) = in_work f c"
  by (simp add: in_work_def)

text \<open>An emergency in the hands of one worker is in no other worker's hands.\<close>

lemma held_once:
  assumes "waiting s + in_work holds c \<subseteq># mset [0..<n]" and "i < length (workers c)" "j < length (workers c)" "i \<noteq> j"
    and "e \<in> set (holds (workers c ! i))"
  shows "e \<notin> set (holds (workers c ! j))"
proof
  assume ej: "e \<in> set (holds (workers c ! j))"
  let ?w = "workers c"
  have sub: "mset (concat (map holds ?w)) \<subseteq># mset [0..<n]"
    using assms(1) unfolding in_work_def by (metis mset_subset_eq_add_left mset_subset_eq_add_right subset_mset.order_trans)
  have "count (mset (concat (map holds ?w))) e \<le> count (mset [0..<n]) e" using sub by (simp add: mset_subset_eq_count)
  also have "\<dots> \<le> 1" using distinct_count_atmost_1 [of "[0..<n]"] by (auto simp: count_mset_0_iff split: if_splits)
  finally have le: "count (mset (concat (map holds ?w))) e \<le> 1" .
  have split: "mset (concat (map holds (?w[i := Looping]))) + mset (holds (?w ! i)) = mset (concat (map holds ?w))"
    using mset_concat_update [OF assms(2), of holds Looping] by simp
  have "e \<in> set (concat (map holds (?w[i := Looping])))"
    using assms(3,4) ej by (force simp: in_set_conv_nth)
  then have "0 < count (mset (concat (map holds (?w[i := Looping])))) e" by (simp add: count_greater_zero_iff)
  moreover have "0 < count (mset (holds (?w ! i))) e" using assms(5) by (simp add: count_greater_zero_iff)
  ultimately have "2 \<le> count (mset (concat (map holds ?w))) e" unfolding split [symmetric] count_union by linarith
  with le show False by simp
qed

lemma working_inv:
  assumes inv: "system_inv c" and i: "i < length (workers c)"
    and st: "worker_step (int i) (workers c ! i) (srv c) = Inr (Some (pc, s))"
  shows "system_inv (c\<lparr>srv := s, workers := (workers c)[i := pc]\<rparr>)"
proof -
  note I = inv [unfolded system_inv_def]
  let ?c = "c\<lparr>srv := s, workers := (workers c)[i := pc]\<rparr>"
  have len: "length (workers c) = WORKER_THREADS_NUMBER" and iW: "i < WORKER_THREADS_NUMBER" using I i by auto
  have "worker_effect i (workers c ! i) (srv c) pc s"
    using worker_effect [OF _ iW _ _ st] I iW by blast
  note E = this [unfolded worker_effect_def]
  obtain cell where cell: "slots s = (slots (srv c))[i := cell]" "in_slot pc cell" using E by blast
  have sl: "length (slots (srv c)) = WORKER_THREADS_NUMBER" using I by (simp add: base_inv_def)
  have sub: "waiting s + in_work holds ?c \<subseteq># mset [0..<emg_brk s]"
  proof -
    have "waiting s + in_work holds ?c + mset (holds (workers c ! i)) = (waiting s + mset (holds pc)) + in_work holds c"
      using in_work_update [OF i, of holds pc s] by (simp add: ac_simps)
    also have "\<dots> \<subseteq># (waiting (srv c) + mset (holds (workers c ! i))) + in_work holds c"
      using E by (intro subset_mset.add_right_mono) blast
    also have "\<dots> = (waiting (srv c) + in_work holds c) + mset (holds (workers c ! i))" by (simp add: ac_simps)
    finally have "waiting s + in_work holds ?c \<subseteq># waiting (srv c) + in_work holds c" by simp
    then show ?thesis using I E by (metis subset_mset.order_trans)
  qed
  have each: "in_slot (workers ?c ! j) (slots s ! j) \<and> woken_ok (workers ?c ! j) s" if j: "j < WORKER_THREADS_NUMBER" for j
  proof (cases "j = i")
    case True
    then show ?thesis using cell E iW sl len by simp
  next
    case False
    have "settled s e" if w: "workers c ! j = Woken e" and ns: "\<not> server_must_stop s" for e
    proof -
      have "settled (srv c) e" using I j w ns E by (auto simp: woken_ok_def)
      moreover have "e \<in> set (holds (workers c ! j))" using w by simp
      then have not_held: "e \<notin> set (holds (workers c ! i))" using held_once [of "srv c" c "emg_brk (srv c)" j i e] I j iW len False by auto
      moreover have "workers c ! i \<noteq> Opening e" "workers c ! i \<noteq> Unserved e" "workers c ! i \<noteq> Leaving e"
        using not_held by auto
      ultimately show ?thesis using E status_kept_settled by blast
    qed
    then show ?thesis using I j False cell(1) sl len by (auto simp: woken_ok_def)
  qed
  have cons: "waiting s + in_work owes ?c + stored s = mset [0..<emg_brk s]" if ns: "\<not> server_must_stop s"
  proof -
    have "\<not> server_must_stop (srv c)" using ns E by simp
    then have e: "waiting s + mset (owes pc) + stored s = waiting (srv c) + mset (owes (workers c ! i)) + stored (srv c)"
      and t: "waiting (srv c) + in_work owes c + stored (srv c) = mset [0..<emg_brk (srv c)]" using I E by blast+
    have "waiting s + in_work owes ?c + stored s + mset (owes (workers c ! i)) = (waiting s + mset (owes pc) + stored s) + in_work owes c"
      using in_work_update [OF i, of owes pc s] by (simp add: ac_simps)
    also have "\<dots> = mset [0..<emg_brk (srv c)] + mset (owes (workers c ! i))" unfolding e t [symmetric] by (simp add: ac_simps)
    finally show ?thesis using E by simp
  qed
  show ?thesis unfolding system_inv_def using E len sub each cons by simp
qed

text \<open>
  A step of the others: \<open>k\<close> and \<open>k'\<close> are the emergencies that the updater carries before and after
  it, \<open>new\<close> those that it adds. No slot changes, and no status of an emergency in a worker's hands.
\<close>

definition outside :: "emg_ptr list \<Rightarrow> server \<Rightarrow> emg_ptr list \<Rightarrow> server \<Rightarrow> bool" where
  "outside k s k' s' \<longleftrightarrow> base_inv s' \<and> grows s s' \<and> slots s' = slots s \<and> (server_must_stop s \<longrightarrow> server_must_stop s')
     \<and> (\<exists>new. mset [0..<emg_brk s'] = mset [0..<emg_brk s] + new
          \<and> waiting s' + mset k' \<subseteq># waiting s + mset k + new
          \<and> (\<not> server_must_stop s' \<longrightarrow> waiting s' + mset k' + stored s' = waiting s + mset k + stored s + new))
     \<and> (\<forall>e < emg_brk s. e \<notin> set k \<longrightarrow> status_kept (status (emg_at s e)) (status (emg_at s' e)))"

lemma outside_quiet: "base_inv s \<Longrightarrow> quiet s s' \<Longrightarrow> outside [] s [] s'"
  using quiet_base [of s s'] by (auto simp: outside_def intro!: exI [of _ "{#}"])

lemma held_known:
  assumes "waiting s + in_work holds c \<subseteq># mset [0..<n]" and "i < length (workers c)" and "e \<in> set (holds (workers c ! i))"
  shows "e < n" "e \<notin> set (carried (updating c))"
proof -
  have e: "e \<in># mset (concat (map holds (workers c)))" using assms(2,3) by (force simp: in_set_conv_nth)
  have s: "in_work holds c \<subseteq># mset [0..<n]" using assms(1) by (metis mset_subset_eq_add_right subset_mset.order_trans)
  have "e \<in># in_work holds c" using e by (simp add: in_work_def)
  then show "e < n" using mset_subset_eqD [OF s] by fastforce
  show "e \<notin> set (carried (updating c))"
  proof
    assume "e \<in> set (carried (updating c))"
    then have "0 < count (mset (carried (updating c))) e" by (simp add: count_greater_zero_iff)
    moreover have "0 < count (mset (concat (map holds (workers c)))) e" using e by (simp only: count_greater_zero_iff)
    ultimately have "2 \<le> count (in_work holds c) e" unfolding in_work_def count_union by linarith
    also have "\<dots> \<le> count (mset [0..<n]) e" using s by (simp add: mset_subset_eq_count)
    also have "\<dots> \<le> 1" using distinct_count_atmost_1 [of "[0..<n]"] by (auto simp: count_mset_0_iff split: if_splits)
    finally show False by simp
  qed
qed

lemma outside_inv:
  assumes inv: "system_inv c" and out: "outside (carried (updating c)) (srv c) (carried u) s"
  shows "system_inv (c\<lparr>srv := s, updating := u\<rparr>)"
proof -
  note I = inv [unfolded system_inv_def] and E = out [unfolded outside_def]
  let ?c = "c\<lparr>srv := s, updating := u\<rparr>"
  have w: "in_work f ?c + mset (carried (updating c)) = in_work f c + mset (carried u)" for f
    by (simp add: in_work_def ac_simps)
  obtain new where new: "mset [0..<emg_brk s] = mset [0..<emg_brk (srv c)] + new"
    "waiting s + mset (carried u) \<subseteq># waiting (srv c) + mset (carried (updating c)) + new"
    "\<not> server_must_stop s \<longrightarrow> waiting s + mset (carried u) + stored s
      = waiting (srv c) + mset (carried (updating c)) + stored (srv c) + new" using E by blast
  have sub: "waiting s + in_work holds ?c \<subseteq># mset [0..<emg_brk s]"
  proof -
    have "waiting s + in_work holds ?c + mset (carried (updating c)) = (waiting s + mset (carried u)) + in_work holds c"
      using w [of holds] by (simp add: ac_simps)
    also have "\<dots> \<subseteq># (waiting (srv c) + mset (carried (updating c)) + new) + in_work holds c"
      using new(2) by (rule subset_mset.add_right_mono)
    also have "\<dots> = (waiting (srv c) + in_work holds c + new) + mset (carried (updating c))" by (simp add: ac_simps)
    finally have "waiting s + in_work holds ?c \<subseteq># waiting (srv c) + in_work holds c + new" by simp
    also have "\<dots> \<subseteq># mset [0..<emg_brk (srv c)] + new" using I by (intro subset_mset.add_right_mono) blast
    finally show ?thesis using new(1) by simp
  qed
  have each: "in_slot (workers c ! j) (slots s ! j) \<and> woken_ok (workers c ! j) s" if j: "j < WORKER_THREADS_NUMBER" for j
  proof -
    have "settled s e" if wk: "workers c ! j = Woken e" and ns: "\<not> server_must_stop s" for e
    proof -
      have "settled (srv c) e" using I j wk ns E by (auto simp: woken_ok_def)
      moreover have "e < emg_brk (srv c)" "e \<notin> set (carried (updating c))"
        using held_known [of "srv c" c "emg_brk (srv c)" j e] I j wk by auto
      ultimately show ?thesis using E status_kept_settled by blast
    qed
    then show ?thesis using I j E by (auto simp: woken_ok_def)
  qed
  have cons: "waiting s + in_work owes ?c + stored s = mset [0..<emg_brk s]" if ns: "\<not> server_must_stop s"
  proof -
    have "\<not> server_must_stop (srv c)" using ns E by blast
    then have t: "waiting (srv c) + in_work owes c + stored (srv c) = mset [0..<emg_brk (srv c)]" using I by blast
    have "waiting s + in_work owes ?c + stored s + mset (carried (updating c)) = (waiting s + mset (carried u) + stored s) + in_work owes c"
      using w [of owes] by (simp add: ac_simps)
    also have "\<dots> = waiting (srv c) + mset (carried (updating c)) + stored (srv c) + new + in_work owes c" using new(3) ns by simp
    also have "\<dots> = (waiting (srv c) + in_work owes c + stored (srv c)) + new + mset (carried (updating c))" by (simp add: ac_simps)
    finally show ?thesis using t new(1) by simp
  qed
  show ?thesis unfolding system_inv_def using E I sub each cons by simp
qed

lemma outside_inv_same: "system_inv c \<Longrightarrow> outside (carried (updating c)) (srv c) (carried (updating c)) s \<Longrightarrow> system_inv (c\<lparr>srv := s\<rparr>)"
  using outside_inv [of c "updating c" s] by simp

section \<open>The other threads\<close>

lemma outside_weaken: "outside [] s [] s' \<Longrightarrow> outside k s k s'"
  unfolding outside_def by (auto simp: ac_simps)

lemma receive_shape:
  assumes "receive now m s = Inr (b, s')"
  shows "(\<exists>a. s' = s\<lparr>requests_count := a\<rparr>)
    \<or> (\<exists>a v n em l. s' = ((set_emg (emg_brk s) em (s\<lparr>requests_count := a, requests_valid_count := v, emergencies_count := n\<rparr>))
        \<lparr>emg_brk := emg_brk s + 1\<rparr>)\<lparr>emergency_queue := lq_push (emergency_queue s) (emg_brk s) l\<rparr>)"
proof (cases "\<exists>a. s' = s\<lparr>requests_count := a\<rparr>")
  case False
  have "s = s\<lparr>requests_count := requests_count s\<rparr>" by simp
  with False have ne: "s' \<noteq> s" by metis
  then obtain bytes where m: "m = Some bytes" using assms by (auto simp: receive_def split: option.splits)
  from assms m ne False obtain r e s4 l where
    s4: "mallocate_emergency (emergencies_count s) (emergency_types s) r
      (s\<lparr>requests_count := requests_count s + 1, requests_valid_count := requests_valid_count s + 1,
        emergencies_count := emergencies_count s + 1\<rparr>) = Inr (e, s4)"
    and s': "s' = s4\<lparr>emergency_queue := lq_push (emergency_queue s4) e l\<rparr>"
    by (auto simp: receive_def Let_def rbind_eq_Inr split: if_splits option.splits)
  from s4 obtain em where e: "e = emg_brk s" and
    "s4 = (set_emg e em (s\<lparr>requests_count := requests_count s + 1, requests_valid_count := requests_valid_count s + 1,
        emergencies_count := emergencies_count s + 1\<rparr>))\<lparr>emg_brk := e + 1\<rparr>"
    unfolding mallocate_emergency_def by (auto simp: rbind_eq_Inr Let_def)
  then show ?thesis unfolding s'
    by (intro disjI2 exI [of _ "requests_count s + 1"] exI [of _ "requests_valid_count s + 1"]
        exI [of _ "emergencies_count s + 1"] exI [of _ em] exI [of _ l]) (simp add: set_emg_def)
qed simp

lemma receive_outside:
  assumes "base_inv s" and "receive now m s = Inr (b, s')"
  shows "outside [] s [] s'"
  using receive_shape [OF assms(2)]
proof (elim disjE exE)
  fix a assume s': "s' = s\<lparr>requests_count := a\<rparr>"
  have "quiet s s'" unfolding s' by (simp add: quiet_def)
  then show ?thesis using assms(1) by (rule outside_quiet [rotated])
next
  fix a v n em l
  let ?s0 = "s\<lparr>requests_count := a, requests_valid_count := v, emergencies_count := n\<rparr>"
  assume s': "s' = ((set_emg (emg_brk s) em ?s0)\<lparr>emg_brk := emg_brk s + 1\<rparr>)\<lparr>emergency_queue := lq_push (emergency_queue s) (emg_brk s) l\<rparr>"
  have q: "lq_inv (emergency_queue s)" using assms(1) by (simp add: base_inv_def)
  note p = lq_push_places [OF q, of "emg_brk s" l]
  have f: "slots s' = slots s" "emg_brk s' = emg_brk s + 1" "server_must_stop s' = server_must_stop s"
    "waiting s' = (if lq_closed (emergency_queue s) then waiting s else add_mset (emg_brk s) (waiting s))"
    "stored s' = stored s"
    using p(3) unfolding s' by (simp_all add: set_emg_def waiting_def stored_def)
  have "base_inv s'" using assms(1) p(1,2) unfolding s' by (simp add: base_inv_def set_emg_def)
  moreover have "lq_closed (emergency_queue s) \<longrightarrow> server_must_stop s" using assms(1) by (simp add: base_inv_def)
  moreover have "emg_at s' e = emg_at s e" if "e < emg_brk s" for e using that unfolding s' by (simp add: set_emg_def)
  moreover have "grows s s'" unfolding s' by (intro grows_cong) (simp_all add: set_emg_def)
  ultimately show ?thesis unfolding outside_def using f by (auto intro!: exI [of _ "{#emg_brk s#}"])
qed

lemma stopped_outside:
  assumes "base_inv s" and "s' = s\<lparr>server_must_stop := True, emergency_queue := q, emg_at := ea, shutting_down := d, exit_failure := x,
      clock_updated := u, stop_messages := n\<rparr>"
    and "q = emergency_queue s \<or> q = lq_close (emergency_queue s)" and "\<And>e. status (ea e) = status (emg_at s e)"
  shows "outside [] s [] s'"
  using assms unfolding outside_def
  by (auto simp: base_inv_def waiting_def stored_def intro!: exI [of _ "{#}"] grows_cong)

lemma shutdown_outside:
  assumes "base_inv s" and "request_shutdown_from_thread code s = Inr s'"
  shows "outside [] s [] s'"
proof (cases "shutting_down s")
  case True
  then have "quiet s s'" using assms(2)
    by (cases "code = 0") (auto simp: request_shutdown_from_thread_def quiet_def Let_def)
  then show ?thesis using assms(1) by (rule outside_quiet [rotated])
next
  case False
  let ?s1 = "if code \<noteq> 0 then s\<lparr>exit_failure := True\<rparr> else s"
  let ?s = "?s1\<lparr>shutting_down := True, server_must_stop := True, emergency_queue := lq_close (emergency_queue s)\<rparr>"
  have "length (slots ?s) = WORKER_THREADS_NUMBER" "\<not> emergencies_mutex ?s" using assms(1) by (simp_all add: base_inv_def)
  from wake_everyone_now_correct [OF this] obtain ea where
    ea: "wake_everyone_now ?s = Inr (?s\<lparr>clock_updated := clock_updated ?s + 1, emg_at := ea\<rparr>)"
    and k: "\<And>e. \<exists>k. ea e = (emg_at ?s e)\<lparr>cond := cond (emg_at ?s e) + k\<rparr>" by blast
  have st: "status (ea e) = status (emg_at s e)" for e using k [of e] by auto
  have "s' = ?s\<lparr>clock_updated := clock_updated s + 1, emg_at := ea, stop_messages := stop_messages s + 1\<rparr>"
    using assms(2) ea False by (cases "code = 0") (simp_all add: request_shutdown_from_thread_def)
  also have "\<dots> = s\<lparr>server_must_stop := True, emergency_queue := lq_close (emergency_queue s), emg_at := ea, shutting_down := True,
      exit_failure := exit_failure ?s1, clock_updated := clock_updated s + 1, stop_messages := stop_messages s + 1\<rparr>"
    by (intro server.equality) simp_all
  finally show ?thesis by (rule stopped_outside [OF assms(1)]) (simp_all add: st)
qed

lemma signal_outside:
  assumes "base_inv s" and "stop_on_signal s = Inr s'"
  shows "outside [] s [] s'"
proof -
  let ?s0 = "s\<lparr>server_must_stop := True, stop_messages := stop_messages s + 1, emergency_queue := lq_close (emergency_queue s)\<rparr>"
  have "stop_on_signal s = wake_everyone_now ?s0"
    by (simp add: stop_on_signal_def wake_everyone_now_def Let_def)
  have "length (slots ?s0) = WORKER_THREADS_NUMBER" "\<not> emergencies_mutex ?s0" using assms(1) by (simp_all add: base_inv_def)
  from wake_everyone_now_correct [OF this] obtain ea where
    ea: "wake_everyone_now ?s0 = Inr (?s0\<lparr>clock_updated := clock_updated ?s0 + 1, emg_at := ea\<rparr>)"
    and k: "\<And>e. \<exists>k. ea e = (emg_at ?s0 e)\<lparr>cond := cond (emg_at ?s0 e) + k\<rparr>" by blast
  have st: "status (ea e) = status (emg_at s e)" for e using k [of e] by auto
  have "s' = ?s0\<lparr>clock_updated := clock_updated s + 1, emg_at := ea\<rparr>"
    using assms(2) ea \<open>stop_on_signal s = wake_everyone_now ?s0\<close> by simp
  also have "\<dots> = s\<lparr>server_must_stop := True, emergency_queue := lq_close (emergency_queue s), emg_at := ea, shutting_down := shutting_down s,
      exit_failure := exit_failure s, clock_updated := clock_updated s + 1, stop_messages := stop_messages s + 1\<rparr>"
    by (intro server.equality) simp_all
  finally show ?thesis by (rule stopped_outside [OF assms(1)]) (simp_all add: st)
qed

lemma fold_quiet: "(\<And>e s. quiet s (f e s)) \<Longrightarrow> quiet s (fold f es s)"
  by (induction es arbitrary: s) (auto intro: quiet_trans)

lemma extract_outside:
  assumes "base_inv s" and "lq_extract (emergency_queue s) P = (r, q)"
  shows "outside [] s (case r of None \<Rightarrow> [] | Some e \<Rightarrow> [e]) (s\<lparr>emergency_queue := q\<rparr>)"
proof -
  note p = lq_extract_places [OF assms(2)]
  have "lq_inv (emergency_queue s)" using assms(1) by (simp add: base_inv_def)
  note p = lq_extract_places [OF assms(2) this]
  have "base_inv (s\<lparr>emergency_queue := q\<rparr>)" using assms(1) p(1,2) by (simp add: base_inv_def)
  then show ?thesis using p(3) unfolding outside_def
    by (auto simp: waiting_def stored_def ac_simps intro!: exI [of _ "{#}"] grows_cong)
qed

lemma update_outside:
  assumes "base_inv s" and "update_step u s = Inr (u', s')"
  shows "outside (carried u) s (carried u') s'"
proof (cases u)
  case At_Tick
  then obtain s1 s2 s3 where s: "lock_system s = Inr s1" "update_rescuers_states s1 = Inr s2"
    "update_active_emergencies_states s2 = Inr s3" "u' = At_Waiting" "s' = unlock_system s3"
    using assms(2) by (auto simp: rbind_eq_Inr)
  have "emergencies_mutex s1" using s(1) by (auto simp: lock_system_iff)
  then have "quiet s1 s3" using update_rescuers_quiet [OF _ s(2)] update_active_quiet [OF s(3)] quiet_trans by blast
  then have "quiet s s'" unfolding s(5) by (rule quiet_locked [OF s(1)])
  then show ?thesis using outside_quiet [OF assms(1)] At_Tick s(4) by simp
next
  case At_Waiting
  have "quiet s (update_waiting_emergencies_states s)" unfolding update_waiting_emergencies_states_def
    by (rule fold_quiet) (auto simp: update_waiting_emergency_state aged_def Let_def intro!: quiet_set_emg)
  then show ?thesis using assms At_Waiting outside_quiet by auto
next
  case At_Expired
  obtain r q where x: "lq_extract (emergency_queue s) (emergency_has_expired s) = (r, q)" by (cases "lq_extract (emergency_queue s) (emergency_has_expired s)")
  show ?thesis using assms(2) extract_outside [OF assms(1) x] x At_Expired by (cases r) auto
next
  case (Expired e)
  have c: "lq_inv (canceled_emergencies s)" "\<not> lq_closed (canceled_emergencies s)" using assms(1) by (simp_all add: base_inv_def)
  obtain l where s': "u' = At_Expired"
    "s' = (set_emg e ((emg_at s e)\<lparr>status := TIMEOUT\<rparr>) s)\<lparr>canceled_emergencies := lq_push (canceled_emergencies s) e l\<rparr>"
    using assms(2) Expired by (auto simp: rbind_eq_Inr Let_def)
  show ?thesis unfolding outside_def Expired s' using assms(1) lq_push_places [OF c(1)] c(2)
    by (auto simp: base_inv_def waiting_def stored_def set_emg_def grows_def canceled_def intro!: exI [of _ "{#}"])
next
  case At_Promotion
  obtain r q where x: "lq_extract (emergency_queue s) (emergency_is_to_promote s) = (r, q)" by (cases "lq_extract (emergency_queue s) (emergency_is_to_promote s)")
  show ?thesis using assms(2) extract_outside [OF assms(1) x] x At_Promotion by (cases r) auto
next
  case (To_Promote e)
  have c: "lq_inv (emergency_queue s)" using assms(1) by (simp add: base_inv_def)
  obtain l where s': "u' = At_Promotion"
    "s' = (set_emg e (promoted (emg_at s e)) s)\<lparr>emergency_queue := lq_push (emergency_queue s) e l\<rparr>"
    using assms(2) To_Promote by (auto simp: rbind_eq_Inr Let_def)
  show ?thesis unfolding outside_def To_Promote s' using assms(1) lq_push_places [OF c]
    by (auto simp: base_inv_def waiting_def stored_def set_emg_def grows_def canceled_def intro!: exI [of _ "{#}"])
qed

lemma sys_step_inv:
  assumes "sys_step c c'" and "system_inv c"
  shows "system_inv c'"
  using assms
proof (cases rule: sys_step.cases)
  case (working i pc s)
  then show ?thesis using working_inv [OF assms(2)] by simp
next
  case (receiving now m b s)
  have "base_inv (srv c)" using assms(2) by (simp add: system_inv_def)
  then show ?thesis using outside_inv_same [OF assms(2)] outside_weaken receive_outside receiving by blast
next
  case (updates u s)
  have "base_inv (srv c)" using assms(2) by (simp add: system_inv_def)
  then show ?thesis using outside_inv [OF assms(2)] update_outside updates by blast
next
  case ticking
  have "quiet (srv c) (tick (srv c))" by (simp add: quiet_def tick_def)
  moreover have "base_inv (srv c)" using assms(2) by (simp add: system_inv_def)
  ultimately show ?thesis using outside_inv_same [OF assms(2)] outside_weaken outside_quiet ticking by blast
next
  case (shutting code s)
  have "base_inv (srv c)" using assms(2) by (simp add: system_inv_def)
  then show ?thesis using outside_inv_same [OF assms(2)] outside_weaken shutdown_outside shutting by blast
next
  case (signalled s)
  have "base_inv (srv c)" using assms(2) by (simp add: system_inv_def)
  then show ?thesis using outside_inv_same [OF assms(2)] outside_weaken signal_outside signalled by blast
next
  case flagging
  have b: "base_inv (srv c)" using assms(2) by (simp add: system_inv_def)
  have "outside [] (srv c) [] ((srv c)\<lparr>server_must_stop := True\<rparr>)"
    using b by (auto simp: outside_def base_inv_def waiting_def stored_def intro!: exI [of _ "{#}"] grows_cong)
  then show ?thesis using outside_inv_same [OF assms(2)] outside_weaken flagging by blast
qed

lemma system_start_inv:
  assumes "set_up s"
  shows "system_inv (system_start s)"
proof -
  have "waiting s = {#}" "stored s = {#}" using assms by (simp_all add: set_up_def waiting_def stored_def del: set_drain)
  then show ?thesis using assms
    by (auto simp: set_up_def system_inv_def system_start_def base_inv_def in_work_def woken_ok_def)
qed

lemma reached_inv:
  assumes "set_up s0" and "reached_from s0 c"
  shows "system_inv c"
  using assms(2) by (induction rule: reached_from.induct) (use system_start_inv assms(1) sys_step_inv in blast)+

end
