(* ===== verification/System_Properties.thy ===== *)
theory System_Properties
  imports System
begin

text \<open>
  What holds of the whole server in every state that it reaches, whatever the order in which its
  threads run.
\<close>

section \<open>Paused emergencies\<close>

definition in_hand :: "emg_ptr \<Rightarrow> worker_pc \<Rightarrow> bool" where
  "in_hand e pc \<longleftrightarrow> pc = Trying e \<or> pc = Searching e \<or> pc = Unserved e \<or> pc = Waiting e \<or> pc = Woken e"

definition stuck :: "nat \<Rightarrow> emg_ptr \<Rightarrow> system \<Rightarrow> bool" where
  "stuck i e c \<longleftrightarrow> in_hand e (workers c ! i) \<and> status (emg_at (srv c) e) = PAUSED"

text \<open>Steps forward: the stop flag is never taken back, and the final queues only grow.\<close>

lemma step_forward:
  assumes inv: "system_inv c" and step: "sys_step c c'"
  shows "(server_must_stop (srv c) \<longrightarrow> server_must_stop (srv c')) \<and> canceled (srv c) \<subseteq># canceled (srv c')"
proof -
  note I = inv [unfolded system_inv_def]
  have b: "base_inv (srv c)" and len: "length (workers c) = WORKER_THREADS_NUMBER" using I by blast+
  have out: ?thesis if "outside k (srv c) k' (srv c')" for k k' using that by (simp add: outside_def grows_def)
  show ?thesis using step
  proof (cases rule: sys_step.cases)
    case (working j pc s)
    have jW: "j < WORKER_THREADS_NUMBER" using working(2) len by simp
    have "worker_effect j (workers c ! j) (srv c) pc s" using worker_effect [OF b jW _ _ working(3)] I jW by blast
    then show ?thesis using working(1) by (simp add: worker_effect_def grows_def)
  next
    case (receiving now m g s)
    then have "outside [] (srv c) [] (srv c')" using receive_outside [OF b] by simp
    then show ?thesis by (rule out)
  next
    case (updates u s)
    then have "outside (carried (updating c)) (srv c) (carried u) (srv c')" using update_outside [OF b] by simp
    then show ?thesis by (rule out)
  next
    case ticking
    have "quiet (srv c) (tick (srv c))" by (simp add: quiet_def tick_def)
    then have "outside [] (srv c) [] (srv c')" using outside_quiet [OF b] ticking by simp
    then show ?thesis by (rule out)
  next
    case (shutting code s)
    then have "outside [] (srv c) [] (srv c')" using shutdown_outside [OF b] by simp
    then show ?thesis by (rule out)
  next
    case (signalled s)
    then have "outside [] (srv c) [] (srv c')" using signal_outside [OF b] by simp
    then show ?thesis by (rule out)
  next
    case flagging
    then show ?thesis by (simp add: canceled_def)
  qed
qed

lemma stuck_worker:
  assumes "worker_step (int i) pc s = Inr (Some (pc', s'))" and "in_hand e pc" and "pc \<noteq> Unserved e"
    and "status (emg_at s e) = PAUSED" and "\<not> server_must_stop s"
  shows "in_hand e pc'"
  using assms unfolding in_hand_def by (auto simp: rbind_eq_Inr split: if_splits)

lemma stuck_step:
  assumes inv: "system_inv c" and i: "i < WORKER_THREADS_NUMBER" and st: "stuck i e c" and step: "sys_step c c'"
    and run: "\<not> server_must_stop (srv c')"
  shows "(stuck i e c' \<or> e \<in># canceled (srv c')) \<and> canceled (srv c) \<subseteq># canceled (srv c') \<and> \<not> server_must_stop (srv c)"
proof -
  note I = inv [unfolded system_inv_def]
  have b: "base_inv (srv c)" and len: "length (workers c) = WORKER_THREADS_NUMBER"
    and sub: "waiting (srv c) + in_work holds c \<subseteq># mset [0..<emg_brk (srv c)]" using I by blast+
  have p: "status (emg_at (srv c) e) = PAUSED" and h: "in_hand e (workers c ! i)" using st by (simp_all add: stuck_def)
  have he: "e \<in> set (holds (workers c ! i))" using h by (auto simp: in_hand_def)
  have out: ?thesis if o: "outside (carried (updating c)) (srv c) (carried u) s" and c': "srv c' = s" "workers c' = workers c" for u s
  proof -
    have "e < emg_brk (srv c)" "e \<notin> set (carried (updating c))" using held_known [OF sub _ he] i len by auto
    then have "status_kept PAUSED (status (emg_at s e))" using o p unfolding outside_def by metis
    then show ?thesis using o c' h run unfolding outside_def by (auto simp: stuck_def grows_def status_kept_def)
  qed
  note weak = outside_weaken [of "srv c"]
  show ?thesis using step
  proof (cases rule: sys_step.cases)
    case (working j pc s)
    have jW: "j < WORKER_THREADS_NUMBER" using working(2) len by simp
    have "worker_effect j (workers c ! j) (srv c) pc s" using worker_effect [OF b jW _ _ working(3)] I jW by blast
    note E = this [unfolded worker_effect_def]
    have grow: "canceled (srv c) \<subseteq># canceled (srv c')" "\<not> server_must_stop (srv c)"
      using E working(1) run by (auto simp: grows_def)
    show ?thesis
    proof (cases "workers c ! j = Unserved e")
      case True
      then show ?thesis using E working(1) grow by simp
    next
      case False
      have hj: "e \<notin> set (holds (workers c ! j))" if "j \<noteq> i"
        using held_once [OF sub _ _ _ he, of j] that i jW len by auto
      have "workers c ! j \<noteq> Opening e" "workers c ! j \<noteq> Leaving e"
        using hj h by (cases "j = i", auto simp: in_hand_def)+
      then have "status (emg_at s e) = PAUSED" using E False p unfolding status_kept_def by blast
      moreover have "in_hand e (workers c' ! i)"
      proof (cases "j = i")
        case True
        then have "in_hand e pc" using stuck_worker [OF working(3)] h False p grow(2) by blast
        then show ?thesis using working(1,2) True by simp
      qed (use working(1) h in simp)
      ultimately show ?thesis using working(1) grow by (simp add: stuck_def)
    qed
  next
    case (receiving now m g s)
    then show ?thesis using out [of "updating c" s] weak receive_outside [OF b] by auto
  next
    case (updates u s)
    then show ?thesis using out [of u s] update_outside [OF b] by auto
  next
    case ticking
    have "quiet (srv c) (tick (srv c))" by (simp add: quiet_def tick_def)
    then show ?thesis using out [of "updating c"] weak outside_quiet [OF b] ticking by auto
  next
    case (shutting code s)
    then show ?thesis using out [of "updating c" s] weak shutdown_outside [OF b] by auto
  next
    case (signalled s)
    then show ?thesis using out [of "updating c" s] weak signal_outside [OF b] by auto
  next
    case flagging
    then show ?thesis using run by simp
  qed
qed

section \<open>Runs\<close>

text \<open>A run that makes given choices, to be evaluated.\<close>

datatype choice = Work nat | Receive string | Update | Signal

fun perform :: "choice \<Rightarrow> system \<Rightarrow> system option" where
  "perform (Work i) c =
     (if i < length (workers c)
      then (case worker_step (int i) (workers c ! i) (srv c) of
          Inr (Some (pc, s)) \<Rightarrow> Some (c\<lparr>srv := s, workers := (workers c)[i := pc]\<rparr>) | _ \<Rightarrow> None)
      else None)"
| "perform (Receive m) c = (case receive 0 (Some m) (srv c) of Inr (_, s) \<Rightarrow> Some (c\<lparr>srv := s\<rparr>) | Inl _ \<Rightarrow> None)"
| "perform Update c = (case update_step (updating c) (srv c) of Inr (u, s) \<Rightarrow> Some (c\<lparr>srv := s, updating := u\<rparr>) | Inl _ \<Rightarrow> None)"
| "perform Signal c = (case stop_on_signal (srv c) of Inr s \<Rightarrow> Some (c\<lparr>srv := s\<rparr>) | Inl _ \<Rightarrow> None)"

fun run :: "choice list \<Rightarrow> system \<Rightarrow> system option" where
  "run [] c = Some c"
| "run (x # xs) c = Option.bind (perform x c) (run xs)"

lemma perform_step: "perform x c = Some c' \<Longrightarrow> sys_step c c'"
  by (cases x) (auto split: if_splits sum.splits option.splits intro: sys_step.intros)

lemma run_steps: "run xs c = Some c' \<Longrightarrow> sys_step\<^sup>*\<^sup>* c c'"
proof (induction xs arbitrary: c)
  case (Cons x xs)
  then obtain c1 where "perform x c = Some c1" "run xs c1 = Some c'" by (auto simp: bind_eq_Some_conv)
  then show ?case using Cons.IH perform_step converse_rtranclp_into_rtranclp by metis
qed simp

lemma reached_steps_from: "sys_step\<^sup>*\<^sup>* c c' \<Longrightarrow> reached_from s0 c \<Longrightarrow> reached_from s0 c'"
  by (induction rule: rtranclp_induct) (auto intro: reached_from.step)

text \<open>A server with the two vans of the samples at their base and nothing to do.\<close>

definition idle_server :: server where
  "idle_server = sample_server\<lparr>slots := replicate WORKER_THREADS_NUMBER None, emg_brk := 0, emergencies_count := 0,
     requests_count := 0, requests_valid_count := 0,
     twin_at := (\<lambda>t. (sample_twin 0)\<lparr>twin_id := int t\<rparr>)\<rparr>"

lemma idle_set_up: "set_up idle_server"
  by (simp add: set_up_def idle_server_def sample_server_def lq_create_def lq_inv_def drain_def)

section \<open>Properties\<close>

lemma distinct_of_submset: "mset xs \<subseteq># mset ys \<Longrightarrow> distinct ys \<Longrightarrow> distinct xs"
proof (rule distinct_count_atmost_1 [THEN iffD2], intro allI)
  fix a
  assume "mset xs \<subseteq># mset ys" "distinct ys"
  then have "count (mset xs) a \<le> (if a \<in> set ys then 1 else 0)"
    using distinct_count_atmost_1 [of ys] mset_subset_eq_count [of "mset xs" "mset ys" a] by simp
  then have le: "count (mset xs) a \<le> 1" by (rule order_trans) simp
  show "count (mset xs) a = (if a \<in> set xs then 1 else 0)"
  proof (cases "a \<in> set xs")
    case True
    then have "0 < count (mset xs) a" by simp
    then have "count (mset xs) a = 1" using le by linarith
    then show ?thesis using True by (simp only: if_True)
  next
    case False
    then show ?thesis by (simp add: count_mset_0_iff)
  qed
qed

text \<open>
  C28. Whatever the order in which the receiver, the workers, the updater, the clock and a
  shutdown run: no emergency is ever in two places, in the queue, in the hands of two workers, or
  of a worker and the updater; every worker's slot shows the emergency it works on; and until
  the server is told to stop, every emergency that was accepted is in the queue, in somebody's
  hands or in one of the two final queues, exactly once: none is lost and none is served twice.
\<close>

theorem no_emergency_lost:
  assumes "set_up s0" and "reached_from s0 c"
  shows "distinct (lq_items (emergency_queue (srv c)) @ concat (map holds (workers c)) @ carried (updating c))
    \<and> (\<forall>i < WORKER_THREADS_NUMBER. in_slot (workers c ! i) (slots (srv c) ! i))
    \<and> (\<not> server_must_stop (srv c) \<longrightarrow>
         mset (lq_items (emergency_queue (srv c)) @ concat (map owes (workers c)) @ carried (updating c)
           @ lq_items (completed_emergencies (srv c)) @ lq_items (canceled_emergencies (srv c)))
         = mset [0..<emg_brk (srv c)])"
proof -
  note I = reached_inv [OF assms, unfolded system_inv_def]
  have "mset (lq_items (emergency_queue (srv c)) @ concat (map holds (workers c)) @ carried (updating c)) \<subseteq># mset [0..<emg_brk (srv c)]"
    using I by (simp add: waiting_def in_work_def del: mset_concat mset_map)
  then have "distinct (lq_items (emergency_queue (srv c)) @ concat (map holds (workers c)) @ carried (updating c))"
    by (rule distinct_of_submset) simp
  moreover have "mset (lq_items (emergency_queue (srv c)) @ concat (map owes (workers c)) @ carried (updating c)
      @ lq_items (completed_emergencies (srv c)) @ lq_items (canceled_emergencies (srv c)))
    = waiting (srv c) + in_work owes c + stored (srv c)"
    by (simp add: waiting_def in_work_def stored_def ac_simps del: mset_concat mset_map)
  ultimately show ?thesis using I by metis
qed

text \<open>The first worker has taken the only emergency.\<close>

definition one_fire :: "choice list" where
  "one_fire = Receive (''Small 3 3 1'' @ [CHR 0x00]) # replicate 4 (Work 0)"

theorem no_emergency_lost_witness:
  "\<exists>c. run one_fire (system_start idle_server) = Some c \<and> workers c ! 0 = Searching 0 \<and> slots (srv c) ! 0 = Some 0
    \<and> distinct (concat (map holds (workers c)))"
proof -
  have "case run one_fire (system_start idle_server) of None \<Rightarrow> False | Some c \<Rightarrow> workers c ! 0 = Searching 0" by code_simp
  then obtain c where c: "run one_fire (system_start idle_server) = Some c" "workers c ! 0 = Searching 0"
    by (auto split: option.splits)
  have "reached_from idle_server c" using reached_steps_from [OF run_steps [OF c(1)] reached_from.start] .
  from no_emergency_lost [OF idle_set_up this] have "in_slot (workers c ! 0) (slots (srv c) ! 0)"
    "distinct (concat (map holds (workers c)))" by (simp_all add: WORKER_THREADS_NUMBER_def)
  then show ?thesis using c by simp
qed

lemma stuck_steps:
  assumes "sys_step\<^sup>*\<^sup>* c c'" and "system_inv c" and "i < WORKER_THREADS_NUMBER" and "stuck i e c"
    and "\<not> server_must_stop (srv c')"
  shows "system_inv c' \<and> (stuck i e c' \<or> e \<in># canceled (srv c'))"
  using assms(1,5)
proof (induction rule: rtranclp_induct)
  case (step c1 c2)
  have inv1: "system_inv c1"
    using step.hyps(1) assms(2) by (induction rule: rtranclp_induct) (auto intro: sys_step_inv)
  have inv2: "system_inv c2" using sys_step_inv [OF step.hyps(2) inv1] .
  have run1: "\<not> server_must_stop (srv c1)" "canceled (srv c1) \<subseteq># canceled (srv c2)" using step_forward [OF inv1 step.hyps(2)] step.prems by blast+
  from step.IH [OF run1(1)] show ?case
  proof (elim conjE disjE)
    assume "stuck i e c1"
    then show ?thesis using stuck_step [OF inv1 assms(3) _ step.hyps(2) step.prems] inv2 by blast
  next
    assume "e \<in># canceled (srv c1)"
    then show ?thesis using run1(2) inv2 mset_subset_eqD by metis
  qed
qed (use assms in simp)

text \<open>
  C30. An emergency that was paused, because another one took one of its rescuers, is never
  completed: as long as the server runs, the worker that holds it keeps searching for rescuers,
  finds that it may stop waiting and searches again, without ever giving it another status, until a
  search fails and it ends among the canceled ones.
\<close>

theorem paused_never_completes:
  assumes "system_inv c" and "i < WORKER_THREADS_NUMBER"
    and "in_hand e (workers c ! i)" and "status (emg_at (srv c) e) = PAUSED"
    and "sys_step\<^sup>*\<^sup>* c c'" and "\<not> server_must_stop (srv c')"
  shows "e \<notin> set (lq_items (completed_emergencies (srv c')))
    \<and> (in_hand e (workers c' ! i) \<and> status (emg_at (srv c') e) = PAUSED
       \<or> e \<in> set (lq_items (canceled_emergencies (srv c'))))"
proof -
  have "stuck i e c" using assms(3,4) by (simp add: stuck_def)
  from stuck_steps [OF assms(5,1,2) this assms(6)] have inv: "system_inv c'" and st: "stuck i e c' \<or> e \<in># canceled (srv c')" by blast+
  note I = inv [unfolded system_inv_def]
  have total: "waiting (srv c') + in_work owes c' + stored (srv c') = mset [0..<emg_brk (srv c')]" using I assms(6) by blast
  have "count (waiting (srv c') + in_work owes c' + stored (srv c')) e \<le> 1"
    unfolding total using distinct_count_atmost_1 [of "[0..<emg_brk (srv c')]"] by simp
  then have le: "count (in_work owes c') e + count (mset (lq_items (completed_emergencies (srv c')))) e + count (canceled (srv c')) e \<le> 1"
    by (simp add: stored_def canceled_def del: set_drain)
  have "0 < count (in_work owes c') e" if "stuck i e c'"
  proof -
    have "e \<in> set (owes (workers c' ! i))" using that by (auto simp: stuck_def in_hand_def)
    moreover have "i < length (workers c')" using I assms(2) by simp
    ultimately have "e \<in># mset (concat (map owes (workers c')))" by (force simp: in_set_conv_nth)
    then show ?thesis by (simp only: in_work_def count_union count_greater_zero_iff [symmetric])
  qed
  moreover have "0 < count (canceled (srv c')) e" if "e \<in># canceled (srv c')" using that by (simp only: count_greater_zero_iff)
  ultimately have "count (mset (lq_items (completed_emergencies (srv c')))) e = 0" using st le by linarith
  then have "e \<notin> set (lq_items (completed_emergencies (srv c')))" by (simp only: count_mset_0_iff not_False_eq_True)
  moreover have "e \<in># canceled (srv c') \<longleftrightarrow> e \<in> set (lq_items (canceled_emergencies (srv c')))"
    by (simp only: canceled_def set_mset_mset)
  ultimately show ?thesis using st by (auto simp: stuck_def)
qed

text \<open>The two fires of the samples, the small one paused while its worker waits for its rescuer.\<close>

definition paused_system :: system where
  "paused_system = \<lparr>srv = set_emg 0 ((sample_emg 0)\<lparr>status := PAUSED\<rparr>) sample_server,
     workers = [Waiting 0, Waiting 1, Looping, Looping, Looping, Looping, Looping, Looping, Looping, Looping],
     updating = At_Tick\<rparr>"

lemma paused_system_inv: "system_inv paused_system"
proof -
  have "base_inv (srv paused_system)"
    by (simp add: base_inv_def paused_system_def sample_server_def lq_create_def lq_inv_def WORKER_THREADS_NUMBER_def set_emg_def)
  moreover have "in_slot (workers paused_system ! i) (slots (srv paused_system) ! i) \<and> woken_ok (workers paused_system ! i) (srv paused_system)"
    if "i < WORKER_THREADS_NUMBER" for i
  proof -
    have "i \<in> {0, 1, 2, 3, 4, 5, 6, 7, 8, 9}" using that by (auto simp: WORKER_THREADS_NUMBER_def)
    then show ?thesis by (auto simp: paused_system_def sample_server_def set_emg_def woken_ok_def)
  qed
  moreover have "[0..<2] = [0, 1::nat]" by (simp add: upt_rec)
  moreover have "lq_items (lq_create 3) = ([] :: emg_ptr list)" by (simp add: lq_create_def drain_def)
  ultimately show ?thesis
    by (simp add: system_inv_def waiting_def in_work_def stored_def paused_system_def sample_server_def set_emg_def WORKER_THREADS_NUMBER_def
        del: set_drain)
qed

theorem paused_never_completes_witness:
  "\<exists>c. run [Work 0, Work 0] paused_system = Some c \<and> workers c ! 0 = Trying 0
    \<and> 0 \<notin> set (lq_items (completed_emergencies (srv c)))"
proof -
  have "case run [Work 0, Work 0] paused_system of None \<Rightarrow> False | Some c \<Rightarrow> workers c ! 0 = Trying 0 \<and> \<not> server_must_stop (srv c)"
    by code_simp
  then obtain c where c: "run [Work 0, Work 0] paused_system = Some c" "workers c ! 0 = Trying 0" "\<not> server_must_stop (srv c)"
    by (auto split: option.splits)
  have "in_hand 0 (workers paused_system ! 0)" "status (emg_at (srv paused_system) 0) = PAUSED" "0 < WORKER_THREADS_NUMBER"
    by (simp_all add: in_hand_def paused_system_def set_emg_def WORKER_THREADS_NUMBER_def)
  from paused_never_completes [OF paused_system_inv this(3,1,2) run_steps [OF c(1)] c(3)] show ?thesis using c by blast
qed

section \<open>The updater step by step\<close>

fun update_run :: "nat \<Rightarrow> updater_at \<Rightarrow> server \<Rightarrow> (updater_at \<times> server) res" where
  "update_run 0 u s = Inr (u, s)"
| "update_run (Suc n) u s = rbind (update_step u s) (\<lambda>(u', s'). update_run n u' s')"

lemma update_run_add: "update_run m u s = Inr (u1, s1) \<Longrightarrow> update_run (m + n) u s = update_run n u1 s1"
proof (induction m arbitrary: u s)
  case (Suc m)
  then obtain u2 s2 where "update_step u s = Inr (u2, s2)" "update_run m u2 s2 = Inr (u1, s1)" by (auto simp: rbind_eq_Inr)
  then show ?case using Suc.IH by simp
qed simp

lemma update_run_step: "update_step u s = Inr (u1, s1) \<Longrightarrow> update_run n u1 s1 = r \<Longrightarrow> update_run (Suc n) u s = r"
  by simp

lemma expired_steps:
  "remove_expired_loop fuel s = Inr s' \<Longrightarrow> \<exists>n. update_run n At_Expired s = Inr (At_Promotion, s')"
proof (induction fuel arbitrary: s)
  case (Suc fuel)
  obtain r q where x: "lq_extract (emergency_queue s) (emergency_has_expired s) = (r, q)"
    by (cases "lq_extract (emergency_queue s) (emergency_has_expired s)")
  show ?case
  proof (cases r)
    case None
    then have "update_run 1 At_Expired s = Inr (At_Promotion, s')" using Suc.prems x by simp
    then show ?thesis by blast
  next
    case (Some e)
    let ?s2 = "set_emg e ((emg_at (s\<lparr>emergency_queue := q\<rparr>) e)\<lparr>status := TIMEOUT\<rparr>) (s\<lparr>emergency_queue := q\<rparr>)"
    obtain l where l: "priority_to_level (priority (emg_at ?s2 e)) = Inr l"
      and rest: "remove_expired_loop fuel (?s2\<lparr>canceled_emergencies := lq_push (canceled_emergencies ?s2) e l\<rparr>) = Inr s'"
      using Suc.prems x Some by (auto simp: rbind_eq_Inr)
    from Suc.IH [OF rest] obtain n where
      n: "update_run n At_Expired (?s2\<lparr>canceled_emergencies := lq_push (canceled_emergencies ?s2) e l\<rparr>) = Inr (At_Promotion, s')" by blast
    have "update_step At_Expired s = Inr (Expired e, s\<lparr>emergency_queue := q\<rparr>)" using x Some by simp
    moreover have "update_step (Expired e) (s\<lparr>emergency_queue := q\<rparr>)
        = Inr (At_Expired, ?s2\<lparr>canceled_emergencies := lq_push (canceled_emergencies ?s2) e l\<rparr>)" using l by simp
    ultimately have "update_run (Suc (Suc n)) At_Expired s = Inr (At_Promotion, s')" using n update_run_step by blast
    then show ?thesis by blast
  qed
qed simp

lemma promotion_steps:
  "promote_loop fuel s = Inr s' \<Longrightarrow> \<exists>n. update_run n At_Promotion s = Inr (At_Tick, s')"
proof (induction fuel arbitrary: s)
  case (Suc fuel)
  obtain r q where x: "lq_extract (emergency_queue s) (emergency_is_to_promote s) = (r, q)"
    by (cases "lq_extract (emergency_queue s) (emergency_is_to_promote s)")
  show ?case
  proof (cases r)
    case None
    then have "update_run 1 At_Promotion s = Inr (At_Tick, s')" using Suc.prems x by simp
    then show ?thesis by blast
  next
    case (Some e)
    let ?s1 = "s\<lparr>emergency_queue := q\<rparr>"
    obtain s2 l where l: "promote_emergency e ?s1 = Inr s2" "priority_to_level (priority (emg_at s2 e)) = Inr l"
      and rest: "promote_loop fuel (s2\<lparr>emergency_queue := lq_push (emergency_queue s2) e l\<rparr>) = Inr s'"
      using Suc.prems x Some by (auto simp: rbind_eq_Inr simp del: promote_emergency)
    from Suc.IH [OF rest] obtain n where
      n: "update_run n At_Promotion (s2\<lparr>emergency_queue := lq_push (emergency_queue s2) e l\<rparr>) = Inr (At_Tick, s')" by blast
    have "update_step At_Promotion s = Inr (To_Promote e, ?s1)" using x Some by simp
    moreover have "update_step (To_Promote e) ?s1 = Inr (At_Promotion, s2\<lparr>emergency_queue := lq_push (emergency_queue s2) e l\<rparr>)"
      using l by (simp del: promote_emergency)
    ultimately have "update_run (Suc (Suc n)) At_Promotion s = Inr (At_Tick, s')" using n update_run_step by blast
    then show ?thesis by blast
  qed
qed simp



end
