(* ===== verification/System_Shutdown.thy ===== *)
theory System_Shutdown
  imports System_Properties
begin

text \<open>
  How the workers of the server come to rest: after the signal each can reach its end, one after the
  other, without waiting for another thread, and what they hold is stored. The schedule is a
  list of their numbers, with at most four steps for each.
\<close>

section \<open>Runs of the system\<close>

lemma steps_forward:
  assumes "sys_step\<^sup>*\<^sup>* c c'" and "system_inv c"
  shows "system_inv c' \<and> (server_must_stop (srv c) \<longrightarrow> server_must_stop (srv c')) \<and> canceled (srv c) \<subseteq># canceled (srv c')"
  using assms
proof (induction rule: rtranclp_induct)
  case (step c1 c2)
  then show ?case using sys_step_inv [OF step.hyps(2)] step_forward [OF _ step.hyps(2)] by (meson subset_mset.order_trans)
qed simp

lemma signal_stops:
  assumes "base_inv s" and "stop_on_signal s = Inr s'"
  shows "server_must_stop s' \<and> lq_closed (emergency_queue s')"
proof -
  let ?s0 = "s\<lparr>server_must_stop := True, stop_messages := stop_messages s + 1, emergency_queue := lq_close (emergency_queue s)\<rparr>"
  have "stop_on_signal s = wake_everyone_now ?s0"
    by (simp add: stop_on_signal_def wake_everyone_now_def Let_def)
  moreover have "length (slots ?s0) = WORKER_THREADS_NUMBER" "\<not> emergencies_mutex ?s0" using assms(1) by (simp_all add: base_inv_def)
  from wake_everyone_now_correct [OF this] obtain ea where
    "wake_everyone_now ?s0 = Inr (?s0\<lparr>clock_updated := clock_updated ?s0 + 1, emg_at := ea\<rparr>)" by blast
  ultimately have "s' = ?s0\<lparr>clock_updated := clock_updated s + 1, emg_at := ea\<rparr>" using assms(2) by simp
  then show ?thesis by (simp add: lq_close_def)
qed

lemma run_append: "run (xs @ ys) c = Option.bind (run xs c) (run ys)"
  by (induction xs arbitrary: c) (simp_all split: bind_split)

section \<open>One worker\<close>

text \<open>A worker that leaves stores what it holds.\<close>

lemma leaving_stores:
  assumes "stopping i s" and "base_inv s" and "worker_step i pc s = Inr (Some (pc', s'))" and "\<And>e. pc \<noteq> Searching e"
  shows "holds pc = [] \<or> holds pc' = holds pc \<or> pc' = Gone \<and> set (holds pc) \<subseteq> set_mset (canceled s')"
proof (cases pc)
  case (Leaving e)
  let ?s1 = "push_final Canceled_Queue e (the_level (priority (emg_at s e)))
      (set_emg e ((emg_at s e)\<lparr>status := CANCELED\<rparr>) (s\<lparr>slots := (slots s)[nat i := None]\<rparr>))"
  have stop: "server_must_stop s" "\<not> emergencies_mutex s" "0 \<le> i" "nat i < length (slots s)" using assms(1) by (simp_all add: stopping_def)
  have "stopping i ?s1" by (intro stopping_frame assms(1))
  then have "close_slot i ?s1 = Inr (?s1\<lparr>slots := (slots ?s1)[nat i := None]\<rparr>)"
    unfolding stopping_def by (intro close_slot_eq) blast+
  then have s': "pc' = Gone" "s' = ?s1\<lparr>slots := (slots ?s1)[nat i := None]\<rparr>"
    using assms(3) Leaving stop(1) change_status_eq [OF stop(2-4)] by simp_all
  have q: "lq_inv (canceled_emergencies s)" "\<not> lq_closed (canceled_emergencies s)" using assms(2) by (simp_all add: base_inv_def)
  have "e \<in># canceled s'" using lq_push_places [OF q(1)] q(2) unfolding s'
    by (simp add: canceled_def push_final_def set_emg_def)
  then show ?thesis using s' Leaving by simp
next
  case (Popping)
  then show ?thesis by simp
next
  case (Woken e)
  then show ?thesis using assms(1,3) by (auto simp: stopping_def)
qed (use assms in \<open>auto simp: stopping_def rbind_eq_Inr split: if_splits\<close>)

lemma worker_ends:
  assumes "system_inv c" and "stopping (int i) (srv c)" and "i < WORKER_THREADS_NUMBER"
    and "\<And>e. workers c ! i \<noteq> Searching e" and "steps_left (workers c ! i) \<le> n"
  shows "\<exists>m c'. m \<le> n \<and> run (replicate m (Work i)) c = Some c' \<and> workers c' = (workers c)[i := Gone]
    \<and> stopping (int i) (srv c') \<and> set (holds (workers c ! i)) \<subseteq> set_mset (canceled (srv c'))"
  using assms
proof (induction n arbitrary: c)
  case 0
  then have "workers c ! i = Gone" by (cases "workers c ! i") auto
  moreover from this have "(workers c)[i := Gone] = workers c" by (metis list_update_id)
  ultimately show ?case using "0.prems"(2) by (intro exI [of _ 0] exI [of _ c]) simp
next
  case (Suc n)
  let ?pc = "workers c ! i"
  have len: "i < length (workers c)" using Suc.prems(1,3) by (simp add: system_inv_def)
  have b: "base_inv (srv c)" using Suc.prems(1) by (simp add: system_inv_def)
  show ?case
  proof (cases "?pc = Gone")
    case True
    moreover from this have "(workers c)[i := Gone] = workers c" by (metis list_update_id)
    ultimately show ?thesis using Suc.prems(2) by (intro exI [of _ 0] exI [of _ c]) simp
  next
    case False
    from stopping_step [OF Suc.prems(2) False Suc.prems(4)] obtain pc' s' where
      st: "worker_step (int i) ?pc (srv c) = Inr (Some (pc', s'))" "stopping (int i) s'"
        "steps_left pc' < steps_left ?pc" "\<forall>e. pc' \<noteq> Searching e" by blast
    let ?c1 = "c\<lparr>srv := s', workers := (workers c)[i := pc']\<rparr>"
    have step: "sys_step c ?c1" by (rule sys_step.working [OF len st(1)])
    have inv1: "system_inv ?c1" by (rule sys_step_inv [OF step Suc.prems(1)])
    have pc1: "workers ?c1 ! i = pc'" using len by simp
    have "stopping (int i) (srv ?c1)" "steps_left (workers ?c1 ! i) \<le> n" "\<And>e. workers ?c1 ! i \<noteq> Searching e"
      using st(2-4) pc1 Suc.prems(5) by simp_all
    from Suc.IH [OF inv1 this(1) Suc.prems(3) this(3,2)] obtain m c' where
      c': "run (replicate m (Work i)) ?c1 = Some c'" "workers c' = (workers ?c1)[i := Gone]" "stopping (int i) (srv c')"
        "set (holds pc') \<subseteq> set_mset (canceled (srv c'))" "m \<le> n" unfolding pc1 by blast
    have kept: "set_mset (canceled s') \<subseteq> set_mset (canceled (srv c'))"
      using steps_forward [OF run_steps [OF c'(1)] inv1] by (simp add: set_mset_mono)
    have "set (holds ?pc) \<subseteq> set_mset (canceled (srv c'))"
      using leaving_stores [OF Suc.prems(2) b st(1) Suc.prems(4)] c'(4) kept by auto
    moreover have "run (replicate (Suc m) (Work i)) c = Some c'" using c'(1) len st(1) by simp
    ultimately show ?thesis using c'(2,3,5) by (intro exI [of _ "Suc m"] exI [of _ c']) simp
  qed
qed

section \<open>All of them\<close>

lemma workers_end:
  assumes "system_inv c" and "stopping 0 (srv c)" and "\<And>e. Searching e \<notin> set (workers c)" and "k \<le> WORKER_THREADS_NUMBER"
  shows "\<exists>ws c'. length ws \<le> 4 * k \<and> run (map Work ws) c = Some c' \<and> workers c' = replicate k Gone @ drop k (workers c) \<and> stopping 0 (srv c')
    \<and> set (concat (map holds (take k (workers c)))) \<subseteq> set_mset (canceled (srv c'))"
  using assms(4)
proof (induction k)
  case 0
  then show ?case using assms(2) by (intro exI [of _ "[]"] exI [of _ c]) simp
next
  case (Suc k)
  then obtain ws c1 where c1: "run (map Work ws) c = Some c1" "workers c1 = replicate k Gone @ drop k (workers c)" "stopping 0 (srv c1)"
    "set (concat (map holds (take k (workers c)))) \<subseteq> set_mset (canceled (srv c1))" "length ws \<le> 4 * k" by auto
  have k: "k < WORKER_THREADS_NUMBER" using Suc.prems by simp
  have len: "length (workers c) = WORKER_THREADS_NUMBER" using assms(1) by (simp add: system_inv_def)
  have inv1: "system_inv c1" using steps_forward [OF run_steps [OF c1(1)] assms(1)] by blast
  have at: "workers c1 ! k = workers c ! k" using c1(2) k len by (simp add: nth_append)
  have "stopping (int k) (srv c1)" using c1(3) inv1 k by (simp add: stopping_def system_inv_def base_inv_def)
  moreover have "workers c1 ! k \<noteq> Searching e" for e using assms(3) [of e] at k len by (metis nth_mem)
  moreover have "steps_left (workers c1 ! k) \<le> 4" by (cases "workers c1 ! k") simp_all
  ultimately obtain m c2 where c2: "run (replicate m (Work k)) c1 = Some c2" "workers c2 = (workers c1)[k := Gone]" "stopping (int k) (srv c2)"
    "set (holds (workers c ! k)) \<subseteq> set_mset (canceled (srv c2))" "m \<le> 4"
    using worker_ends [OF inv1 _ k, of 4] at by metis
  have "workers c2 = replicate (Suc k) Gone @ drop (Suc k) (workers c)"
    using c2(2) c1(2) k len by (simp add: list_update_append Cons_nth_drop_Suc [symmetric] replicate_append_same)
  moreover have "stopping 0 (srv c2)" using c2(3) by (auto simp: stopping_def)
  moreover have "set_mset (canceled (srv c1)) \<subseteq> set_mset (canceled (srv c2))"
    using steps_forward [OF run_steps [OF c2(1)] inv1] by (simp add: set_mset_mono)
  moreover have "run (map Work (ws @ replicate m k)) c = Some c2" using c1(1) c2(1) by (simp add: run_append)
  moreover have "length (ws @ replicate m k) \<le> 4 * Suc k" using c1(5) c2(5) by simp
  ultimately show ?case using c1(4) c2(4) k len
    by (intro exI [of _ "ws @ replicate m k"] exI [of _ c2]) (auto simp: take_Suc_conv_app_nth)
qed

section \<open>Property\<close>


text \<open>The signal comes while the first worker waits for the two vans to finish with its fire.\<close>

definition fire_in_work :: "choice list" where
  "fire_in_work = one_fire @ [Work 0]"


end
