(* ===== verification/Server_Main.thy ===== *)
theory Server_Main
  imports System Parse_Env
begin

text \<open>
  The main thread, \<^verbatim>\<open>main.c\<close>: the context it sets up, the configuration it loads, the threads
  it starts and, when they have ended, the report it writes and the memory it frees. Opening the
  message queue, the shared memory and the semaphore is in theory \<open>Ipc\<close>.
\<close>

section \<open>Setting up\<close>

text \<open>
  What \<open>malloc\<close> returns holds anything, so the memory that the context gets is an argument. The
  static variables hold their initial values and no message has been sent.
\<close>

definition process_image :: "server \<Rightarrow> server" where
  "process_image s = s\<lparr>shutting_down := False, exit_failure := False, stop_messages := 0, clock_updated := 0, emg_brk := 0\<rparr>"

definition init_server_context :: "server \<Rightarrow> server" where
  "init_server_context s = s\<lparr>requests_count := 0, requests_valid_count := 0, clock_tick := False,
     tick_count_since_start := 0, clock_mutex := False, emergencies_mutex := False,
     emergency_queue := lq_create (nat priority_count), completed_emergencies := lq_create (nat priority_count),
     canceled_emergencies := lq_create (nat priority_count), server_must_stop := False,
     slots := replicate WORKER_THREADS_NUMBER None, next_tw_index := 0\<rparr>"

section \<open>Ending\<close>

record report =
  exit_status :: int
  elaborated :: int
  completed_count :: nat
  timeout_count :: nat
  canceled_count :: nat
  waiting_count :: nat

definition count_pq_timeout :: "server \<Rightarrow> emg_ptr \<Rightarrow> nat \<Rightarrow> nat" where
  "count_pq_timeout s e n = (if status (emg_at s e) = TIMEOUT then n + 1 else n)"

definition count_pq_canceled :: "server \<Rightarrow> emg_ptr \<Rightarrow> nat \<Rightarrow> nat" where
  "count_pq_canceled s e n = (if status (emg_at s e) = CANCELED then n + 1 else n)"

definition count_pq_waiting :: "server \<Rightarrow> emg_ptr \<Rightarrow> nat \<Rightarrow> nat" where
  "count_pq_waiting s e n = n + 1"

text \<open>The twins that are freed, in order; the arrays are read up to their \<open>NULL\<close>.\<close>

definition free_type_twins :: "rescuer_type \<Rightarrow> twin_ptr list \<Rightarrow> twin_ptr list res" where
  "free_type_twins r freed =
     rfold (\<lambda>j fs. rbind (arr_get (twins r) (int j)) (\<lambda>tp. rbind (deref tp) (\<lambda>t. Inr (fs @ [t])))) [0..<nat (amount r)] freed"

fun free_rescuer_types :: "rescuer_type option list \<Rightarrow> twin_ptr list \<Rightarrow> twin_ptr list res" where
  "free_rescuer_types [] freed = Inl OutOfBounds"
| "free_rescuer_types (None # rs) freed = Inr freed"
| "free_rescuer_types (Some r # rs) freed = rbind (free_type_twins r freed) (free_rescuer_types rs)"

definition free_rescuers :: "rescuer_type option list option \<Rightarrow> twin_ptr list res" where
  "free_rescuers p = rbind (deref p) (\<lambda>types. free_rescuer_types types [])"

fun free_rescuer_requests :: "rescuer_request option list \<Rightarrow> nat \<Rightarrow> nat res" where
  "free_rescuer_requests [] n = Inl OutOfBounds"
| "free_rescuer_requests (None # rs) n = Inr n"
| "free_rescuer_requests (Some r # rs) n = free_rescuer_requests rs (n + 1)"

text \<open>For the types of emergencies, the number of requests that are freed.\<close>

fun free_emergency_types :: "emergency_type option list \<Rightarrow> nat \<Rightarrow> nat res" where
  "free_emergency_types [] n = Inl OutOfBounds"
| "free_emergency_types (None # es) n = Inr n"
| "free_emergency_types (Some e # es) n = rbind (free_rescuer_requests (rescuers e) n) (free_emergency_types es)"

definition free_emergencies :: "emergency_type option list option \<Rightarrow> nat res" where
  "free_emergencies p = rbind (deref p) (\<lambda>types. free_emergency_types types 0)"

definition cleanup_server_context ::
  "rescuer_type option list option \<Rightarrow> emergency_type option list option \<Rightarrow> server \<Rightarrow> (twin_ptr list \<times> nat) res" where
  "cleanup_server_context rp ep s =
     rbind (free_emergencies ep) (\<lambda>n. rbind (free_rescuers rp) (\<lambda>ts. Inr (ts, n)))"

text \<open>
  The last function of the process: the report, a last broadcast to every emergency in a slot, the
  memory. The two pointers to the configuration may be \<open>NULL\<close>.
\<close>

definition close_server ::
  "int \<Rightarrow> rescuer_type option list option \<Rightarrow> emergency_type option list option \<Rightarrow> server \<Rightarrow>
   (report \<times> twin_ptr list \<times> nat) res" where
  "close_server code rp ep s =
    (let code' = (if code = 0 then 0 else if code = 1 then 1 else 1);
         r = \<lparr>exit_status = code', elaborated = requests_valid_count s,
              completed_count = length (concat (lq_levels (completed_emergencies s))),
              timeout_count = fold (count_pq_timeout s) (concat (lq_levels (canceled_emergencies s))) 0,
              canceled_count = fold (count_pq_canceled s) (concat (lq_levels (canceled_emergencies s))) 0,
              waiting_count = fold (count_pq_waiting s) (concat (lq_levels (emergency_queue s))) 0\<rparr>;
         s1 = s\<lparr>server_must_stop := True\<rparr>
     in rbind (lock_emergencies s1) (\<lambda>s2.
        rbind (rfold (\<lambda>i s. rbind (arr_get (slots s) (int i)) (\<lambda>ep. Inr (broadcast_slot ep s)))
                 [0..<WORKER_THREADS_NUMBER] s2) (\<lambda>s3.
        rbind (cleanup_server_context rp ep (unlock_emergencies s3)) (\<lambda>freed. Inr (r, freed)))))"

section \<open>The configuration\<close>

text \<open>
  \<^verbatim>\<open>main\<close> from the parsing to the test of the three pointers. A \<open>NULL\<close> pointer to the rescuers
  is passed to the parser of the emergencies as an array without cells: every look-up in it fails.
\<close>

definition load_configuration :: "conf_file \<Rightarrow> conf_file \<Rightarrow> conf_file \<Rightarrow> server \<Rightarrow> server res" where
  "load_configuration env_conf rescuers_conf emergency_types_conf s =
     rbind (parse_env env_conf) (\<lambda>env.
     rbind (deref env) (\<lambda>en.
     rbind (parse_rescuers rescuers_conf (width en) (height en) (no_twins (twin_at s))) (\<lambda>rs.
     rbind (parse_emergencies emergency_types_conf
             (case rs of Some (r, _) \<Rightarrow> r | None \<Rightarrow> \<lparr>parsed_types = [], parsed_count = 0\<rparr>)
             priority_lookup_table priority_count) (\<lambda>em.
     case (rs, em) of
       (Some (r, st), Some d) \<Rightarrow>
         Inr (s\<lparr>env_height := height en, env_width := width en, rescuer_types := parsed_types r,
           rescuer_types_count := parsed_count r, rescuers_mutex := False, twin_at := store_heap st,
           emergency_types := parsed_emergency_types d, emergencies_count := parsed_emergency_count d\<rparr>)
     | _ \<Rightarrow> rbind (close_server 1 (map_option (parsed_types \<circ> fst) rs) (map_option parsed_emergency_types em) s)
              (\<lambda>_. Inl ProcessExit)))))"

section \<open>The threads\<close>

datatype thread = Clock_Thread | Updater_Thread | Receiver_Thread | Worker_Thread nat

text \<open>
  \<open>created k\<close> says whether the \<open>k\<close>-th \<^verbatim>\<open>thrd_create\<close> succeeds. The result is what the
  function returns, the two counters and the state.
\<close>

fun start_workers :: "(nat \<Rightarrow> bool) \<Rightarrow> nat \<Rightarrow> nat \<Rightarrow> server \<Rightarrow> (bool \<times> nat \<times> server) res" where
  "start_workers created 0 started s = Inr (True, started, s)"
| "start_workers created (Suc n) started s =
     (if \<not> created (3 + started)
      then rbind (log_error_and_exit request_shutdown_from_thread s) (\<lambda>s'. Inr (False, started, s'))
      else start_workers created n (started + 1) s)"

definition start_threads :: "(nat \<Rightarrow> bool) \<Rightarrow> server \<Rightarrow> (bool \<times> nat \<times> nat \<times> server) res" where
  "start_threads created s =
    (if \<not> created 0 then rbind (log_error_and_exit request_shutdown_from_thread s) (\<lambda>s'. Inr (False, 0, 0, s'))
     else if \<not> created 1 then rbind (log_error_and_exit request_shutdown_from_thread s) (\<lambda>s'. Inr (False, 1, 0, s'))
     else if \<not> created 2 then rbind (log_error_and_exit request_shutdown_from_thread s) (\<lambda>s'. Inr (False, 2, 0, s'))
     else rbind (start_workers created WORKER_THREADS_NUMBER 0 s) (\<lambda>(ok, w, s'). Inr (ok, 3, w, s')))"

text \<open>The threads that \<^verbatim>\<open>main\<close> waits for after a failure, in its order.\<close>

definition joined_on_failure :: "nat \<Rightarrow> nat \<Rightarrow> thread list" where
  "joined_on_failure m w =
     (if m \<ge> 3 then [Receiver_Thread] else []) @ (if m \<ge> 1 then [Clock_Thread] else []) @
     (if m \<ge> 2 then [Updater_Thread] else []) @ map Worker_Thread [0..<w]"

section \<open>A configuration that is accepted\<close>

lemma lq_create_ready: "lq_inv (lq_create (nat priority_count) :: emg_ptr lqueue)" "\<not> lq_closed (lq_create (nat priority_count) :: emg_ptr lqueue)"
  "lq_items (lq_create (nat priority_count)) = ([] :: emg_ptr list)"
  by (simp_all add: lq_create_def lq_inv_def drain_def priority_count_def priority_lookup_table_def)

text \<open>What an accepted configuration makes of the context.\<close>

lemma load_configuration_accepts:
  assumes "load_configuration (Some l1) (Some l2) (Some l3) s = Inr s'"
  obtains mx my ts cs st es k where "rescuers_parsed mx my ts (rescuer_types s') st"
    "s' = s\<lparr>env_height := my, env_width := mx, rescuer_types := map Some ts @ None # cs,
      rescuer_types_count := int (length ts), rescuers_mutex := False, twin_at := store_heap st,
      emergency_types := emergency_cells es, emergencies_count := k\<rparr>"
    "emergencies_parsed ts priority_lookup_table es"
proof -
  from assms obtain en rs em where env: "parse_env (Some l1) = Inr (Some en)"
    and rs: "parse_rescuers (Some l2) (width en) (height en) (no_twins (twin_at s)) = Inr rs"
    and em: "parse_emergencies (Some l3) (case rs of Some (r, _) \<Rightarrow> r | None \<Rightarrow> \<lparr>parsed_types = [], parsed_count = 0\<rparr>)
             priority_lookup_table priority_count = Inr em"
    and fin: "(case (rs, em) of
       (Some (r, st), Some d) \<Rightarrow>
         Inr (s\<lparr>env_height := height en, env_width := width en, rescuer_types := parsed_types r,
           rescuer_types_count := parsed_count r, rescuers_mutex := False, twin_at := store_heap st,
           emergency_types := parsed_emergency_types d, emergencies_count := parsed_emergency_count d\<rparr>)
     | _ \<Rightarrow> rbind (close_server 1 (map_option (parsed_types \<circ> fst) rs) (map_option parsed_emergency_types em) s)
              (\<lambda>_. Inl ProcessExit)) = Inr s'"
    unfolding load_configuration_def rbind_eq_Inr deref_eq by blast
  from fin obtain r st d where c: "rs = Some (r, st)" "em = Some d"
    by (auto simp: rbind_eq_Inr split: option.splits prod.splits)
  from parse_rescuers_cases [of l2 "width en" "height en" "twin_at s"] rs c(1) obtain ts where
    p: "rescuers_parsed (width en) (height en) ts (parsed_types r) st" "parsed_count r = int (length ts)" by auto
  obtain cs where cs: "parsed_types r = map Some ts @ None # cs" using rescuers_parsed_cells(1) [OF p(1)] by blast
  let ?ps = "\<lparr>unread = l3, line = None, line_number = 0, parsed_so_far = 0, should_continue_parsing = True\<rparr>"
  have nil: "emergency_cells [] = callocate_emergency_types" by (simp add: emergency_cells_def callocate_emergency_types_def)
  have "emergencies_parsed ts priority_lookup_table []" by (simp add: emergencies_parsed_def)
  from emergencies_loop_correct [OF _ cs this priority_count_def, of ?ps "length l3 + 1" no_emergency_fields] em c
  obtain es where es: "parsed_emergency_types d = emergency_cells es" "emergencies_parsed ts priority_lookup_table es"
    unfolding nil by (auto simp: parse_emergencies_def mallocate_parsing_state_def rbind_eq_Inr simp del: emergencies_loop.simps)
  show ?thesis
  proof (rule that)
    show "s' = s\<lparr>env_height := height en, env_width := width en, rescuer_types := map Some ts @ None # cs,
      rescuer_types_count := int (length ts), rescuers_mutex := False, twin_at := store_heap st,
      emergency_types := emergency_cells es, emergencies_count := parsed_emergency_count d\<rparr>"
      using fin c p(2) cs es(1) by simp
    then show "rescuers_parsed (width en) (height en) ts (rescuer_types s') st" using p(1) cs by simp
  qed (rule es(2))
qed

text \<open>The rescuers stand inside the map, not on its far edges, and no type has sixteen requests or a rescuer twice.\<close>

definition well_stated :: "server \<Rightarrow> bool" where
  "well_stated s \<longleftrightarrow>
     list_all (\<lambda>c. case c of None \<Rightarrow> True | Some r \<Rightarrow> base_x r < env_width s \<and> base_y r < env_height s) (rescuer_types s)
     \<and> list_all (\<lambda>c. case c of None \<Rightarrow> True | Some t \<Rightarrow> rescuers_req_number t < 16
          \<and> distinct (map get_name_of_rescuer_requested (requests (rescuers_req_number t) (rescuers t)))) (emergency_types s)"

lemma well_statedD:
  assumes "well_stated s"
  shows "Some r \<in> set (rescuer_types s) \<Longrightarrow> base_x r < env_width s \<and> base_y r < env_height s"
    "Some t \<in> set (emergency_types s) \<Longrightarrow> rescuers_req_number t < 16
      \<and> distinct (map get_name_of_rescuer_requested (requests (rescuers_req_number t) (rescuers t)))"
  using assms by (force simp: well_stated_def list_all_iff)+

text \<open>
  C32. From the start of the process to the moment the threads start: whatever the memory held, a
  configuration that is accepted, with rescuers inside the map and with fewer than sixteen
  requests for different rescuers in each type, gives a state from which the receiver, the
  updater, the dispatch and the workers may start: it satisfies the invariants that their theorems
  ask for.
\<close>

theorem configured_server_is_ready:
  assumes "load_configuration (Some l1) (Some l2) (Some l3) (init_server_context (process_image s)) = Inr s'"
    and "well_stated s'"
  shows "server_inv s' \<and> no_flags s' \<and> updater_ready s' \<and> receiver_ready s' \<and> set_up s'
    \<and> (\<forall>t. known s' t \<longrightarrow> twin_status (twin_at s' t) = IDLE)"
proof -
  let ?s = "init_server_context (process_image s)"
  obtain mx my ts cs st es k where rp: "rescuers_parsed mx my ts (rescuer_types s') st"
    and s': "s' = ?s\<lparr>env_height := my, env_width := mx, rescuer_types := map Some ts @ None # cs,
      rescuer_types_count := int (length ts), rescuers_mutex := False, twin_at := store_heap st,
      emergency_types := emergency_cells es, emergencies_count := k\<rparr>"
    and ep: "emergencies_parsed ts priority_lookup_table es"
    by (rule load_configuration_accepts [OF assms(1)])
  have types: "rescuer_types s' = map Some ts @ None # cs" and heap: "twin_at s' = store_heap st" and brk: "emg_brk s' = 0"
    and etypes: "emergency_types s' = emergency_cells es" and env: "env_width s' = mx" "env_height s' = my"
    and count: "rescuer_types_count s' = int (length ts)"
    unfolding s' by (simp_all add: init_server_context_def process_image_def)
  note inv = rescuers_parsed_inv [OF rp refl heap]
  have new: "twin_at s' t = new_twin (rescuer (twin_at s' t)) t" "known s' t \<Longrightarrow> emergency (twin_at s' t) = None"
    "known s' t \<Longrightarrow> twin_status (twin_at s' t) = IDLE" "known s' t \<Longrightarrow> \<not> is_a_candidate (twin_at s' t)"
    if "known s' t" for t
  proof -
    show n: "twin_at s' t = new_twin (rescuer (twin_at s' t)) t" by (rule inv(3) [OF that])
    show "emergency (twin_at s' t) = None" "twin_status (twin_at s' t) = IDLE" "\<not> is_a_candidate (twin_at s' t)"
      by (subst n, simp add: new_twin_def)+
  qed
  have si: "server_inv s'" unfolding server_inv_def links_inv_def using inv(1) new brk by auto
  have nf: "no_flags s'" using new by (auto simp: no_flags_def)
  have ci: "courses_inv s'" unfolding courses_inv_def
  proof (intro conjI allI impI)
    fix t assume t: "known s' t"
    let ?r = "rescuer (twin_at s' t)"
    have r: "Some ?r \<in> set (rescuer_types s')" by (rule known_type(2) [OF inv(1) t])
    have "legal_type mx my ?r" using rp r unfolding rescuers_parsed_def by auto
    then have "0 \<le> base_x ?r" "0 \<le> base_y ?r" by (simp_all add: legal_type_def)
    moreover have "base_x ?r < mx" "base_y ?r < my" using well_statedD(1) [OF assms(2) r] env by auto
    ultimately have m: "in_map s' (base_x ?r) (base_y ?r)"
      by (simp add: in_map_def MIN_X_COORDINATE_def MIN_Y_COORDINATE_def env)
    have "twin_x (twin_at s' t) = base_x ?r" "twin_y (twin_at s' t) = base_y ?r"
      using arg_cong [OF new(1) [OF t], of twin_x] arg_cong [OF new(1) [OF t], of twin_y] by (simp_all add: new_twin_def)
    then show "on_course s' (twin_at s' t)" using m new(3) [OF t t] by (simp add: on_course_def)
  qed (simp add: brk)
  have filt: "filter (\<lambda>c. c \<noteq> None) (map Some ts) = map Some ts" by (induction ts) auto
  have dts: "distinct ts" using rp distinct_map [of rescuer_type_name ts] by (simp add: rescuers_parsed_def)
  have ur: "updater_ready s'" unfolding updater_ready_def
    using si ci types count dts lq_create_ready
    by (simp add: s' filt distinct_map inj_on_def init_server_context_def process_image_def del: set_drain)
  have "type_ready s' t" if "t \<in> set es" for t
  proof -
    have t: "Some t \<in> set (emergency_types s')" using that etypes by (auto simp: emergency_cells_def)
    then have r: "rescuers_req_number t < 16" "distinct (map get_name_of_rescuer_requested (requests (rescuers_req_number t) (rescuers t)))"
      using well_statedD(2) [OF assms(2) t] by blast+
    have "legal_emergency ts priority_lookup_table t" using ep that by (simp add: emergencies_parsed_def)
    from requests_ok_of_legal [OF this types r] r(1) show ?thesis by (simp add: type_ready_def)
  qed
  moreover have "\<exists>cs. emergency_cells es = map Some es @ None # cs"
    using ep emergency_cells_end(1) by (simp add: emergencies_parsed_def)
  ultimately have rr: "receiver_ready s'" unfolding receiver_ready_def using si brk etypes lq_create_ready
    by (auto simp: s' init_server_context_def simp del: set_drain)
  have "set_up s'" using lq_create_ready unfolding s'
    by (simp add: set_up_def init_server_context_def process_image_def del: set_drain)
  then show ?thesis using si nf ur rr new(3) by blast
qed

theorem configured_server_is_ready_witness:
  "\<exists>s'. load_configuration (Some [''queue=/emergenze'', ''height=30'', ''width=40'']) (Some [''[Van][2][3][1;1]''])
      (Some [''[Fire] [1] Van:2,4;'']) (init_server_context (process_image sample_server)) = Inr s'
    \<and> server_inv s' \<and> updater_ready s' \<and> receiver_ready s' \<and> set_up s'"
proof -
  let ?l = "load_configuration (Some [''queue=/emergenze'', ''height=30'', ''width=40'']) (Some [''[Van][2][3][1;1]''])
      (Some [''[Fire] [1] Van:2,4;'']) (init_server_context (process_image sample_server))"
  have "case ?l of Inr s' \<Rightarrow> well_stated s' | Inl _ \<Rightarrow> False" by code_simp
  then obtain s' where s': "?l = Inr s'" "well_stated s'" by (auto split: sum.splits)
  then show ?thesis using configured_server_is_ready by blast
qed

section \<open>Starting the threads\<close>

lemma start_workers_correct:
  assumes "length (slots s) = WORKER_THREADS_NUMBER" and "\<not> emergencies_mutex s"
  shows "(\<forall>k < n. created (3 + (w + k))) \<and> start_workers created n w s = Inr (True, w + n, s)
    \<or> (\<exists>m < n. (\<forall>k < m. created (3 + (w + k))) \<and> \<not> created (3 + (w + m))
        \<and> (\<exists>s'. request_shutdown_from_thread 1 s = Inr s' \<and> start_workers created n w s = Inr (False, w + m, s')))"
proof (induction n arbitrary: w)
  case (Suc n)
  show ?case
  proof (cases "created (3 + w)")
    case False
    obtain s' where "request_shutdown_from_thread 1 s = Inr s'"
      using request_shutdown_total assms by blast
    then show ?thesis using False by (intro disjI2 exI [of _ 0]) (simp add: log_error_and_exit_def)
  next
    case True
    from Suc.IH [of "w + 1"] show ?thesis
    proof (elim disjE exE conjE)
      assume a: "\<forall>k<n. created (3 + (w + 1 + k))" "start_workers created n (w + 1) s = Inr (True, w + 1 + n, s)"
      have "created (3 + (w + k))" if "k < Suc n" for k using a(1) True that by (cases k) auto
      then show ?thesis using a(2) True by (intro disjI1) simp
    next
      fix m s' assume a: "m < n" "\<forall>k<m. created (3 + (w + 1 + k))" "\<not> created (3 + (w + 1 + m))"
        "request_shutdown_from_thread 1 s = Inr s'" "start_workers created n (w + 1) s = Inr (False, w + 1 + m, s')"
      have "created (3 + (w + k))" if "k < Suc m" for k using a(2) True that by (cases k) auto
      then show ?thesis using a True by (intro disjI2 exI [of _ "Suc m"]) simp
    qed
  qed
qed simp

text \<open>The threads in the order in which they are created.\<close>

definition thread_order :: "thread list" where
  "thread_order = [Clock_Thread, Updater_Thread, Receiver_Thread] @ map Worker_Thread [0..<WORKER_THREADS_NUMBER]"

text \<open>
  If every thread is created the state is untouched. Otherwise the threads before the first
  that fails are running, a shutdown has been requested, so that they end, and \<^verbatim>\<open>main\<close> joins
  exactly those, each once.
\<close>

theorem started_threads_are_joined:
  assumes "length (slots s) = WORKER_THREADS_NUMBER" and "\<not> emergencies_mutex s" and "\<not> shutting_down s"
  shows "(\<forall>k < length thread_order. created k) \<and> start_threads created s = Inr (True, 3, WORKER_THREADS_NUMBER, s)
    \<or> (\<exists>n < length thread_order. (\<forall>k < n. created k) \<and> \<not> created n
        \<and> (\<exists>m w s'. start_threads created s = Inr (False, m, w, s') \<and> mset (joined_on_failure m w) = mset (take n thread_order)
             \<and> server_must_stop s' \<and> exit_failure s' \<and> lq_closed (emergency_queue s') \<and> stop_messages s' = stop_messages s + 1))"
proof -
  obtain s' where s': "request_shutdown_from_thread 1 s = Inr s'" "server_must_stop s'" "exit_failure s'"
    "lq_closed (emergency_queue s')" "stop_messages s' = stop_messages s + 1"
    using request_shutdown_first [OF assms, of 1] by auto
  have len: "length thread_order = 13" by (simp add: thread_order_def WORKER_THREADS_NUMBER_def)
  consider "\<not> created 0" | "created 0" "\<not> created 1" | "created 0" "created 1" "\<not> created 2" | "created 0" "created 1" "created 2" by blast
  then show ?thesis
  proof cases
    case 1
    then show ?thesis using s' len
      by (intro disjI2 exI [of _ 0]) (simp add: start_threads_def log_error_and_exit_def joined_on_failure_def)
  next
    case 2
    then show ?thesis using s' len
      by (intro disjI2 exI [of _ 1]) (simp add: start_threads_def log_error_and_exit_def joined_on_failure_def thread_order_def)
  next
    case 3
    then have "\<forall>k < 2. created k" by (simp add: less_2_cases_iff)
    then show ?thesis using 3 s' len
      by (intro disjI2 exI [of _ 2]) (simp add: start_threads_def log_error_and_exit_def joined_on_failure_def thread_order_def)
  next
    case 4
    have three: "created k" if "k < 3" for k using 4 that by (auto simp: less_Suc_eq numeral_3_eq_3 numeral_2_eq_2)
    from start_workers_correct [OF assms(1,2), of WORKER_THREADS_NUMBER created 0] show ?thesis
    proof (elim disjE exE conjE)
      assume a: "\<forall>k<WORKER_THREADS_NUMBER. created (3 + (0 + k))"
        "start_workers created WORKER_THREADS_NUMBER 0 s = Inr (True, 0 + WORKER_THREADS_NUMBER, s)"
      have "created k" if "k < 13" for k
        using three [of k] a(1) [rule_format, of "k - 3"] that by (cases "k < 3") (simp_all add: WORKER_THREADS_NUMBER_def)
      then show ?thesis using a(2) 4 len by (intro disjI1) (simp add: start_threads_def)
    next
      fix m s1 assume a: "m < WORKER_THREADS_NUMBER" "\<forall>k<m. created (3 + (0 + k))" "\<not> created (3 + (0 + m))"
        "request_shutdown_from_thread 1 s = Inr s1" "start_workers created WORKER_THREADS_NUMBER 0 s = Inr (False, 0 + m, s1)"
      have "created k" if "k < 3 + m" for k using three [of k] a(2) [rule_format, of "k - 3"] that by (cases "k < 3") simp_all
      moreover have "take (3 + m) thread_order = [Clock_Thread, Updater_Thread, Receiver_Thread] @ map Worker_Thread [0..<m]"
        using a(1) by (simp add: thread_order_def take_map numeral_3_eq_3)
      ultimately show ?thesis using a 4 s' len
        by (intro disjI2 exI [of _ "3 + m"]) (simp add: start_threads_def joined_on_failure_def WORKER_THREADS_NUMBER_def)
    qed
  qed
qed

theorem started_threads_are_joined_witness:
  "\<exists>s'. start_threads (\<lambda>k. k \<noteq> 4) sample_server = Inr (False, 3, 1, s') \<and> server_must_stop s'"
proof -
  have a: "length (slots sample_server) = WORKER_THREADS_NUMBER" "\<not> emergencies_mutex sample_server" "\<not> shutting_down sample_server"
    by (simp_all add: sample_server_def WORKER_THREADS_NUMBER_def)
  have "\<not> (\<forall>k < length thread_order. k \<noteq> 4)" by (simp add: thread_order_def WORKER_THREADS_NUMBER_def) 
  moreover have "start_threads (\<lambda>k. k \<noteq> 4) sample_server
      = rbind (request_shutdown_from_thread 1 sample_server) (\<lambda>s'. Inr (False, 3, 1, s'))"
    by (simp add: start_threads_def WORKER_THREADS_NUMBER_def log_error_and_exit_def numeral_eq_Suc rbind_def split: sum.splits)
  ultimately show ?thesis using started_threads_are_joined [OF a, of "\<lambda>k. k \<noteq> 4"] by (auto simp: rbind_eq_Inr)
qed

section \<open>The end of the process\<close>

lemma count_timeouts: "fold (count_pq_timeout s) es n = n + length (filter (\<lambda>e. status (emg_at s e) = TIMEOUT) es)"
  by (induction es arbitrary: n) (simp_all add: count_pq_timeout_def)

lemma count_canceled: "fold (count_pq_canceled s) es n = n + length (filter (\<lambda>e. status (emg_at s e) = CANCELED) es)"
  by (induction es arbitrary: n) (simp_all add: count_pq_canceled_def)

lemma count_waiting: "fold (count_pq_waiting s) es n = n + length es"
  by (induction es arbitrary: n) (simp_all add: count_pq_waiting_def)

lemma free_type_twins:
  assumes "type_ok s r"
  shows "free_type_twins r freed = Inr (freed @ type_twins r)"
proof -
  let ?step = "\<lambda>j fs. rbind (arr_get (twins r) (int j)) (\<lambda>tp. rbind (deref tp) (\<lambda>t. Inr (fs @ [t])))"
  note c = type_ok_cells [OF assms]
  have len: "length (type_twins r) = nat (amount r)" using arg_cong [OF c(1), of length] c(2) by simp
  have "k \<le> nat (amount r) \<Longrightarrow> rfold ?step [0..<k] freed = Inr (freed @ take k (type_twins r))" for k
  proof (induction k)
    case (Suc k)
    then have k: "k < nat (amount r)" by simp
    then have "twins r ! k = Some (type_twins r ! k)" using arg_cong [OF c(1), of "\<lambda>l. l ! k"] len by simp
    then show ?case using Suc k c(2) len by (simp add: rfold_append take_Suc_conv_app_nth)
  qed simp
  from this [of "nat (amount r)"] show ?thesis using len by (simp add: free_type_twins_def)
qed

lemma free_rescuer_types:
  assumes "\<forall>r \<in> set ts. type_ok s r"
  shows "free_rescuer_types (map Some ts @ None # cs) freed = Inr (freed @ concat (map type_twins ts))"
  using assms by (induction ts arbitrary: freed) (simp_all add: free_type_twins [of s])

lemma free_rescuer_requests:
  "None \<in> set rs \<Longrightarrow> free_rescuer_requests rs n = Inr (n + length (takeWhile (\<lambda>c. c \<noteq> None) rs))"
  "None \<notin> set rs \<Longrightarrow> free_rescuer_requests rs n = Inl OutOfBounds"
  by (induction rs arbitrary: n, auto, case_tac [!] a) auto

lemma free_emergency_types:
  "\<forall>e \<in> set es. None \<in> set (rescuers e) \<Longrightarrow> free_emergency_types (map Some es @ None # cs) n
    = Inr (n + sum_list (map (\<lambda>e. length (takeWhile (\<lambda>c. c \<noteq> None) (rescuers e))) es))"
  by (induction es arbitrary: n) (simp_all add: free_rescuer_requests)

lemma types_all_ok:
  assumes "types_inv s" and "rescuer_types s = map Some ts @ None # cs" and "r \<in> set ts"
  shows "type_ok s r"
proof -
  have "Some r \<in> set (rescuer_types s)" using assms(2,3) by simp
  then show ?thesis using assms(1) unfolding types_inv_def by blast
qed

lemma type_twins_disjoint:
  assumes "types_inv s" and "rescuer_types s = map Some ts @ None # cs" and "distinct (map rescuer_type_name ts)"
  shows "distinct (concat (map type_twins ts))" "set (concat (map type_twins ts)) \<subseteq> {t. known s t}"
proof -
  note ok = types_all_ok [OF assms(1,2)]
  have "distinct (concat (map type_twins us))" if "set us \<subseteq> set ts" "distinct us" for us
    using that
  proof (induction us)
    case (Cons u us)
    have "t \<notin> set (type_twins v)" if "t \<in> set (type_twins u)" "v \<in> set us" for t v
    proof
      assume "t \<in> set (type_twins v)"
      moreover have "type_ok s v" "type_ok s u" using ok that(2) Cons.prems(1) by auto
      ultimately have "rescuer (twin_at s t) = v" "rescuer (twin_at s t) = u" using that(1) unfolding type_ok_def by blast+
      then have "u = v" by (rule trans [OF sym, rotated])
      then show False using Cons.prems(2) that(2) by simp
    qed
    then show ?case using Cons ok [of u] by (auto simp: type_ok_def)
  qed simp
  then show "distinct (concat (map type_twins ts))" using assms(3) distinct_map [of rescuer_type_name ts] by blast
  show "set (concat (map type_twins ts)) \<subseteq> {t. known s t}" using assms(2) by (auto simp: known_def)
qed



text \<open>
  A configuration that is refused does not end the server in order: if a file is refused by its
  parser, the server follows a \<open>NULL\<close> pointer, at the latest where it frees what it never had.
\<close>

theorem refused_configuration_crashes:
  assumes "init_server_context m = s"
    and "parse_env env_conf = Inr None
      \<or> (\<exists>en. parse_env env_conf = Inr (Some en) \<and>
           (\<exists>rs. parse_rescuers rescuers_conf (width en) (height en) (no_twins (twin_at s)) = Inr (Some rs)
              \<and> parse_emergencies types_conf (fst rs) priority_lookup_table priority_count = Inr None))"
  shows "load_configuration env_conf rescuers_conf types_conf s = Inl NullDereference"
proof -
  have s: "length (slots s) = WORKER_THREADS_NUMBER" "\<not> emergencies_mutex s"
    using assms(1) by (auto simp: init_server_context_def)
  have "length (slots (s\<lparr>server_must_stop := True, emergencies_mutex := True\<rparr>)) = WORKER_THREADS_NUMBER" using s(1) by simp
  from broadcast_slots [OF this order_refl] obtain ea where
    "rfold (\<lambda>i s. rbind (arr_get (slots s) (int i)) (\<lambda>ep. Inr (broadcast_slot ep s))) [0..<WORKER_THREADS_NUMBER]
      (s\<lparr>server_must_stop := True, emergencies_mutex := True\<rparr>) = Inr (s\<lparr>server_must_stop := True, emergencies_mutex := True, emg_at := ea\<rparr>)" by blast
  then have close: "close_server 1 rp None s = Inl NullDereference" for rp
    using s(2) by (simp add: close_server_def lock_emergencies_def cleanup_server_context_def free_emergencies_def Let_def)
  from assms(2) show ?thesis
  proof (elim disjE exE conjE)
    fix en rs assume "parse_env env_conf = Inr (Some en)"
      "parse_rescuers rescuers_conf (width en) (height en) (no_twins (twin_at s)) = Inr (Some rs)"
      "parse_emergencies types_conf (fst rs) priority_lookup_table priority_count = Inr None"
    then show ?thesis by (cases rs) (simp add: load_configuration_def close)
  qed (simp add: load_configuration_def)
qed

theorem refused_configuration_crashes_witness:
  "load_configuration (Some [''queue=/emergenze'', ''height=30'', ''width=2000'']) (Some []) (Some [])
     (init_server_context sample_server) = Inl NullDereference"
proof -
  have "case parse_env (Some [''queue=/emergenze'', ''height=30'', ''width=2000'']) of Inr None \<Rightarrow> True | _ \<Rightarrow> False" by code_simp
  then have "parse_env (Some [''queue=/emergenze'', ''height=30'', ''width=2000'']) = Inr None" by (auto split: sum.splits option.splits)
  then show ?thesis using refused_configuration_crashes [OF refl] by blast
qed

end
