(* ===== verification/Log.thy ===== *)
theory Log
  imports C_Strings
begin

text \<open>
  The log of server and client, \<^verbatim>\<open>log.c\<close>, with the table of the events of
  \<^verbatim>\<open>config_log.h\<close>. The time, the identity of the calling thread and the text that
  \<^verbatim>\<open>vsnprintf\<close> makes of a format and its arguments are arguments; what is printed and what is
  written to the file are lists of lines. Opening the file and the queue succeeds.
\<close>

section \<open>The events\<close>

datatype log_event_type =
    NON_APPLICABLE | DEBUG | FATAL_ERROR | FATAL_ERROR_CLIENT | FATAL_ERROR_PARSING | FATAL_ERROR_LOGGING
   | FATAL_ERROR_MEMORY | FATAL_ERROR_FILE_OPENING | PARSING_ERROR | EMPTY_CONF_LINE_IGNORED
   | DUPLICATE_RESCUER_REQUEST_IGNORED | WRONG_RESCUER_REQUEST_IGNORED | DUPLICATE_EMERGENCY_TYPE_IGNORED
   | DUPLICATE_RESCUER_TYPE_IGNORED | WRONG_EMERGENCY_REQUEST_IGNORED_CLIENT
   | WRONG_EMERGENCY_REQUEST_IGNORED_SERVER | LOGGING_STARTED | LOGGING_ENDED | PARSING_STARTED
   | PARSING_ENDED | RESCUER_TYPE_PARSED | RESCUER_DIGITAL_TWIN_ADDED | EMERGENCY_PARSED
   | RESCUER_REQUEST_ADDED | SERVER_UPDATE | SERVER | SERVER_CLOCK | CLIENT | EMERGENCY_REQUEST_RECEIVED
   | EMERGENCY_REQUEST_PROCESSED | MESSAGE_QUEUE_CLIENT | MESSAGE_QUEUE_SERVER | EMERGENCY_STATUS
   | RESCUER_STATUS | RESCUER_TRAVELLING_STATUS | EMERGENCY_REQUEST | PROGRAM_ENDED_SUCCESSFULLY

text \<open>The order of the enumeration.\<close>

definition event_types :: "log_event_type list" where
  "event_types =
    [NON_APPLICABLE, DEBUG, FATAL_ERROR, FATAL_ERROR_CLIENT, FATAL_ERROR_PARSING, FATAL_ERROR_LOGGING,
     FATAL_ERROR_MEMORY, FATAL_ERROR_FILE_OPENING, PARSING_ERROR, EMPTY_CONF_LINE_IGNORED,
     DUPLICATE_RESCUER_REQUEST_IGNORED, WRONG_RESCUER_REQUEST_IGNORED, DUPLICATE_EMERGENCY_TYPE_IGNORED,
     DUPLICATE_RESCUER_TYPE_IGNORED, WRONG_EMERGENCY_REQUEST_IGNORED_CLIENT,
     WRONG_EMERGENCY_REQUEST_IGNORED_SERVER, LOGGING_STARTED, LOGGING_ENDED, PARSING_STARTED,
     PARSING_ENDED, RESCUER_TYPE_PARSED, RESCUER_DIGITAL_TWIN_ADDED, EMERGENCY_PARSED,
     RESCUER_REQUEST_ADDED, SERVER_UPDATE, SERVER, SERVER_CLOCK, CLIENT, EMERGENCY_REQUEST_RECEIVED,
     EMERGENCY_REQUEST_PROCESSED, MESSAGE_QUEUE_CLIENT, MESSAGE_QUEUE_SERVER, EMERGENCY_STATUS,
     RESCUER_STATUS, RESCUER_TRAVELLING_STATUS, EMERGENCY_REQUEST, PROGRAM_ENDED_SUCCESSFULLY]"

record log_event_info =
  event_name :: string
  event_code :: string
  is_terminating :: bool
  is_to_log :: bool

text \<open>How the log is built: the four cases of the conditional compilation.\<close>

datatype log_build = LOG_DEBUGGING | LOG_VERBOSE | LOG_SHY | LOG_DEFAULT

definition LOG_DEBUG :: "log_build \<Rightarrow> bool" where
  "LOG_DEBUG b \<longleftrightarrow> b = LOG_DEBUGGING"

definition LOG_CLOCK :: "log_build \<Rightarrow> bool" where
  "LOG_CLOCK b \<longleftrightarrow> b = LOG_DEBUGGING \<or> b = LOG_VERBOSE"

definition LOG_TRAVEL :: "log_build \<Rightarrow> bool" where
  "LOG_TRAVEL b \<longleftrightarrow> b \<noteq> LOG_SHY"

definition LOG_DTWIN :: "log_build \<Rightarrow> bool" where
  "LOG_DTWIN b \<longleftrightarrow> b \<noteq> LOG_SHY"

definition info :: "string \<Rightarrow> string \<Rightarrow> bool \<Rightarrow> bool \<Rightarrow> log_event_info" where
  "info name code terminating to_log =
     \<lparr>event_name = name, event_code = code, is_terminating = terminating, is_to_log = to_log\<rparr>"

fun event_row :: "log_build \<Rightarrow> log_event_type \<Rightarrow> log_event_info" where
  "event_row b NON_APPLICABLE = info ''NON_APPLICABLE'' '' '' False (True)"
| "event_row b DEBUG = info ''DEBUG'' ''DEH '' False (LOG_DEBUG b)"
| "event_row b FATAL_ERROR = info ''FATAL_ERROR'' ''ferr'' True (True)"
| "event_row b FATAL_ERROR_CLIENT = info ''FATAL_ERROR_CLIENT'' ''ferc'' False (True)"
| "event_row b FATAL_ERROR_PARSING = info ''FATAL_ERROR_PARSING'' ''fepa'' True (True)"
| "event_row b FATAL_ERROR_LOGGING = info ''FATAL_ERROR_LOGGING'' ''felo'' True (True)"
| "event_row b FATAL_ERROR_MEMORY = info ''FATAL_ERROR_MEMORY'' ''feme'' True (True)"
| "event_row b FATAL_ERROR_FILE_OPENING = info ''FATAL_ERROR_FILE_OPENING'' ''fefo'' True (True)"
| "event_row b PARSING_ERROR = info ''PARSING_ERROR'' ''paer'' False (True)"
| "event_row b EMPTY_CONF_LINE_IGNORED = info ''EMPTY_CONF_LINE_IGNORED'' ''ecli'' False (True)"
| "event_row b DUPLICATE_RESCUER_REQUEST_IGNORED = info ''DUPLICATE_RESCUER_REQUEST_IGNORED'' ''drri'' False (True)"
| "event_row b WRONG_RESCUER_REQUEST_IGNORED = info ''WRONG_RESCUER_REQUEST_IGNORED'' ''wrri'' False (True)"
| "event_row b DUPLICATE_EMERGENCY_TYPE_IGNORED = info ''DUPLICATE_EMERGENCY_TYPE_IGNORED'' ''deti'' False (True)"
| "event_row b DUPLICATE_RESCUER_TYPE_IGNORED = info ''DUPLICATE_RESCUER_TYPE_IGNORED'' ''drti'' False (True)"
| "event_row b WRONG_EMERGENCY_REQUEST_IGNORED_CLIENT = info ''WRONG_EMERGENCY_REQUEST_CLIENT'' ''werc'' False (True)"
| "event_row b WRONG_EMERGENCY_REQUEST_IGNORED_SERVER = info ''WRONG_EMERGENCY_REQUEST_SERVER'' ''wers'' False (True)"
| "event_row b LOGGING_STARTED = info ''LOGGING_STARTED'' ''lsta'' False (True)"
| "event_row b LOGGING_ENDED = info ''LOGGING_ENDED'' ''lend'' True (True)"
| "event_row b PARSING_STARTED = info ''PARSING_STARTED'' ''psta'' False (True)"
| "event_row b PARSING_ENDED = info ''PARSING_ENDED'' ''pend'' False (True)"
| "event_row b RESCUER_TYPE_PARSED = info ''RESCUER_TYPE_PARSED'' ''rtpa'' False (True)"
| "event_row b RESCUER_DIGITAL_TWIN_ADDED = info ''RESCUER_DIGITAL_TWIN_ADDED'' ''rdta'' False (LOG_DTWIN b)"
| "event_row b EMERGENCY_PARSED = info ''EMERGENCY_PARSED'' ''empa'' False (True)"
| "event_row b RESCUER_REQUEST_ADDED = info ''RESCUER_REQUEST_ADDED'' ''rrad'' False (True)"
| "event_row b SERVER_UPDATE = info ''SERVER_UPDATE'' ''seup'' False (True)"
| "event_row b SERVER = info ''SERVER'' ''srvr'' False (True)"
| "event_row b SERVER_CLOCK = info ''SERVER_CLOCK'' ''srvc'' False (LOG_CLOCK b)"
| "event_row b CLIENT = info ''CLIENT'' ''clnt'' False (True)"
| "event_row b EMERGENCY_REQUEST_RECEIVED = info ''EMERGENCY_REQUEST_RECEIVED'' ''errr'' False (True)"
| "event_row b EMERGENCY_REQUEST_PROCESSED = info ''EMERGENCY_REQUEST_PROCESSED'' ''erpr'' False (True)"
| "event_row b MESSAGE_QUEUE_CLIENT = info ''MESSAGE_QUEUE_CLIENT'' ''mqcl'' False (True)"
| "event_row b MESSAGE_QUEUE_SERVER = info ''MESSAGE_QUEUE_SERVER'' ''mqse'' False (True)"
| "event_row b EMERGENCY_STATUS = info ''EMERGENCY_STATUS'' ''esta'' False (True)"
| "event_row b RESCUER_STATUS = info ''RESCUER_STATUS'' ''rsta'' False (True)"
| "event_row b RESCUER_TRAVELLING_STATUS = info ''RESCUER_TRAVELLING_STATUS'' ''rtst'' False (LOG_TRAVEL b)"
| "event_row b EMERGENCY_REQUEST = info ''EMERGENCY_REQUEST'' ''erre'' False (True)"
| "event_row b PROGRAM_ENDED_SUCCESSFULLY = info ''PROGRAM_ENDED_SUCCESSFULLY'' ''pesu'' True (True)"

definition LOG_EVENT_LOOKUP_TABLE :: "log_build \<Rightarrow> log_event_info list" where
  "LOG_EVENT_LOOKUP_TABLE b = map (event_row b) event_types"

definition LOG_EVENT_TYPES_COUNT :: int where
  "LOG_EVENT_TYPES_COUNT = 37"

fun number_in :: "log_event_type list \<Rightarrow> log_event_type \<Rightarrow> int" where
  "number_in [] e = 0"
| "number_in (x # xs) e = (if x = e then 0 else 1 + number_in xs e)"

text \<open>The value of an event as a C integer; a message from the queue may carry any other.\<close>

definition event_number :: "log_event_type \<Rightarrow> int" where
  "event_number e = number_in event_types e"

definition get_log_event_info :: "log_build \<Rightarrow> int \<Rightarrow> log_event_info res" where
  "get_log_event_info b e =
    (if e < 0 \<or> e \<ge> LOG_EVENT_TYPES_COUNT then arr_get (LOG_EVENT_LOOKUP_TABLE b) (event_number NON_APPLICABLE)
     else arr_get (LOG_EVENT_LOOKUP_TABLE b) e)"

section \<open>Messages and texts\<close>

datatype log_role = LOG_ROLE_SERVER | LOG_ROLE_CLIENT

definition AUTOMATIC_LOG_ID :: int where
  "AUTOMATIC_LOG_ID = -1"

definition NON_APPLICABLE_LOG_ID :: int where
  "NON_APPLICABLE_LOG_ID = -2"

definition LOG_EVENT_TOTAL_LENGTH :: nat where
  "LOG_EVENT_TOTAL_LENGTH = 512"

definition MAX_LOG_QUEUE_MESSAGES :: nat where
  "MAX_LOG_QUEUE_MESSAGES = 10"

definition MAX_LOG_EVENT_TIMESTAMP_STRING_LENGTH :: nat where
  "MAX_LOG_EVENT_TIMESTAMP_STRING_LENGTH = 32"

definition MAX_LOG_EVENT_ID_STRING_LENGTH :: nat where
  "MAX_LOG_EVENT_ID_STRING_LENGTH = 16"

definition MAX_LOG_EVENT_FORMATTED_MESSAGE_LENGTH :: nat where
  "MAX_LOG_EVENT_FORMATTED_MESSAGE_LENGTH = 300"

definition MAX_LOG_THREADS :: nat where
  "MAX_LOG_THREADS = 256"

definition MAX_THREAD_NAME_LENGTH :: nat where
  "MAX_THREAD_NAME_LENGTH = 32"

record log_message =
  msg_role :: log_role
  msg_timestamp :: string
  msg_thread_name :: string
  msg_id :: int
  msg_event_type :: int
  formatted_message :: string
  msg_text :: string

text \<open>A format of conversions \<^verbatim>\<open>%s\<close> and \<^verbatim>\<open>%-ns\<close>, which pads on the right.\<close>

datatype format_part = Text string | Padded nat

fun printf :: "format_part list \<Rightarrow> string list \<Rightarrow> string" where
  "printf [] args = []"
| "printf (Text t # ps) args = t @ printf ps args"
| "printf (Padded n # ps) [] = []"
| "printf (Padded n # ps) (a # args) = a @ replicate (n - length a) CHR '' '' @ printf ps args"

text \<open>\<^verbatim>\<open>snprintf\<close> into a buffer of \<open>n\<close> bytes.\<close>

definition snprintf :: "nat \<Rightarrow> string \<Rightarrow> string" where
  "snprintf n s = take (n - 1) s"

definition timestamp_text :: "nat \<Rightarrow> nat \<Rightarrow> string" where
  "timestamp_text seconds milliseconds =
     digits_of seconds @ replicate (3 - length (digits_of milliseconds)) CHR ''0'' @ digits_of milliseconds"

section \<open>The state of the log in a process\<close>

record logging_config =
  logging_syntax :: "format_part list"
  non_applicable_log_id_string :: string
  log_to_file :: bool
  log_to_stdout :: bool
  flush_every_n :: int

definition server_logging_config :: logging_config where
  "server_logging_config = \<lparr>logging_syntax = [Text ''['', Padded 0, Text ''] ['', Padded 0, Text ''] ['', Padded 0,
       Text ''] ('', Padded 0, Text '') '', Padded 0, Text [CHR 0x0A]],
     non_applicable_log_id_string = ''N/A'', log_to_file = True, log_to_stdout = True, flush_every_n = 2\<rparr>"

text \<open>
  A slot of the table of thread names whose number is 0 is empty. The queue is the one of the
  server, to which both processes write.
\<close>

record logger =
  log_role :: log_role
  log_config :: logging_config
  file_is_open :: bool
  log_file :: "string list"
  log_stdout :: "string list"
  lines_logged_since_last_flush :: int
  flushed_stdout_n_times :: int
  logger_running :: bool
  queue_was_opened :: bool
  thread_names :: "(nat \<times> string) list"
  log_event_counters :: "int list"
  log_mq :: "log_message list"

section \<open>Thread names\<close>

fun slot_of :: "nat \<Rightarrow> (nat \<times> string) list \<Rightarrow> nat option" where
  "slot_of tid [] = None"
| "slot_of tid ((t, name) # ts) = (if t \<noteq> 0 \<and> t = tid then Some 0 else map_option Suc (slot_of tid ts))"

fun free_slot :: "(nat \<times> string) list \<Rightarrow> nat option" where
  "free_slot [] = None"
| "free_slot ((t, name) # ts) = (if t = 0 then Some 0 else map_option Suc (free_slot ts))"

definition log_register_this_thread :: "nat \<Rightarrow> string option \<Rightarrow> logger \<Rightarrow> logger" where
  "log_register_this_thread me name L =
    (let n = (case name of None \<Rightarrow> ''unnamed thread'' | Some n \<Rightarrow> n) in
     if slot_of me (thread_names L) \<noteq> None then L
     else case free_slot (thread_names L) of
       None \<Rightarrow> L
     | Some i \<Rightarrow> L\<lparr>thread_names := (thread_names L)[i := (me, snprintf MAX_THREAD_NAME_LENGTH n)]\<rparr>)"

definition log_get_current_thread_name :: "nat \<Rightarrow> logger \<Rightarrow> string" where
  "log_get_current_thread_name me L =
    (case slot_of me (thread_names L) of None \<Rightarrow> ''unnamed thread'' | Some i \<Rightarrow> snd (thread_names L ! i))"

section \<open>Writing and reading\<close>

definition assemble_log_text :: "log_build \<Rightarrow> log_message \<Rightarrow> logger \<Rightarrow> (string \<times> logger) res" where
  "assemble_log_text b m L =
     rbind (get_log_event_info b (msg_event_type m)) (\<lambda>inf.
     let idx = (if msg_event_type m \<ge> 0 \<and> msg_event_type m < LOG_EVENT_TYPES_COUNT then msg_event_type m
                else event_number NON_APPLICABLE) in
     rbind (if msg_id m = AUTOMATIC_LOG_ID then
              rbind (arr_get (log_event_counters L) idx) (\<lambda>c.
              rbind (arr_set (log_event_counters L) idx (c + 1)) (\<lambda>cs.
                Inr (snprintf MAX_LOG_EVENT_ID_STRING_LENGTH (decimal c), L\<lparr>log_event_counters := cs\<rparr>)))
            else if msg_id m = NON_APPLICABLE_LOG_ID then
              Inr (snprintf MAX_LOG_EVENT_ID_STRING_LENGTH (non_applicable_log_id_string (log_config L)), L)
            else Inr (snprintf MAX_LOG_EVENT_ID_STRING_LENGTH (decimal (msg_id m)), L)) (\<lambda>(out_id, L1).
     Inr (snprintf LOG_EVENT_TOTAL_LENGTH (printf (logging_syntax (log_config L1))
            [msg_timestamp m, out_id, event_name inf, msg_thread_name m, formatted_message m]), L1)))"

definition print_line :: "string \<Rightarrow> logger \<Rightarrow> logger res" where
  "print_line t L =
    (if log_to_stdout (log_config L) then
       (if flush_every_n (log_config L) = 0 then Inl DivisionByZero
        else Inr (L\<lparr>log_stdout := log_stdout L @ [t], flushed_stdout_n_times := flushed_stdout_n_times L + 1\<rparr>))
     else Inr L)"

text \<open>Sending to a full queue waits for a reader: there is no result yet (\<open>None\<close>).\<close>

definition log_event :: "log_build \<Rightarrow> nat \<Rightarrow> nat \<Rightarrow> nat \<Rightarrow> int \<Rightarrow> log_event_type \<Rightarrow> string \<Rightarrow> logger \<Rightarrow> logger option res" where
  "log_event b me seconds milliseconds ident e message L =
     rbind (get_log_event_info b (event_number e)) (\<lambda>inf.
     if \<not> is_to_log inf then Inr (Some L)
     else
       let m = \<lparr>msg_role = log_role L,
            msg_timestamp = snprintf MAX_LOG_EVENT_TIMESTAMP_STRING_LENGTH (timestamp_text seconds milliseconds),
            msg_thread_name = snprintf MAX_THREAD_NAME_LENGTH (log_get_current_thread_name me L),
            msg_id = ident, msg_event_type = event_number e,
            formatted_message = snprintf MAX_LOG_EVENT_FORMATTED_MESSAGE_LENGTH message, msg_text = []\<rparr>
       in rbind (assemble_log_text b m L) (\<lambda>(t, L1).
          rbind (print_line t L1) (\<lambda>L2.
          if \<not> log_to_file (log_config L2) \<or> \<not> queue_was_opened L2 then Inr (Some L2)
          else if length (log_mq L2) \<ge> MAX_LOG_QUEUE_MESSAGES then Inr None
          else Inr (Some (L2\<lparr>log_mq := log_mq L2 @ [m\<lparr>msg_text := t\<rparr>]\<rparr>)))))"

definition logger_write_line :: "log_build \<Rightarrow> log_message \<Rightarrow> logger \<Rightarrow> logger res" where
  "logger_write_line b m L =
    (if \<not> log_to_file (log_config L) \<or> \<not> file_is_open L then Inr L
     else if msg_role m \<noteq> log_role L then
       rbind (assemble_log_text b m L) (\<lambda>(t, L1). Inr (L1\<lparr>log_file := log_file L1 @ [t]\<rparr>))
     else Inr (L\<lparr>log_file := log_file L @ [msg_text m]\<rparr>))"

text \<open>One round of the logger thread; without a message it waits.\<close>

definition logger_round :: "log_build \<Rightarrow> logger \<Rightarrow> logger option res" where
  "logger_round b L =
    (case log_mq L of
       [] \<Rightarrow> Inr None
     | m # ms \<Rightarrow>
         let m1 = m\<lparr>msg_text := take (LOG_EVENT_TOTAL_LENGTH - 1) (msg_text m)\<rparr>;
             L1 = L\<lparr>log_mq := ms\<rparr>
         in rbind (get_log_event_info b (msg_event_type m1)) (\<lambda>inf.
            if \<not> is_to_log inf then Inr (Some L1)
            else rbind (logger_write_line b m1 L1) (\<lambda>L2.
              let L3 = L2\<lparr>lines_logged_since_last_flush := lines_logged_since_last_flush L2 + 1\<rparr>;
                  L4 = (if is_terminating inf \<and> msg_role m1 = log_role L3 then L3\<lparr>logger_running := False\<rparr> else L3)
              in Inr (Some (if lines_logged_since_last_flush L4 \<ge> flush_every_n (log_config L4)
                   then L4\<lparr>lines_logged_since_last_flush := 0\<rparr> else L4)))))"

text \<open>The loop of the thread on what is in the queue, and what follows it; \<open>None\<close> if it still waits.\<close>

fun logger_loop :: "log_build \<Rightarrow> nat \<Rightarrow> logger \<Rightarrow> logger option res" where
  "logger_loop b 0 L = Inr None"
| "logger_loop b (Suc n) L =
    (if \<not> logger_running L then Inr (Some (L\<lparr>file_is_open := False\<rparr>))
     else rbind (logger_round b L) (\<lambda>r. case r of None \<Rightarrow> Inr None | Some L1 \<Rightarrow> logger_loop b n L1))"

definition logger_thread :: "log_build \<Rightarrow> logger \<Rightarrow> logger option res" where
  "logger_thread b L =
     logger_loop b (Suc (Suc (length (log_mq L)))) (if log_to_file (log_config L) then L\<lparr>file_is_open := True\<rparr> else L)"

text \<open>What the log does before the process ends: a fatal error, and the parsing errors.\<close>

definition fatal_type :: "log_role \<Rightarrow> log_event_type" where
  "fatal_type r = (if r = LOG_ROLE_CLIENT then FATAL_ERROR_CLIENT else FATAL_ERROR)"

definition log_fatal :: "log_build \<Rightarrow> nat \<Rightarrow> nat \<Rightarrow> nat \<Rightarrow> string \<Rightarrow> logger \<Rightarrow> logger option res" where
  "log_fatal b me seconds ms message L =
     log_event b me seconds ms NON_APPLICABLE_LOG_ID (fatal_type (log_role L))
       (snprintf MAX_LOG_EVENT_FORMATTED_MESSAGE_LENGTH message) L"

definition log_parsing_error :: "log_build \<Rightarrow> nat \<Rightarrow> nat \<Rightarrow> nat \<Rightarrow> string \<Rightarrow> logger \<Rightarrow> logger option res" where
  "log_parsing_error b me seconds ms message L =
     log_event b me seconds ms NON_APPLICABLE_LOG_ID PARSING_ERROR
       (snprintf MAX_LOG_EVENT_FORMATTED_MESSAGE_LENGTH message) L"

text \<open>
  \<open>opened\<close> says whether a client finds the queue within its attempts; the server creates it. The
  counters are static, so they start at 0.
\<close>

definition log_init :: "log_build \<Rightarrow> nat \<Rightarrow> nat \<Rightarrow> nat \<Rightarrow> log_role \<Rightarrow> logging_config \<Rightarrow> bool \<Rightarrow> logger \<Rightarrow> logger option res" where
  "log_init b me seconds ms role conf opened L =
    (let L1 = L\<lparr>log_role := role, log_config := conf, file_is_open := False, flushed_stdout_n_times := 0,
           thread_names := replicate MAX_LOG_THREADS (0, []), logger_running := (role = LOG_ROLE_SERVER)\<rparr>;
         L2 = (case role of
             LOG_ROLE_SERVER \<Rightarrow> if log_to_file conf then L1\<lparr>queue_was_opened := True, log_mq := []\<rparr>
                               else L1\<lparr>queue_was_opened := False\<rparr>
           | LOG_ROLE_CLIENT \<Rightarrow> if opened then L1\<lparr>queue_was_opened := True\<rparr> else L1);
         name = (case role of LOG_ROLE_SERVER \<Rightarrow> ''SERVER'' | LOG_ROLE_CLIENT \<Rightarrow> ''CLIENT'')
     in log_event b me seconds ms NON_APPLICABLE_LOG_ID LOGGING_STARTED
          (''('' @ name @ '') Inizio del Logging!'') (log_register_this_thread me (Some name) L2))"

definition log_close :: "log_build \<Rightarrow> nat \<Rightarrow> nat \<Rightarrow> nat \<Rightarrow> logger \<Rightarrow> logger option res" where
  "log_close b me seconds ms L =
     (case log_role L of
       LOG_ROLE_CLIENT \<Rightarrow> log_event b me seconds ms NON_APPLICABLE_LOG_ID LOGGING_ENDED ''(CLIENT) Logging terminato :)'' L
     | LOG_ROLE_SERVER \<Rightarrow>
         rbind (log_event b me seconds ms NON_APPLICABLE_LOG_ID LOGGING_ENDED ''(SERVER) Logging terminato :)'' L) (\<lambda>r.
         case r of
           None \<Rightarrow> Inr None
         | Some L1 \<Rightarrow>
             if log_to_file (log_config L1) \<and> queue_was_opened L1 then
               rbind (logger_loop b (Suc (Suc (length (log_mq L1)))) L1) (\<lambda>r.
               Inr (map_option (\<lambda>L2. L2\<lparr>logger_running := False, queue_was_opened := False\<rparr>) r))
             else Inr (Some L1)))"

section \<open>The table\<close>

lemma event_types_all: "e \<in> set event_types"
  by (cases e) (simp_all add: event_types_def)

lemma event_rows:
  "length (event_name (event_row b e)) < 64 \<and> length (event_code (event_row b e)) < 5
    \<and> (is_terminating (event_row b e) \<longrightarrow> is_to_log (event_row b e))"
  by (cases e) (simp_all add: info_def)

lemma length_event_types: "length event_types = 37"
  by (simp add: event_types_def)

lemma get_log_event_info:
  "get_log_event_info b e = Inr (event_row b (if 0 \<le> e \<and> e < 37 then event_types ! nat e else NON_APPLICABLE))"
proof (cases "0 \<le> e \<and> e < 37")
  case True
  then have n: "nat e < 37" by linarith
  then have "nat e < length (LOG_EVENT_LOOKUP_TABLE b)" by (simp add: LOG_EVENT_LOOKUP_TABLE_def length_event_types)
  then have "arr_get (LOG_EVENT_LOOKUP_TABLE b) (int (nat e)) = Inr (LOG_EVENT_LOOKUP_TABLE b ! nat e)" by (rule arr_nth)
  then show ?thesis using True n
    by (simp add: get_log_event_info_def LOG_EVENT_TYPES_COUNT_def LOG_EVENT_LOOKUP_TABLE_def length_event_types)
next
  case False
  then show ?thesis
    by (auto simp: get_log_event_info_def LOG_EVENT_TYPES_COUNT_def LOG_EVENT_LOOKUP_TABLE_def event_number_def event_types_def arr_get_def)
qed

text \<open>The row a number gets.\<close>

definition numbered_row :: "log_build \<Rightarrow> int \<Rightarrow> log_event_info" where
  "numbered_row b e = event_row b (if 0 \<le> e \<and> e < 37 then event_types ! nat e else NON_APPLICABLE)"

lemma get_log_event_info_row: "get_log_event_info b e = Inr (numbered_row b e)"
  by (simp add: get_log_event_info numbered_row_def)

lemma event_number_row: "0 \<le> event_number e \<and> event_number e < 37 \<and> event_types ! nat (event_number e) = e"
  by (cases e) (simp_all add: event_number_def event_types_def)

lemma numbered_row_of_event [simp]: "numbered_row b (event_number e) = event_row b e"
  using event_number_row [of e] by (simp add: numbered_row_def)

lemma info_of_event [simp]: "get_log_event_info b (event_number e) = Inr (event_row b e)"
  using event_number_row [of e] by (simp add: get_log_event_info)

text \<open>
  C36. The table of the events is well formed: whatever number a message carries, the look-up stays
  in the table and gives a row whose name and code fit their fields; a number of the enumeration
  gets the row of its event, every other that of \<open>NON_APPLICABLE\<close>; an event that ends the log is
  always logged, so the thread that reads the log sees it; and the codes tell the events apart.
\<close>

theorem log_table_well_formed:
  "\<exists>r. get_log_event_info b e = Inr r \<and> length (event_name r) < 64 \<and> length (event_code r) < 5
    \<and> (is_terminating r \<longrightarrow> is_to_log r)
    \<and> r = event_row b (if 0 \<le> e \<and> e < LOG_EVENT_TYPES_COUNT then event_types ! nat e else NON_APPLICABLE)
    \<and> distinct (map (\<lambda>t. event_code (event_row b t)) event_types) \<and> distinct event_types
    \<and> LOG_EVENT_TYPES_COUNT = int (length event_types)"
proof -
  have "distinct (map (\<lambda>t. event_code (event_row b t)) event_types)" by (simp add: event_types_def info_def)
  moreover have "distinct event_types" by (simp add: event_types_def)
  ultimately show ?thesis using event_rows [of b]
    by (simp add: get_log_event_info LOG_EVENT_TYPES_COUNT_def length_event_types)
qed

theorem log_table_well_formed_witness:
  "get_log_event_info LOG_DEFAULT 17 = Inr (event_row LOG_DEFAULT LOGGING_ENDED) \<and> is_to_log (event_row LOG_DEFAULT LOGGING_ENDED)"
proof -
  have e: "event_types ! 17 = LOGGING_ENDED" by (simp add: event_types_def)
  have "is_terminating (event_row LOG_DEFAULT LOGGING_ENDED)" by (simp add: info_def)
  then show ?thesis using log_table_well_formed [of LOG_DEFAULT 17] e by (simp add: LOG_EVENT_TYPES_COUNT_def)
qed

section \<open>The lines\<close>

lemma length_snprintf: "0 < n \<Longrightarrow> length (snprintf n s) < n"
  by (simp add: snprintf_def)

lemma snprintf_fits: "length s < n \<Longrightarrow> snprintf n s = s"
  by (simp add: snprintf_def)

lemma event_name_short: "length (event_name (numbered_row b e)) \<le> 63"
  using event_rows [of b] by (simp add: numbered_row_def less_Suc_eq_le [symmetric])

text \<open>A line of the server before the buffer cuts it.\<close>

definition server_line :: "log_build \<Rightarrow> string \<Rightarrow> log_message \<Rightarrow> string" where
  "server_line b ident m = ''['' @ msg_timestamp m @ ''] ['' @ ident @ ''] ['' @ event_name (numbered_row b (msg_event_type m))
     @ ''] ('' @ msg_thread_name m @ '') '' @ formatted_message m @ [CHR 0x0A]"

text \<open>The logger as the server sets it up.\<close>

definition server_logger :: "logger \<Rightarrow> bool" where
  "server_logger L \<longleftrightarrow> log_role L = LOG_ROLE_SERVER \<and> log_config L = server_logging_config
     \<and> length (log_event_counters L) = 37 \<and> queue_was_opened L"

lemma assemble_log_text_server:
  assumes "log_config L = server_logging_config" and "length (log_event_counters L) = 37"
  shows "\<exists>ident cs. assemble_log_text b m L = Inr (snprintf LOG_EVENT_TOTAL_LENGTH (server_line b ident m), L\<lparr>log_event_counters := cs\<rparr>)
    \<and> length cs = 37 \<and> length ident < 16 \<and> (msg_id m = NON_APPLICABLE_LOG_ID \<longrightarrow> ident = ''N/A'')"
proof -
  let ?e = "msg_event_type m"
  let ?idx = "if ?e \<ge> 0 \<and> ?e < LOG_EVENT_TYPES_COUNT then ?e else event_number NON_APPLICABLE"
  let ?c = "log_event_counters L ! nat ?idx"
  have idx: "0 \<le> ?idx" "nat ?idx < length (log_event_counters L)"
    using assms(2) event_number_row [of NON_APPLICABLE] by (auto simp: LOG_EVENT_TYPES_COUNT_def)
  have get: "arr_get (log_event_counters L) ?idx = Inr ?c"
    "arr_set (log_event_counters L) ?idx v = Inr ((log_event_counters L)[nat ?idx := v])" for v
    using idx by (simp_all add: arr_get_def arr_set_def)
  have short: "length (snprintf MAX_LOG_EVENT_ID_STRING_LENGTH s) < 16" for s
    using length_snprintf [of 16] by (simp add: MAX_LOG_EVENT_ID_STRING_LENGTH_def)
  have na: "snprintf MAX_LOG_EVENT_ID_STRING_LENGTH ''N/A'' = ''N/A''"
    by (simp add: MAX_LOG_EVENT_ID_STRING_LENGTH_def snprintf_def)
  note defs = assemble_log_text_def get_log_event_info_row Let_def server_line_def assms(1) server_logging_config_def
  have found: ?thesis if "assemble_log_text b m L = Inr (snprintf LOG_EVENT_TOTAL_LENGTH (server_line b i m), L\<lparr>log_event_counters := cs\<rparr>)"
      and "length cs = 37" "length i < 16" "msg_id m = NON_APPLICABLE_LOG_ID \<longrightarrow> i = ''N/A''" for i cs
    using that by blast
  consider "msg_id m = AUTOMATIC_LOG_ID" | "msg_id m = NON_APPLICABLE_LOG_ID"
    | "msg_id m \<noteq> AUTOMATIC_LOG_ID" "msg_id m \<noteq> NON_APPLICABLE_LOG_ID" by blast
  then show ?thesis
  proof cases
    case 1
    then have "assemble_log_text b m L = Inr (snprintf LOG_EVENT_TOTAL_LENGTH
        (server_line b (snprintf MAX_LOG_EVENT_ID_STRING_LENGTH (decimal ?c)) m),
        L\<lparr>log_event_counters := (log_event_counters L)[nat ?idx := ?c + 1]\<rparr>)"
      using get by (simp add: defs)
    then show ?thesis
      by (rule found) (use 1 assms(2) short in \<open>simp_all add: AUTOMATIC_LOG_ID_def NON_APPLICABLE_LOG_ID_def\<close>)
  next
    case 2
    then have "assemble_log_text b m L = Inr (snprintf LOG_EVENT_TOTAL_LENGTH (server_line b ''N/A'' m),
        L\<lparr>log_event_counters := log_event_counters L\<rparr>)"
      by (simp add: defs na AUTOMATIC_LOG_ID_def NON_APPLICABLE_LOG_ID_def)
    then show ?thesis by (rule found) (simp_all add: assms(2))
  next
    case 3
    then have "assemble_log_text b m L = Inr (snprintf LOG_EVENT_TOTAL_LENGTH
        (server_line b (snprintf MAX_LOG_EVENT_ID_STRING_LENGTH (decimal (msg_id m))) m),
        L\<lparr>log_event_counters := log_event_counters L\<rparr>)"
      by (simp add: defs)
    then show ?thesis by (rule found) (use 3 assms(2) short in simp_all)
  qed
qed

text \<open>
  A line of the server's log is never cut off: whatever the event and its text, the buffer of
  512 bytes holds the whole line, the number in it included.
\<close>

theorem server_lines_fit:
  assumes "log_config L = server_logging_config" and "length (log_event_counters L) = 37"
    and "length (msg_timestamp m) < MAX_LOG_EVENT_TIMESTAMP_STRING_LENGTH"
    and "length (msg_thread_name m) < MAX_THREAD_NAME_LENGTH"
    and "length (formatted_message m) < MAX_LOG_EVENT_FORMATTED_MESSAGE_LENGTH"
  shows "\<exists>ident inf L'. assemble_log_text b m L = Inr (''['' @ msg_timestamp m @ ''] ['' @ ident @ ''] ['' @ event_name inf @ ''] (''
      @ msg_thread_name m @ '') '' @ formatted_message m @ [CHR 0x0A], L')
    \<and> get_log_event_info b (msg_event_type m) = Inr inf \<and> length ident < 16"
proof -
  obtain ident L' where a: "assemble_log_text b m L = Inr (snprintf LOG_EVENT_TOTAL_LENGTH (server_line b ident m), L')"
    and id: "length ident < 16"
    using assemble_log_text_server [OF assms(1,2), of b m] by blast
  have "length (server_line b ident m) \<le> 511"
    using assms(3-5) id event_name_short [of b "msg_event_type m"]
    unfolding server_line_def MAX_LOG_EVENT_TIMESTAMP_STRING_LENGTH_def MAX_THREAD_NAME_LENGTH_def
      MAX_LOG_EVENT_FORMATTED_MESSAGE_LENGTH_def
    by (simp only: length_append list.size)
  then have "snprintf LOG_EVENT_TOTAL_LENGTH (server_line b ident m) = server_line b ident m"
    unfolding LOG_EVENT_TOTAL_LENGTH_def by (intro snprintf_fits) linarith
  then show ?thesis using a id unfolding server_line_def by (metis get_log_event_info_row)
qed

definition empty_logger :: logger where
  "empty_logger = \<lparr>log_role = LOG_ROLE_SERVER, log_config = server_logging_config, file_is_open = True, log_file = [],
     log_stdout = [], lines_logged_since_last_flush = 0, flushed_stdout_n_times = 0, logger_running = True,
     queue_was_opened = True, thread_names = [(7, ''SERVER''), (0, [])], log_event_counters = replicate 37 0, log_mq = []\<rparr>"

definition sample_message :: "log_role \<Rightarrow> log_event_type \<Rightarrow> log_message" where
  "sample_message r e = \<lparr>msg_role = r, msg_timestamp = ''1700000000001'', msg_thread_name = ''UPDATER'', msg_id = AUTOMATIC_LOG_ID,
     msg_event_type = event_number e, formatted_message = ''promossa'', msg_text = ''a line''\<rparr>"

theorem server_lines_fit_witness:
  "\<exists>ident L'. assemble_log_text LOG_DEFAULT (sample_message LOG_ROLE_CLIENT EMERGENCY_STATUS) empty_logger
     = Inr (''[1700000000001] ['' @ ident @ ''] [EMERGENCY_STATUS] (UPDATER) promossa'' @ [CHR 0x0A], L')"
proof -
  let ?m = "sample_message LOG_ROLE_CLIENT EMERGENCY_STATUS"
  have m: "msg_timestamp ?m = ''1700000000001''" "msg_thread_name ?m = ''UPDATER''" "formatted_message ?m = ''promossa''"
      "msg_event_type ?m = event_number EMERGENCY_STATUS"
    by (simp_all add: sample_message_def)
  have "log_config empty_logger = server_logging_config" "length (log_event_counters empty_logger) = 37"
    by (simp_all add: empty_logger_def)
  from server_lines_fit [OF this, of ?m LOG_DEFAULT] show ?thesis
    unfolding m by (auto simp: MAX_LOG_EVENT_TIMESTAMP_STRING_LENGTH_def MAX_THREAD_NAME_LENGTH_def
      MAX_LOG_EVENT_FORMATTED_MESSAGE_LENGTH_def info_def)
qed

section \<open>The thread that writes the file\<close>

lemma logger_write_line_server:
  assumes "server_logger L" and "file_is_open L"
  shows "\<exists>t cs. logger_write_line b m L = Inr (L\<lparr>log_event_counters := cs, log_file := log_file L @ [t]\<rparr>)
    \<and> length cs = 37 \<and> (msg_role m = LOG_ROLE_SERVER \<longrightarrow> t = msg_text m)"
proof (cases "msg_role m = LOG_ROLE_SERVER")
  case True
  then have "logger_write_line b m L = Inr (L\<lparr>log_event_counters := log_event_counters L, log_file := log_file L @ [msg_text m]\<rparr>)
      \<and> length (log_event_counters L) = 37 \<and> (msg_role m = LOG_ROLE_SERVER \<longrightarrow> msg_text m = msg_text m)"
    using assms by (simp add: logger_write_line_def server_logger_def server_logging_config_def)
  then show ?thesis by blast
next
  case False
  have conf: "log_config L = server_logging_config" "length (log_event_counters L) = 37" "log_role L = LOG_ROLE_SERVER"
    "log_to_file (log_config L)"
    using assms(1) by (simp_all add: server_logger_def server_logging_config_def)
  obtain t cs where "assemble_log_text b m L = Inr (t, L\<lparr>log_event_counters := cs\<rparr>)" "length cs = 37"
    using assemble_log_text_server [OF conf(1,2), of b m] by blast
  then have "logger_write_line b m L = Inr (L\<lparr>log_event_counters := cs, log_file := log_file L @ [t]\<rparr>)"
    using False assms(2) conf by (simp add: logger_write_line_def)
  then show ?thesis using False \<open>length cs = 37\<close> by blast
qed

text \<open>A message that ends the log: one of the server itself whose event is terminating.\<close>

definition ends_log :: "log_build \<Rightarrow> log_message \<Rightarrow> bool" where
  "ends_log b m \<longleftrightarrow> is_terminating (numbered_row b (msg_event_type m)) \<and> msg_role m = LOG_ROLE_SERVER"

lemma logger_round_server:
  assumes "server_logger L" and "file_is_open L" and "log_mq L = m # ms" and "is_to_log (numbered_row b (msg_event_type m))"
  shows "\<exists>t L1. logger_round b L = Inr (Some L1) \<and> log_mq L1 = ms \<and> log_file L1 = log_file L @ [t]
    \<and> server_logger L1 \<and> file_is_open L1 \<and> (msg_role m = LOG_ROLE_SERVER \<longrightarrow> t = take 511 (msg_text m))
    \<and> (logger_running L1 \<longleftrightarrow> logger_running L \<and> \<not> ends_log b m)"
proof -
  let ?m = "m\<lparr>msg_text := take 511 (msg_text m)\<rparr>"
  have "server_logger (L\<lparr>log_mq := ms\<rparr>)" "file_is_open (L\<lparr>log_mq := ms\<rparr>)" using assms(1,2) by (simp_all add: server_logger_def)
  from logger_write_line_server [OF this, of b ?m] obtain t cs
    where w: "logger_write_line b ?m (L\<lparr>log_mq := ms\<rparr>) = Inr (L\<lparr>log_mq := ms, log_event_counters := cs, log_file := log_file L @ [t]\<rparr>)"
      and cs: "length cs = 37" and t: "msg_role m = LOG_ROLE_SERVER \<longrightarrow> t = take 511 (msg_text m)"
    by auto
  have role: "log_role L = LOG_ROLE_SERVER" using assms(1) by (simp add: server_logger_def)
  obtain L1 where "logger_round b L = Inr (Some L1)" and L1: "log_mq L1 = ms" "log_file L1 = log_file L @ [t]"
      "log_role L1 = log_role L" "log_config L1 = log_config L" "log_event_counters L1 = cs"
      "file_is_open L1 = file_is_open L" "queue_was_opened L1 = queue_was_opened L"
      "logger_running L1 \<longleftrightarrow> logger_running L \<and> \<not> ends_log b m"
    using assms(3,4) w role
    by (auto simp: logger_round_def Let_def get_log_event_info_row LOG_EVENT_TOTAL_LENGTH_def ends_log_def)
  then show ?thesis using assms(1,2) cs t by (auto simp: server_logger_def)
qed

lemma logger_loop_stopped: "\<not> logger_running L \<Longrightarrow> logger_loop b (Suc n) L = Inr (Some (L\<lparr>file_is_open := False\<rparr>))"
  by simp

lemma logger_loop_more: "logger_loop b n L = Inr (Some L1) \<Longrightarrow> logger_loop b (Suc n) L = Inr (Some L1)"
proof (induction n arbitrary: L)
  case (Suc n)
  show ?case
  proof (cases "logger_running L")
    case True
    then obtain L2 where "logger_round b L = Inr (Some L2)" "logger_loop b n L2 = Inr (Some L1)"
      using Suc.prems by (auto simp: rbind_def split: sum.splits option.splits)
    then show ?thesis using Suc.IH [of L2] True by simp
  qed (use Suc.prems in simp)
qed simp

text \<open>Until a message ends the log, every message becomes a line.\<close>

lemma logger_loop_server:
  assumes "server_logger L" and "file_is_open L" and "logger_running L" and "log_mq L = ms @ [m]"
    and "\<forall>x\<in>set (ms @ [m]). is_to_log (numbered_row b (msg_event_type x))"
    and "\<forall>x\<in>set ms. \<not> ends_log b x" and "ends_log b m"
  shows "\<exists>ts L1. logger_loop b (Suc (Suc (length ms))) L = Inr (Some L1) \<and> log_file L1 = log_file L @ ts @ [take 511 (msg_text m)]
    \<and> list_all2 (\<lambda>x t. msg_role x = LOG_ROLE_SERVER \<longrightarrow> t = take 511 (msg_text x)) ms ts
    \<and> log_mq L1 = [] \<and> server_logger L1 \<and> \<not> file_is_open L1 \<and> \<not> logger_running L1"
  using assms
proof (induction ms arbitrary: L)
  case Nil
  from Nil.prems logger_round_server [of L m "[]" b] obtain L1
    where "logger_round b L = Inr (Some L1)" "log_mq L1 = []" "log_file L1 = log_file L @ [take 511 (msg_text m)]"
      "server_logger L1" "\<not> logger_running L1"
    by (auto simp: ends_log_def)
  then show ?case using Nil.prems(3) by (auto simp: server_logger_def)
next
  case (Cons x ms)
  from Cons.prems logger_round_server [of L x "ms @ [m]" b] obtain t L1
    where r: "logger_round b L = Inr (Some L1)" and mq: "log_mq L1 = ms @ [m]" and f: "log_file L1 = log_file L @ [t]"
      and inv: "server_logger L1" "file_is_open L1" "logger_running L1"
      and t: "msg_role x = LOG_ROLE_SERVER \<longrightarrow> t = take 511 (msg_text x)"
    by auto
  from Cons.IH [OF inv mq] Cons.prems(5-7) obtain ts L2
    where l: "logger_loop b (Suc (Suc (length ms))) L1 = Inr (Some L2)" "log_file L2 = log_file L1 @ ts @ [take 511 (msg_text m)]"
      and ts: "list_all2 (\<lambda>x t. msg_role x = LOG_ROLE_SERVER \<longrightarrow> t = take 511 (msg_text x)) ms ts"
      and e: "log_mq L2 = [] \<and> server_logger L2 \<and> \<not> file_is_open L2 \<and> \<not> logger_running L2"
    by auto
  have "logger_loop b (Suc (Suc (length (x # ms)))) L = Inr (Some L2)" using r l(1) Cons.prems(3) by simp
  moreover have "log_file L2 = log_file L @ (t # ts) @ [take 511 (msg_text m)]" using f l(2) by simp
  moreover have "list_all2 (\<lambda>x t. msg_role x = LOG_ROLE_SERVER \<longrightarrow> t = take 511 (msg_text x)) (x # ms) (t # ts)" using ts t by simp
  ultimately show ?case using e by blast
qed

section \<open>Logging an event\<close>

lemma log_event_server:
  assumes "server_logger L" and "is_to_log (event_row b e)"
  shows "\<exists>m ident cs. log_event b me s ms i e body L
      = (if length (log_mq L) \<ge> MAX_LOG_QUEUE_MESSAGES then Inr None
         else Inr (Some (L\<lparr>log_event_counters := cs, log_stdout := log_stdout L @ [msg_text m],
           flushed_stdout_n_times := flushed_stdout_n_times L + 1, log_mq := log_mq L @ [m]\<rparr>)))
    \<and> msg_role m = LOG_ROLE_SERVER \<and> msg_event_type m = event_number e \<and> length cs = 37
    \<and> formatted_message m = take 299 body \<and> msg_text m = take 511 (server_line b ident m)
    \<and> (i = NON_APPLICABLE_LOG_ID \<longrightarrow> ident = ''N/A'')"
proof -
  let ?m = "\<lparr>msg_role = log_role L,
      msg_timestamp = snprintf MAX_LOG_EVENT_TIMESTAMP_STRING_LENGTH (timestamp_text s ms),
      msg_thread_name = snprintf MAX_THREAD_NAME_LENGTH (log_get_current_thread_name me L),
      msg_id = i, msg_event_type = event_number e,
      formatted_message = snprintf MAX_LOG_EVENT_FORMATTED_MESSAGE_LENGTH body, msg_text = []\<rparr>"
  have conf: "log_config L = server_logging_config" "length (log_event_counters L) = 37" "log_role L = LOG_ROLE_SERVER"
    "queue_was_opened L" using assms(1) by (simp_all add: server_logger_def)
  have flags: "log_to_stdout server_logging_config" "log_to_file server_logging_config" "flush_every_n server_logging_config \<noteq> 0"
    by (simp_all add: server_logging_config_def)
  obtain ident cs where a: "assemble_log_text b ?m L = Inr (snprintf LOG_EVENT_TOTAL_LENGTH (server_line b ident ?m), L\<lparr>log_event_counters := cs\<rparr>)"
    and cs: "length cs = 37" and id: "i = NON_APPLICABLE_LOG_ID \<longrightarrow> ident = ''N/A''"
    using assemble_log_text_server [OF conf(1,2), of b ?m] by auto
  let ?t = "snprintf LOG_EVENT_TOTAL_LENGTH (server_line b ident ?m)"
  let ?n = "?m\<lparr>msg_text := ?t\<rparr>"
  have "log_event b me s ms i e body L = (if length (log_mq L) \<ge> MAX_LOG_QUEUE_MESSAGES then Inr None
         else Inr (Some (L\<lparr>log_event_counters := cs, log_stdout := log_stdout L @ [msg_text ?n],
           flushed_stdout_n_times := flushed_stdout_n_times L + 1, log_mq := log_mq L @ [?n]\<rparr>)))"
    using a assms(2) conf flags by (simp add: log_event_def Let_def print_line_def)
  moreover have "server_line b ident ?n = server_line b ident ?m" by (simp add: server_line_def)
  ultimately show ?thesis using cs id conf(3)
    by (intro exI [of _ ?n] exI [of _ ident] exI [of _ cs])
      (simp add: snprintf_def MAX_LOG_EVENT_FORMATTED_MESSAGE_LENGTH_def LOG_EVENT_TOTAL_LENGTH_def)
qed

lemma log_event_accepted:
  assumes "server_logger L" and "is_to_log (event_row b e)" and "length (log_mq L) < 10"
  obtains m ident L1 where "log_event b me s ms i e body L = Inr (Some L1)" and "log_mq L1 = log_mq L @ [m]"
    and "server_logger L1" and "log_file L1 = log_file L" and "file_is_open L1 = file_is_open L"
    and "logger_running L1 = logger_running L" and "msg_role m = LOG_ROLE_SERVER" and "msg_event_type m = event_number e"
    and "formatted_message m = take 299 body" and "msg_text m = take 511 (server_line b ident m)"
    and "i = NON_APPLICABLE_LOG_ID \<longrightarrow> ident = ''N/A''"
proof -
  obtain m ident cs where e: "log_event b me s ms i e body L = Inr (Some (L\<lparr>log_event_counters := cs, log_stdout := log_stdout L @ [msg_text m],
           flushed_stdout_n_times := flushed_stdout_n_times L + 1, log_mq := log_mq L @ [m]\<rparr>))"
    and m: "msg_role m = LOG_ROLE_SERVER" "msg_event_type m = event_number e" "formatted_message m = take 299 body"
      "msg_text m = take 511 (server_line b ident m)" "i = NON_APPLICABLE_LOG_ID \<longrightarrow> ident = ''N/A''" and cs: "length cs = 37"
    using log_event_server [OF assms(1,2), of me s ms i body] assms(3) by (auto simp: MAX_LOG_QUEUE_MESSAGES_def)
  have "server_logger (L\<lparr>log_event_counters := cs, log_stdout := log_stdout L @ [msg_text m],
           flushed_stdout_n_times := flushed_stdout_n_times L + 1, log_mq := log_mq L @ [m]\<rparr>)"
    using assms(1) cs by (simp add: server_logger_def)
  then show ?thesis using that [OF e _ _ _ _ _ m] by simp
qed

lemma log_event_full:
  assumes "server_logger L" and "is_to_log (event_row b e)" and "10 \<le> length (log_mq L)"
  shows "log_event b me s ms i e body L = Inr None"
  using log_event_server [OF assms(1,2), of me s ms i body] assms(3) by (auto simp: MAX_LOG_QUEUE_MESSAGES_def)

text \<open>Events logged one after the other, each by a thread at some time.\<close>

fun log_events :: "log_build \<Rightarrow> (nat \<times> nat \<times> nat \<times> int \<times> log_event_type \<times> string) list \<Rightarrow> logger \<Rightarrow> logger option res" where
  "log_events b [] L = Inr (Some L)"
| "log_events b ((me, s, ms, i, e, body) # xs) L =
     rbind (log_event b me s ms i e body L) (\<lambda>r. case r of None \<Rightarrow> Inr None | Some L1 \<Rightarrow> log_events b xs L1)"

lemma log_events_fill:
  assumes "server_logger L" and "\<forall>(me, s, ms, i, e, body)\<in>set xs. is_to_log (event_row b e)" and "length (log_mq L) + length xs \<le> 10"
  shows "\<exists>L1. log_events b xs L = Inr (Some L1) \<and> length (log_mq L1) = length (log_mq L) + length xs \<and> log_file L1 = log_file L
    \<and> logger_running L1 = logger_running L \<and> server_logger L1"
  using assms
proof (induction xs arbitrary: L)
  case (Cons x xs)
  obtain me s ms i e body where x: "x = (me, s, ms, i, e, body)" by (cases x)
  have pre: "is_to_log (event_row b e)" "length (log_mq L) < 10" using Cons.prems x by auto
  show ?case
  proof (rule log_event_accepted [OF Cons.prems(1) pre, of me s ms i body], goal_cases)
    case (1 m ident L1)
    then show ?case using Cons.IH [of L1] Cons.prems(2,3) x by auto
  qed
qed simp

text \<open>
  C34. Closing the log of the server writes all of it: however many messages wait in the queue, of
  the server or of clients, and whatever the clients said last, the thread that writes the file
  writes one line for each in their order, those of the server as they were printed, then the
  closing line, then ends, so the server that waits for it goes on.
\<close>

theorem log_close_writes_everything:
  assumes "server_logger L" and "file_is_open L" and "logger_running L" and "length (log_mq L) < 10"
    and "\<forall>x\<in>set (log_mq L). is_to_log (numbered_row b (msg_event_type x)) \<and> \<not> ends_log b x"
  shows "\<exists>ts m L1. log_close b me s ms L = Inr (Some L1)
    \<and> log_file L1 = log_file L @ ts @ [take 511 (server_line b ''N/A'' m)]
    \<and> list_all2 (\<lambda>x t. msg_role x = LOG_ROLE_SERVER \<longrightarrow> t = take 511 (msg_text x)) (log_mq L) ts
    \<and> msg_event_type m = event_number LOGGING_ENDED \<and> formatted_message m = ''(SERVER) Logging terminato :)''
    \<and> log_mq L1 = [] \<and> \<not> file_is_open L1 \<and> \<not> logger_running L1"
proof (rule log_event_accepted [OF assms(1) _ assms(4), of b LOGGING_ENDED me s ms NON_APPLICABLE_LOG_ID "''(SERVER) Logging terminato :)''"], goal_cases)
  case 1
  then show ?case by (simp add: info_def)
next
  case (2 m ident L1)
  have row: "is_to_log (event_row b LOGGING_ENDED)" "is_terminating (event_row b LOGGING_ENDED)" by (simp_all add: info_def)
  have "\<exists>ts L2. logger_loop b (Suc (Suc (length (log_mq L)))) L1 = Inr (Some L2) \<and> log_file L2 = log_file L1 @ ts @ [take 511 (msg_text m)]
    \<and> list_all2 (\<lambda>x t. msg_role x = LOG_ROLE_SERVER \<longrightarrow> t = take 511 (msg_text x)) (log_mq L) ts
    \<and> log_mq L2 = [] \<and> server_logger L2 \<and> \<not> file_is_open L2 \<and> \<not> logger_running L2"
    using 2 assms row by (intro logger_loop_server) (auto simp: ends_log_def)
  then obtain ts L2 where l: "logger_loop b (Suc (Suc (length (log_mq L)))) L1 = Inr (Some L2)"
      "log_file L2 = log_file L1 @ ts @ [take 511 (msg_text m)]" "log_mq L2 = []" "\<not> file_is_open L2"
      "list_all2 (\<lambda>x t. msg_role x = LOG_ROLE_SERVER \<longrightarrow> t = take 511 (msg_text x)) (log_mq L) ts"
    by blast
  have "logger_loop b (Suc (Suc (length (log_mq L1)))) L1 = logger_loop b (Suc (Suc (Suc (length (log_mq L))))) L1"
    using 2(2) by simp
  also have "\<dots> = Inr (Some L2)" by (rule logger_loop_more [OF l(1)])
  finally have l1: "logger_loop b (Suc (Suc (length (log_mq L1)))) L1 = Inr (Some L2)" .
  have role: "log_role L = LOG_ROLE_SERVER" "log_to_file (log_config L1)" "queue_was_opened L1"
    using assms(1) 2(3) by (simp_all add: server_logger_def server_logging_config_def)
  have "log_close b me s ms L = Inr (Some (L2\<lparr>logger_running := False, queue_was_opened := False\<rparr>))"
    using 2(1) l1 role by (simp add: log_close_def)
  moreover have "msg_text m = take 511 (server_line b ''N/A'' m)" using 2(10,11) by simp
  moreover have "formatted_message m = ''(SERVER) Logging terminato :)''" using 2(9) by simp
  ultimately show ?case using l 2(4,8)
    by (intro exI [of _ ts] exI [of _ m] exI [of _ "L2\<lparr>logger_running := False, queue_was_opened := False\<rparr>"]) simp
qed

theorem log_close_writes_everything_witness:
  "\<exists>t m L1. log_close LOG_DEFAULT 7 1700000000 5
      (empty_logger\<lparr>log_mq := [sample_message LOG_ROLE_CLIENT LOGGING_ENDED, sample_message LOG_ROLE_SERVER EMERGENCY_STATUS]\<rparr>) = Inr (Some L1)
    \<and> log_file L1 = [t, ''a line'', take 511 (server_line LOG_DEFAULT ''N/A'' m)] \<and> msg_event_type m = event_number LOGGING_ENDED"
proof -
  let ?L = "empty_logger\<lparr>log_mq := [sample_message LOG_ROLE_CLIENT LOGGING_ENDED, sample_message LOG_ROLE_SERVER EMERGENCY_STATUS]\<rparr>"
  have "server_logger ?L" "file_is_open ?L" "logger_running ?L" "length (log_mq ?L) < 10"
    by (simp_all add: server_logger_def empty_logger_def)
  moreover have "\<forall>x\<in>set (log_mq ?L). is_to_log (numbered_row LOG_DEFAULT (msg_event_type x)) \<and> \<not> ends_log LOG_DEFAULT x"
    by (simp add: sample_message_def ends_log_def info_def)
  ultimately obtain ts m L1 where "log_close LOG_DEFAULT 7 1700000000 5 ?L = Inr (Some L1)"
      "log_file L1 = ts @ [take 511 (server_line LOG_DEFAULT ''N/A'' m)]" "msg_event_type m = event_number LOGGING_ENDED"
      "list_all2 (\<lambda>x t. msg_role x = LOG_ROLE_SERVER \<longrightarrow> t = take 511 (msg_text x)) (log_mq ?L) ts"
    using log_close_writes_everything [of ?L LOG_DEFAULT 7 1700000000 5] by (auto simp: empty_logger_def)
  then show ?thesis by (auto simp: list_all2_Cons1 sample_message_def)
qed

text \<open>
  C35. A fatal error ends the thread that writes the log, not the server: once it has read the
  fatal error it closes the file and reads nothing more, so while the server shuts down ten events
  fill the queue, none of them reaches the file, and the thread that logs the eleventh waits for ever.
\<close>

theorem log_after_fatal_blocks:
  assumes "server_logger L" and "file_is_open L" and "logger_running L" and "log_mq L = []"
    and "length xs = 10" and "\<forall>(me, s, ms, i, e, body)\<in>set xs. is_to_log (event_row b e)" and "is_to_log (event_row b e)"
  shows "\<exists>L1 L2 L3 m. log_fatal b me s ms body L = Inr (Some L1) \<and> logger_loop b 2 L1 = Inr (Some L2)
    \<and> log_file L2 = log_file L @ [take 511 (server_line b ''N/A'' m)] \<and> msg_event_type m = event_number FATAL_ERROR
    \<and> log_events b xs L2 = Inr (Some L3) \<and> log_file L3 = log_file L2
    \<and> log_event b me s ms i e body L3 = Inr None \<and> logger_loop b (Suc n) L3 = Inr (Some (L3\<lparr>file_is_open := False\<rparr>))"
proof -
  have row: "is_to_log (event_row b FATAL_ERROR)" "is_terminating (event_row b FATAL_ERROR)" by (simp_all add: info_def)
  have role: "fatal_type (log_role L) = FATAL_ERROR" using assms(1) by (simp add: server_logger_def fatal_type_def)
  have room: "length (log_mq L) < 10" using assms(4) by simp
  obtain m ident L1 where f: "log_fatal b me s ms body L = Inr (Some L1)" "log_mq L1 = [m]" "server_logger L1" "log_file L1 = log_file L"
      "file_is_open L1" "logger_running L1" "msg_role m = LOG_ROLE_SERVER" "msg_event_type m = event_number FATAL_ERROR"
      "msg_text m = take 511 (server_line b ''N/A'' m)"
    by (rule log_event_accepted [OF assms(1) row(1) room, of me s ms NON_APPLICABLE_LOG_ID "snprintf MAX_LOG_EVENT_FORMATTED_MESSAGE_LENGTH body"])
      (use assms(2-4) in \<open>simp add: log_fatal_def role\<close>)
  have "\<exists>ts L2. logger_loop b (Suc (Suc (length ([] :: log_message list)))) L1 = Inr (Some L2) \<and> log_file L2 = log_file L1 @ ts @ [take 511 (msg_text m)]
    \<and> list_all2 (\<lambda>x t. msg_role x = LOG_ROLE_SERVER \<longrightarrow> t = take 511 (msg_text x)) ([] :: log_message list) ts
    \<and> log_mq L2 = [] \<and> server_logger L2 \<and> \<not> file_is_open L2 \<and> \<not> logger_running L2"
    using f row by (intro logger_loop_server) (simp_all add: ends_log_def)
  then obtain L2 where l: "logger_loop b 2 L1 = Inr (Some L2)" "log_file L2 = log_file L @ [take 511 (server_line b ''N/A'' m)]"
      "log_mq L2 = []" "server_logger L2" "\<not> logger_running L2"
    using f by (auto simp: numeral_2_eq_2)
  obtain L3 where e: "log_events b xs L2 = Inr (Some L3)" "length (log_mq L3) = 10" "log_file L3 = log_file L2"
      "\<not> logger_running L3" "server_logger L3"
    using log_events_fill [OF l(4) assms(6)] l(3,5) assms(5) by auto
  have "log_event b me s ms i e body L3 = Inr None" using log_event_full [OF e(5) assms(7)] e(2) by simp
  then show ?thesis using f l e logger_loop_stopped [OF e(4)] by blast
qed

theorem log_after_fatal_blocks_witness:
  "\<exists>L1 L2 L3. log_fatal LOG_DEFAULT 9 1700000000 5 ''uscito dalla mappa'' empty_logger = Inr (Some L1)
    \<and> logger_loop LOG_DEFAULT 2 L1 = Inr (Some L2)
    \<and> log_events LOG_DEFAULT (replicate 10 (7, 1700000000, 6, AUTOMATIC_LOG_ID, SERVER_UPDATE, ''tick'')) L2 = Inr (Some L3)
    \<and> log_event LOG_DEFAULT 9 1700000000 5 AUTOMATIC_LOG_ID SERVER ''uscito dalla mappa'' L3 = Inr None"
proof -
  let ?xs = "replicate 10 (7, 1700000000, 6, AUTOMATIC_LOG_ID, SERVER_UPDATE, ''tick'')"
  have "server_logger empty_logger" "file_is_open empty_logger" "logger_running empty_logger" "log_mq empty_logger = []"
    by (simp_all add: server_logger_def empty_logger_def)
  moreover have "\<forall>(me, s, ms, i, e, body)\<in>set ?xs. is_to_log (event_row LOG_DEFAULT e)" "length ?xs = 10"
    "is_to_log (event_row LOG_DEFAULT SERVER)" by (simp_all add: info_def)
  ultimately show ?thesis
    using log_after_fatal_blocks [of empty_logger ?xs LOG_DEFAULT SERVER 9 1700000000 5 "''uscito dalla mappa''" AUTOMATIC_LOG_ID 0] by blast
qed

end
