(* ===== verification/Doubles.thy ===== *)
theory Doubles
  imports Complex_Main C_Strings
begin

text \<open>
  The numbers of type \<^verbatim>\<open>double\<close> as far as the server computes with them: rational numbers, with a
  result rounded to 53 binary digits, to the nearest and among two nearest to the even one. The
  values the server computes are 0 or far from the ends of the range of exponents.
\<close>

definition two_to :: "int \<Rightarrow> rat" where
  "two_to e = (if 0 \<le> e then 2 ^ nat e else 1 / 2 ^ nat (- e))"

fun digits2 :: "nat \<Rightarrow> nat" where
  "digits2 n = (if n < 2 then 0 else Suc (digits2 (n div 2)))"

declare digits2.simps [simp del]

text \<open>The exponent of the first binary digit of a positive number \<open>p / q\<close>.\<close>

definition binade :: "rat \<Rightarrow> int" where
  "binade x = (let (p, q) = quotient_of x; e = int (digits2 (nat p)) - int (digits2 (nat q))
     in if two_to e \<le> x then e else e - 1)"

definition nearest_even :: "rat \<Rightarrow> int" where
  "nearest_even y = (let f = \<lfloor>y\<rfloor>; d = y - of_int f
     in if d < 1/2 then f else if 1/2 < d then f + 1 else if even f then f else f + 1)"

definition double :: "rat \<Rightarrow> rat" where
  "double x = (if x = 0 then 0
     else let e = binade \<bar>x\<bar> in of_int (nearest_even (x * two_to (52 - e))) * two_to (e - 52))"

text \<open>The conversion to \<^verbatim>\<open>int\<close> of a number that has no fraction is defined only in the range of \<^verbatim>\<open>int\<close>.\<close>

definition int_of_double :: "rat \<Rightarrow> int res" where
  "int_of_double d = (if - INT_MAX - 1 \<le> \<lfloor>d\<rfloor> \<and> \<lfloor>d\<rfloor> \<le> INT_MAX then Inr \<lfloor>d\<rfloor> else Inl SignedOverflow)"

section \<open>Exact results and bounds\<close>

lemma two_to_pos [simp]: "0 < two_to e"
  by (simp add: two_to_def)

lemma two_to_cancel [simp]: "two_to (52 - e) * two_to (e - 52) = 1"
  by (cases "e \<le> 52"; cases "e = 52") (simp_all add: two_to_def)

lemma nearest_even_int [simp]: "nearest_even (of_int k) = k"
  by (simp add: nearest_even_def)

lemma nearest_even_le: "y \<le> of_int k \<Longrightarrow> nearest_even y \<le> k"
proof -
  assume y: "y \<le> of_int k"
  then have f: "\<lfloor>y\<rfloor> \<le> k" by linarith
  show ?thesis
  proof (cases "\<lfloor>y\<rfloor> = k")
    case True
    then have "y = of_int k" using y by linarith
    then show ?thesis by simp
  qed (use f in \<open>auto simp: nearest_even_def Let_def\<close>)
qed

lemma nearest_even_ge: "of_int k \<le> y \<Longrightarrow> k \<le> nearest_even y"
  by (auto simp: nearest_even_def Let_def le_floor_iff intro: order_trans [of k "\<lfloor>y\<rfloor>"])

lemma digits2_bounds: "0 < n \<Longrightarrow> 2 ^ digits2 n \<le> n \<and> n < 2 ^ Suc (digits2 n)"
proof (induction n rule: digits2.induct)
  case (1 n)
  show ?case
  proof (cases "n < 2")
    case True
    then show ?thesis using 1 by (simp add: digits2.simps [of n])
  next
    case False
    then have "2 ^ digits2 (n div 2) \<le> n div 2 \<and> n div 2 < 2 ^ Suc (digits2 (n div 2))" using 1 by simp
    then show ?thesis using False by (simp add: digits2.simps [of n]) linarith
  qed
qed

lemma two_to_diff: "two_to (int a - int b) = 2 ^ a / 2 ^ b"
  by (auto simp: two_to_def nat_diff_distrib' power_diff)

lemma two_to_Suc: "two_to (e + 1) = 2 * two_to e"
proof -
  have "two_to (int a - int b + 1) = 2 * two_to (int a - int b)" for a b
    using two_to_diff [of "Suc a" b] two_to_diff [of a b] by (simp add: algebra_simps)
  moreover have "int (nat e) - int (nat (- e)) = e" by linarith
  ultimately show ?thesis by metis
qed

lemma binade_le:
  assumes "0 < x"
  shows "two_to (binade x) \<le> x"
proof -
  obtain p q where pq: "quotient_of x = (p, q)" by (cases "quotient_of x")
  have q: "0 < q" using quotient_of_denom_pos [OF pq] .
  have x: "x = of_int p / of_int q" using quotient_of_div [OF pq] .
  then have p: "0 < p" using assms q by (simp add: zero_less_divide_iff)
  let ?a = "digits2 (nat p)" and ?b = "digits2 (nat q)"
  have "2 ^ ?a \<le> nat p" "nat q < 2 ^ Suc ?b" using digits2_bounds [of "nat p"] digits2_bounds [of "nat q"] p q by simp_all
  then have "int (2 ^ ?a) \<le> p" "q < int (2 ^ Suc ?b)" using p q by linarith+
  then have "of_int (int (2 ^ ?a)) \<le> (of_int p :: rat)" "of_int q \<le> (of_int (int (2 ^ Suc ?b)) :: rat)"
    by (simp_all only: of_int_le_iff of_int_less_iff less_imp_le)
  then have "(2::rat) ^ ?a \<le> of_int p" "of_int q \<le> (2::rat) ^ Suc ?b" by simp_all
  then have "(2::rat) ^ ?a / 2 ^ Suc ?b \<le> of_int p / of_int q" using p q by (intro frac_le) auto
  then have "two_to (int ?a - int ?b - 1) \<le> x"
    using two_to_diff [of ?a "Suc ?b"] x by (simp add: algebra_simps)
  then show ?thesis using pq by (simp add: binade_def Let_def)
qed

lemma two_to_mono: "a \<le> b \<Longrightarrow> two_to a \<le> two_to b"
proof -
  have "two_to a \<le> two_to (a + int n)" for n
  proof (induction n)
    case (Suc n)
    have "two_to (a + int (Suc n)) = 2 * two_to (a + int n)" using two_to_Suc [of "a + int n"] by (simp add: algebra_simps)
    then show ?case using Suc two_to_pos [of "a + int n"] by linarith
  qed simp
  from this [of "nat (b - a)"] show "a \<le> b \<Longrightarrow> two_to a \<le> two_to b" by simp
qed

lemma binade_small:
  assumes "0 < x" and "x < 2 ^ n"
  shows "binade x < int n"
proof (rule ccontr)
  assume "\<not> binade x < int n"
  then have "two_to (int n) \<le> two_to (binade x)" by (intro two_to_mono) simp
  also have "\<dots> \<le> x" by (rule binade_le [OF assms(1)])
  finally show False using assms(2) by (simp add: two_to_def)
qed

lemma double_exact:
  assumes "x * two_to (52 - binade \<bar>x\<bar>) = of_int k"
  shows "double x = x"
proof (cases "x = 0")
  case False
  have "double x = of_int k * two_to (binade \<bar>x\<bar> - 52)" using False assms by (simp add: double_def Let_def)
  also have "\<dots> = x" unfolding assms [symmetric] by (simp add: mult.assoc)
  finally show ?thesis .
qed (simp add: double_def)

text \<open>Halves of integers of up to 51 binary digits are exact.\<close>

lemma double_half:
  assumes "\<bar>k\<bar> < 2 ^ 52"
  shows "double (of_int k / 2) = of_int k / 2"
proof (cases "k = 0")
  case False
  let ?x = "of_int k / 2 :: rat"
  have "\<bar>of_int k :: rat\<bar> < of_int (2 ^ 52)" using assms by (simp only: of_int_abs [symmetric] of_int_less_iff)
  then have "binade \<bar>?x\<bar> < int 51" using False by (intro binade_small) (simp_all add: abs_divide)
  then have "two_to (52 - binade \<bar>?x\<bar>) = 2 * 2 ^ nat (51 - binade \<bar>?x\<bar>)"
    by (simp add: two_to_def Suc_nat_eq_nat_zadd1 flip: power_Suc)
  then have "?x * two_to (52 - binade \<bar>?x\<bar>) = of_int (k * 2 ^ nat (51 - binade \<bar>?x\<bar>))" by simp
  then show ?thesis by (rule double_exact)
qed (simp add: double_def)

lemma double_int: "\<bar>k\<bar> < 2 ^ 51 \<Longrightarrow> double (of_int k) = of_int k"
  using double_half [of "2 * k"] by simp

text \<open>Rounding does not pass an integer of that size.\<close>

lemma double_bounds:
  assumes "of_int a \<le> x" and "x \<le> of_int b" and "\<bar>a\<bar> < 2 ^ 51" and "\<bar>b\<bar> < 2 ^ 51"
  shows "of_int a \<le> double x" and "double x \<le> of_int b"
proof -
  have "of_int a \<le> double x \<and> double x \<le> of_int b"
  proof (cases "x = 0")
    case True
    then show ?thesis using assms by (simp add: double_def)
  next
    case False
    let ?e = "binade \<bar>x\<bar>" and ?m = "nearest_even (x * two_to (52 - binade \<bar>x\<bar>))"
    have lim: "- (2 ^ 51) < (of_int c :: rat) \<and> of_int c < (2 ^ 51 :: rat)" if "\<bar>c\<bar> < 2 ^ 51" for c
    proof -
      have "- (2 ^ 51) < c" "c < 2 ^ 51" using that by linarith+
      then have "of_int (- (2 ^ 51)) < (of_int c :: rat)" "of_int c < (of_int (2 ^ 51) :: rat)" by (simp_all only: of_int_less_iff)
      then show ?thesis by simp
    qed
    have "\<bar>x\<bar> < 2 ^ 51" using lim [OF assms(3)] lim [OF assms(4)] assms(1,2) by linarith
    then have e: "?e < int 51" using False by (intro binade_small) simp_all
    then have two: "two_to (52 - ?e) = of_int (2 ^ nat (52 - ?e))" by (simp add: two_to_def)
    have "of_int (a * 2 ^ nat (52 - ?e)) \<le> x * two_to (52 - ?e)" "x * two_to (52 - ?e) \<le> of_int (b * 2 ^ nat (52 - ?e))"
      using assms(1,2) unfolding two of_int_mult by (intro mult_right_mono; simp)+
    then have "a * 2 ^ nat (52 - ?e) \<le> ?m" "?m \<le> b * 2 ^ nat (52 - ?e)" by (auto intro: nearest_even_ge nearest_even_le)
    then have "(of_int (a * 2 ^ nat (52 - ?e)) :: rat) \<le> of_int ?m" "(of_int ?m :: rat) \<le> of_int (b * 2 ^ nat (52 - ?e))"
      by (simp_all only: of_int_le_iff)
    moreover have "0 \<le> two_to (?e - 52)" using two_to_pos less_imp_le by blast
    ultimately have "of_int (a * 2 ^ nat (52 - ?e)) * two_to (?e - 52) \<le> of_int ?m * two_to (?e - 52)"
        "of_int ?m * two_to (?e - 52) \<le> of_int (b * 2 ^ nat (52 - ?e)) * two_to (?e - 52)"
      by (blast intro: mult_right_mono)+
    then have "of_int a * (two_to (52 - ?e) * two_to (?e - 52)) \<le> of_int ?m * two_to (?e - 52)"
        "of_int ?m * two_to (?e - 52) \<le> of_int b * (two_to (52 - ?e) * two_to (?e - 52))"
      unfolding two of_int_mult mult.assoc .
    then show ?thesis using False by (simp add: double_def Let_def mult.assoc)
  qed
  then show "of_int a \<le> double x" and "double x \<le> of_int b" by simp_all
qed

end
