(* ===== verification/Positions_Map.thy ===== *)
theory Positions_Map
  imports Json_Visualizer Doubles
begin

text \<open>
  The map in characters that the server writes when it ends, and the function that writes both
  files of the positions: the canvas of \<^verbatim>\<open>json_visualizer.c\<close>, the scaling of the coordinates
  with numbers of type \<^verbatim>\<open>double\<close>, and the text with its border. Whether the memory for the grid is
  there is an argument.
\<close>

section \<open>The canvas\<close>

definition POS_MAX_WIDTH :: int where
  "POS_MAX_WIDTH = 70"

definition POS_EMERGENCY_CHAR :: char where
  "POS_EMERGENCY_CHAR = CHR ''E''"

definition POS_RESCUER_CHAR :: char where
  "POS_RESCUER_CHAR = CHR ''R''"

definition POS_MAP_BORDER_CHAR :: char where
  "POS_MAP_BORDER_CHAR = CHR 0x23"

record ascii_canvas =
  grid :: "char list"
  canvas_width :: int
  canvas_height :: int
  map_w :: int
  map_h :: int
  scale :: rat

definition clampi :: "int \<Rightarrow> int \<Rightarrow> int \<Rightarrow> int" where
  "clampi v lo hi = (if v < lo then lo else if v > hi then hi else v)"

definition canvas_scale_x :: "ascii_canvas \<Rightarrow> int \<Rightarrow> int res" where
  "canvas_scale_x ac X = rbind (int_of_double (double (double (of_int X * scale ac) + 1/2)))
     (\<lambda>px. Inr (clampi px 0 (canvas_width ac - 1)))"

definition canvas_scale_y :: "ascii_canvas \<Rightarrow> int \<Rightarrow> int res" where
  "canvas_scale_y ac Y = rbind (int_of_double (double (double (of_int Y * scale ac) + 1/2)))
     (\<lambda>py. Inr (clampi py 0 (canvas_height ac - 1)))"

text \<open>The product of the two sizes is computed as an \<^verbatim>\<open>int\<close>; the grid has been allocated.\<close>

definition canvas_clear :: "char \<Rightarrow> ascii_canvas \<Rightarrow> ascii_canvas res" where
  "canvas_clear ch ac =
    (if canvas_width ac * canvas_height ac > INT_MAX then Inl SignedOverflow
     else rfold (\<lambda>i ac. rbind (arr_set (grid ac) (int i) ch) (\<lambda>g. Inr (ac\<lparr>grid := g\<rparr>)))
            [0..<nat (canvas_width ac * canvas_height ac)] ac)"

definition plot_char :: "char \<Rightarrow> char \<Rightarrow> char" where
  "plot_char prev ch =
    (if prev = CHR '' '' \<or> prev = ch then ch
     else if prev = POS_RESCUER_CHAR \<and> ch = POS_EMERGENCY_CHAR \<or> prev = POS_EMERGENCY_CHAR \<and> ch = POS_RESCUER_CHAR then CHR ''X''
     else ch)"

definition canvas_plot :: "int \<Rightarrow> int \<Rightarrow> char \<Rightarrow> ascii_canvas \<Rightarrow> ascii_canvas res" where
  "canvas_plot px py ch ac =
    (let idx = py * canvas_width ac + px in
     rbind (arr_get (grid ac) idx) (\<lambda>prev.
     rbind (arr_set (grid ac) idx (plot_char prev ch)) (\<lambda>g. Inr (ac\<lparr>grid := g\<rparr>))))"

text \<open>A character at a place of the map.\<close>

definition plot_at :: "int \<Rightarrow> int \<Rightarrow> char \<Rightarrow> ascii_canvas \<Rightarrow> ascii_canvas res" where
  "plot_at X Y ch ac = rbind (canvas_scale_x ac X) (\<lambda>px. rbind (canvas_scale_y ac Y) (\<lambda>py. canvas_plot px py ch ac))"

definition plot_base :: "rescuer_type option \<Rightarrow> ascii_canvas \<Rightarrow> ascii_canvas res" where
  "plot_base rp ac = (case rp of None \<Rightarrow> Inr ac | Some r \<Rightarrow> plot_at (base_x r) (base_y r) POS_RESCUER_CHAR ac)"

definition canvas_plot_rescuer_bases :: "server \<Rightarrow> ascii_canvas \<Rightarrow> ascii_canvas res" where
  "canvas_plot_rescuer_bases s =
     rfold (\<lambda>i ac. rbind (arr_get (rescuer_types s) (int i)) (\<lambda>rp. plot_base rp ac)) [0..<nat (rescuer_types_count s)]"

definition canvas_plot_emergency_cb :: "server \<Rightarrow> emg_ptr \<Rightarrow> ascii_canvas \<Rightarrow> ascii_canvas res" where
  "canvas_plot_emergency_cb s e ac = plot_at (emg_x (emg_at s e)) (emg_y (emg_at s e)) POS_EMERGENCY_CHAR ac"

definition plot_active :: "server \<Rightarrow> emg_ptr option \<Rightarrow> ascii_canvas \<Rightarrow> ascii_canvas res" where
  "plot_active s ep ac =
    (case ep of None \<Rightarrow> Inr ac
     | Some e \<Rightarrow> plot_at (emg_x (emg_at s e)) (emg_y (emg_at s e)) POS_EMERGENCY_CHAR ac)"

definition canvas_plot_active_emergencies :: "server \<Rightarrow> ascii_canvas \<Rightarrow> ascii_canvas res" where
  "canvas_plot_active_emergencies s =
     rfold (\<lambda>i ac. rbind (arr_get (slots s) (int i)) (\<lambda>ep. plot_active s ep ac)) [0..<WORKER_THREADS_NUMBER]"

definition border_line :: "ascii_canvas \<Rightarrow> string" where
  "border_line ac = replicate (nat (canvas_width ac + 2)) POS_MAP_BORDER_CHAR @ newline"

definition canvas_row :: "ascii_canvas \<Rightarrow> nat \<Rightarrow> string res" where
  "canvas_row ac y =
     rbind (rfold (\<lambda>x t. rbind (arr_get (grid ac) (int y * canvas_width ac + int x)) (\<lambda>c. Inr (t @ [c])))
              [0..<nat (canvas_width ac)] [POS_MAP_BORDER_CHAR])
       (\<lambda>t. Inr (t @ [POS_MAP_BORDER_CHAR] @ newline))"

definition ascii_write_with_borders :: "string \<Rightarrow> ascii_canvas \<Rightarrow> json_visualizer \<Rightarrow> json_visualizer res" where
  "ascii_write_with_borders out ac v =
     rbind (rfold (\<lambda>y v. rbind (canvas_row ac y) (\<lambda>t. Inr (fprintf out t v)))
              [0..<nat (canvas_height ac)] (fprintf out (border_line ac) v))
       (\<lambda>v. Inr (fprintf out (border_line ac) v))"

section \<open>Writing the positions\<close>

definition new_canvas :: "int \<Rightarrow> int \<Rightarrow> ascii_canvas res" where
  "new_canvas w h =
    (let W = (if w > POS_MAX_WIDTH then POS_MAX_WIDTH else w); W' = (if W \<le> 0 then 1 else W);
         k = double (of_int W' / of_int w)
     in rbind (int_of_double (double (double (of_int h * k) + 1/2))) (\<lambda>H.
        let H' = (if H \<le> 0 then 1 else H)
        in Inr \<lparr>grid = [], canvas_width = W', canvas_height = H', map_w = w, map_h = h, scale = k\<rparr>))"

definition draw_map :: "server \<Rightarrow> ascii_canvas \<Rightarrow> ascii_canvas res" where
  "draw_map s ac =
     rbind (canvas_clear (CHR '' '') ac) (\<lambda>a1.
     rbind (canvas_plot_rescuer_bases s a1) (\<lambda>a2.
     rbind (canvas_plot_active_emergencies s a2) (\<lambda>a3.
     rbind (rfold (canvas_plot_emergency_cb s) (concat (lq_levels (completed_emergencies s))) a3)
       (rfold (canvas_plot_emergency_cb s) (concat (lq_levels (canceled_emergencies s)))))))"

text \<open>
  The second half of the dump: \<open>None\<close> if the file is not opened. What the fresh grid holds before
  it is cleared is the argument \<open>junk\<close>.
\<close>

definition positions_dump_txt ::
  "(string \<Rightarrow> bool) \<Rightarrow> (string \<Rightarrow> bool) \<Rightarrow> bool \<Rightarrow> (nat \<Rightarrow> char) \<Rightarrow> server \<Rightarrow> string \<Rightarrow> json_visualizer \<Rightarrow>
   (bool option \<times> json_visualizer) res" where
  "positions_dump_txt opens closes memory junk s path v =
    (let (f, v1) = fopen opens path v in
     case f of
       None \<Rightarrow> Inr (None, v1)
     | Some txt \<Rightarrow>
         if env_width s \<le> 0 \<or> env_height s \<le> 0 then
           Inr (Some (closes txt), fprintf txt (''(no map size available)'' @ newline) v1)
         else rbind (new_canvas (env_width s) (env_height s)) (\<lambda>ac.
           if \<not> memory then
             Inr (Some (closes txt), fprintf txt (''(not enough memory for ASCII canvas '' @ decimal (canvas_width ac) @ ''x''
               @ decimal (canvas_height ac) @ '')'' @ newline) v1)
           else
             rbind (draw_map s (ac\<lparr>grid := map junk [0..<nat (canvas_width ac) * nat (canvas_height ac)]\<rparr>)) (\<lambda>ac1.
             rbind (ascii_write_with_borders txt ac1 v1) (\<lambda>v2. Inr (Some (closes txt), v2)))))"

text \<open>The two paths may be \<open>NULL\<close> (\<open>None\<close>) or empty.\<close>

definition given :: "string option \<Rightarrow> bool" where
  "given p \<longleftrightarrow> p \<noteq> None \<and> p \<noteq> Some []"

definition json_visualizer_positions_dump ::
  "(string \<Rightarrow> bool) \<Rightarrow> (string \<Rightarrow> bool) \<Rightarrow> bool \<Rightarrow> (nat \<Rightarrow> char) \<Rightarrow> server \<Rightarrow> string option \<Rightarrow> string option \<Rightarrow>
   json_visualizer \<Rightarrow> (bool \<times> json_visualizer) res" where
  "json_visualizer_positions_dump opens closes memory junk s json_path txt_path v =
     rbind (if given json_path then positions_dump_json opens closes s (the json_path) v else Inr (Some True, v)) (\<lambda>(j, v1).
     case j of
       None \<Rightarrow> Inr (False, v1)
     | Some ok_json \<Rightarrow>
         rbind (if given txt_path then positions_dump_txt opens closes memory junk s (the txt_path) v1 else Inr (Some True, v1)) (\<lambda>(t, v2).
         Inr (case t of None \<Rightarrow> ok_json | Some ok_txt \<Rightarrow> ok_json \<and> ok_txt, v2)))"

section \<open>What is drawn\<close>

text \<open>Where a coordinate of the map falls on a side of \<open>n\<close> cells.\<close>

definition cell_of :: "rat \<Rightarrow> nat \<Rightarrow> int \<Rightarrow> int" where
  "cell_of k n X = clampi \<lfloor>double (double (of_int X * k) + 1/2)\<rfloor> 0 (int n - 1)"

lemma cell_of_range: "0 < n \<Longrightarrow> 0 \<le> cell_of k n X \<and> cell_of k n X < int n"
  by (simp add: cell_of_def clampi_def)

lemma scaled:
  assumes "0 \<le> k" and "k \<le> 1" and "\<bar>X\<bar> < INT_MAX"
  shows "int_of_double (double (double (of_int X * k) + 1/2)) = Inr \<lfloor>double (double (of_int X * k) + 1/2)\<rfloor>"
    and "\<lfloor>double (double (of_int X * k) + 1/2)\<rfloor> \<le> \<bar>X\<bar> + 1"
proof -
  have big: "\<bar>\<bar>X\<bar>\<bar> < (2::int) ^ 51" "\<bar>- \<bar>X\<bar>\<bar> < (2::int) ^ 51" "\<bar>\<bar>X\<bar> + 1\<bar> < (2::int) ^ 51"
    using assms(3) by (simp_all add: INT_MAX_def)
  have "\<bar>of_int X * k\<bar> \<le> of_int \<bar>X\<bar> * 1" unfolding abs_mult using assms(1,2) by (intro mult_mono) auto
  then have "of_int (- \<bar>X\<bar>) \<le> of_int X * k" "of_int X * k \<le> of_int \<bar>X\<bar>" by (simp_all add: abs_le_iff)
  from double_bounds [OF this big(2,1)]
  have "of_int (- \<bar>X\<bar>) \<le> double (of_int X * k) + 1/2" "double (of_int X * k) + 1/2 \<le> of_int (\<bar>X\<bar> + 1)" by simp_all
  from double_bounds [OF this big(2,3)]
  have d: "- \<bar>X\<bar> \<le> \<lfloor>double (double (of_int X * k) + 1/2)\<rfloor>" "\<lfloor>double (double (of_int X * k) + 1/2)\<rfloor> \<le> \<bar>X\<bar> + 1"
    by (simp_all add: le_floor_iff floor_le_iff)
  then show "\<lfloor>double (double (of_int X * k) + 1/2)\<rfloor> \<le> \<bar>X\<bar> + 1" by simp
  show "int_of_double (double (double (of_int X * k) + 1/2)) = Inr \<lfloor>double (double (of_int X * k) + 1/2)\<rfloor>"
    using d assms(3) by (simp add: int_of_double_def)
qed

lemma rounded_exact:
  assumes "\<bar>X\<bar> < INT_MAX"
  shows "\<lfloor>double (double (of_int X * 1) + 1/2)\<rfloor> = X"
proof -
  have "double (of_int X) = of_int X" using assms by (intro double_int) (simp add: INT_MAX_def)
  moreover have half: "(of_int (2 * X + 1) / 2 :: rat) = of_int X + 1/2" by (simp add: add_divide_distrib)
  moreover have "double (of_int X + 1/2) = of_int X + 1/2"
    unfolding half [symmetric] using assms by (intro double_half) (simp add: INT_MAX_def)
  moreover have "\<lfloor>of_int X + 1/2 :: rat\<rfloor> = X" by (simp add: floor_unique)
  ultimately show ?thesis by (simp only: mult_1_right)
qed

lemma cell_of_exact: "\<bar>X\<bar> < INT_MAX \<Longrightarrow> cell_of 1 n X = clampi X 0 (int n - 1)"
  using rounded_exact [of X] by (simp only: cell_of_def)

text \<open>A canvas of \<open>n\<close> by \<open>m\<close> cells that shows the picture \<open>f\<close>.\<close>

definition shows_picture :: "nat \<Rightarrow> nat \<Rightarrow> rat \<Rightarrow> (int \<Rightarrow> int \<Rightarrow> char) \<Rightarrow> ascii_canvas \<Rightarrow> bool" where
  "shows_picture n m k f ac \<longleftrightarrow> canvas_width ac = int n \<and> canvas_height ac = int m \<and> scale ac = k \<and> length (grid ac) = m * n
     \<and> (\<forall>y < m. \<forall>x < n. grid ac ! (y * n + x) = f (int x) (int y))"

lemma cell_index: "x < n \<Longrightarrow> y < m \<Longrightarrow> y * n + x < m * (n::nat)"
proof -
  assume "x < n" "y < m"
  then have "y * n + x < Suc y * n" by simp
  also have "\<dots> \<le> m * n" using \<open>y < m\<close> by (intro mult_le_mono1) simp
  finally show ?thesis .
qed

lemma cell_index_inject:
  assumes "x < n" and "x' < (n::nat)"
  shows "y * n + x = y' * n + x' \<longleftrightarrow> x = x' \<and> y = y'"
  using assms by (metis add.commute add_right_cancel div_mult_self1_is_m div_mult_self3 div_less mod_less mod_mult_self3 add_0
      less_nat_zero_code neq0_conv)

lemma plot_at_shows:
  assumes "shows_picture n m k f ac" and "0 < n" and "0 < m" and "0 \<le> k" and "k \<le> 1" and "\<bar>X\<bar> < INT_MAX" and "\<bar>Y\<bar> < INT_MAX"
  shows "\<exists>ac'. plot_at X Y ch ac = Inr ac'
    \<and> shows_picture n m k (\<lambda>x y. if x = cell_of k n X \<and> y = cell_of k m Y then plot_char (f x y) ch else f x y) ac'"
proof -
  let ?px = "nat (cell_of k n X)" and ?py = "nat (cell_of k m Y)"
  have px: "int ?px = cell_of k n X" "?px < n" and py: "int ?py = cell_of k m Y" "?py < m"
    using cell_of_range [OF assms(2), of k X] cell_of_range [OF assms(3), of k Y] by linarith+
  note ac = assms(1) [unfolded shows_picture_def]
  have xy: "canvas_scale_x ac X = Inr (int ?px)" "canvas_scale_y ac Y = Inr (int ?py)"
    using ac scaled(1) [OF assms(4,5,6)] scaled(1) [OF assms(4,5,7)] px(1) py(1)
    by (simp_all add: canvas_scale_x_def canvas_scale_y_def cell_of_def)
  let ?i = "?py * n + ?px"
  have i: "?i < length (grid ac)" using ac cell_index [OF px(2) py(2)] by simp
  have "int ?py * int n + int ?px = int ?i" by simp
  then have "plot_at X Y ch ac = Inr (ac\<lparr>grid := (grid ac)[?i := plot_char (grid ac ! ?i) ch]\<rparr>)"
    using xy ac i by (simp only: plot_at_def canvas_plot_def rbind_simps Let_def arr_nth arr_set_nth)
  moreover have "(grid ac)[?i := c] ! (y * n + x) = (if int x = cell_of k n X \<and> int y = cell_of k m Y then c else f (int x) (int y))"
    if "y < m" "x < n" for x y c
  proof -
    have "(grid ac)[?i := c] ! (y * n + x) = (if ?px = x \<and> ?py = y then c else grid ac ! (y * n + x))"
      using that cell_index [OF that(2,1)] i px(2) by (simp only: nth_list_update cell_index_inject)
    moreover have "grid ac ! (y * n + x) = f (int x) (int y)" using ac that by simp
    moreover have "?px = x \<and> ?py = y \<longleftrightarrow> int x = cell_of k n X \<and> int y = cell_of k m Y" using px(1) py(1) by linarith
    ultimately show ?thesis by simp
  qed
  moreover have "grid ac ! ?i = f (cell_of k n X) (cell_of k m Y)" using ac px py by simp
  ultimately have "plot_at X Y ch ac = Inr (ac\<lparr>grid := (grid ac)[?i := plot_char (grid ac ! ?i) ch]\<rparr>)"
    "shows_picture n m k (\<lambda>x y. if x = cell_of k n X \<and> y = cell_of k m Y then plot_char (f x y) ch else f x y)
      (ac\<lparr>grid := (grid ac)[?i := plot_char (grid ac ! ?i) ch]\<rparr>)"
    using ac by (simp_all add: shows_picture_def)
  then show ?thesis by blast
qed

text \<open>The same character at several places.\<close>

definition plot_points :: "char \<Rightarrow> (int \<times> int) list \<Rightarrow> ascii_canvas \<Rightarrow> ascii_canvas res" where
  "plot_points ch = rfold (\<lambda>(X, Y). plot_at X Y ch)"

definition points_at :: "rat \<Rightarrow> nat \<Rightarrow> nat \<Rightarrow> (int \<times> int) list \<Rightarrow> int \<Rightarrow> int \<Rightarrow> nat" where
  "points_at k n m pts x y = count_if (\<lambda>(X, Y). cell_of k n X = x \<and> cell_of k m Y = y) pts"

lemma plot_points_shows:
  assumes "shows_picture n m k f ac" and "0 < n" and "0 < m" and "0 \<le> k" and "k \<le> 1"
    and "\<forall>(X, Y)\<in>set pts. \<bar>X\<bar> < INT_MAX \<and> \<bar>Y\<bar> < INT_MAX"
  shows "\<exists>ac'. plot_points ch pts ac = Inr ac'
    \<and> shows_picture n m k (\<lambda>x y. ((\<lambda>c. plot_char c ch) ^^ points_at k n m pts x y) (f x y)) ac'"
  using assms
proof (induction pts arbitrary: f ac)
  case Nil
  then show ?case by (simp add: plot_points_def points_at_def)
next
  case (Cons p pts)
  obtain X Y where p: "p = (X, Y)" by (cases p)
  let ?g = "\<lambda>x y. if x = cell_of k n X \<and> y = cell_of k m Y then plot_char (f x y) ch else f x y"
  from plot_at_shows [OF Cons.prems(1-5), of X Y ch] obtain ac1
    where a: "plot_at X Y ch ac = Inr ac1" "shows_picture n m k ?g ac1" using Cons.prems(6) p by auto
  from Cons.IH [OF a(2) Cons.prems(2-5)] Cons.prems(6) obtain ac2
    where b: "plot_points ch pts ac1 = Inr ac2"
      "shows_picture n m k (\<lambda>x y. ((\<lambda>c. plot_char c ch) ^^ points_at k n m pts x y) (?g x y)) ac2" by auto
  have "((\<lambda>c. plot_char c ch) ^^ points_at k n m (p # pts) x y) (f x y)
      = ((\<lambda>c. plot_char c ch) ^^ points_at k n m pts x y) (?g x y)" for x y
    by (simp only: points_at_def p count_if_simps split_conv funpow_Suc_right o_apply split: if_splits) auto
  moreover have "plot_points ch (p # pts) ac = Inr ac2" using a(1) b(1) by (simp add: plot_points_def p)
  ultimately show ?case using b(2) by simp
qed

text \<open>
  What a cell shows: a base, an emergency, or a collision. A second emergency on a collision
  hides it.
\<close>

definition cell_char :: "nat \<Rightarrow> nat \<Rightarrow> char" where
  "cell_char b e = (if e = 0 then (if b = 0 then CHR '' '' else CHR ''R'') else if 0 < b \<and> e = 1 then CHR ''X'' else CHR ''E'')"

lemma cell_char_plots:
  "((\<lambda>c. plot_char c POS_EMERGENCY_CHAR) ^^ e) (((\<lambda>c. plot_char c POS_RESCUER_CHAR) ^^ b) (CHR '' '')) = cell_char b e"
proof -
  have r: "((\<lambda>c. plot_char c POS_RESCUER_CHAR) ^^ b) (CHR '' '') = (if b = 0 then CHR '' '' else CHR ''R'')"
    by (induction b) (simp_all add: plot_char_def POS_RESCUER_CHAR_def POS_EMERGENCY_CHAR_def)
  have e: "((\<lambda>c. plot_char c POS_EMERGENCY_CHAR) ^^ e) (CHR ''E'') = CHR ''E''" for e
    by (induction e) (simp_all add: plot_char_def POS_EMERGENCY_CHAR_def)
  have x: "((\<lambda>c. plot_char c POS_EMERGENCY_CHAR) ^^ e) (CHR ''X'') = (if e = 0 then CHR ''X'' else CHR ''E'')" for e
    by (induction e) (simp_all add: plot_char_def POS_RESCUER_CHAR_def POS_EMERGENCY_CHAR_def)
  show ?thesis
  proof (cases e)
    case (Suc e')
    have first: "((\<lambda>c. plot_char c POS_EMERGENCY_CHAR) ^^ Suc e') z = ((\<lambda>c. plot_char c POS_EMERGENCY_CHAR) ^^ e') (plot_char z POS_EMERGENCY_CHAR)" for z
      by (simp only: funpow_Suc_right o_apply)
    have "plot_char (CHR '' '') POS_EMERGENCY_CHAR = CHR ''E''" "plot_char (CHR ''R'') POS_EMERGENCY_CHAR = CHR ''X''"
      by (simp_all add: plot_char_def POS_RESCUER_CHAR_def POS_EMERGENCY_CHAR_def)
    then show ?thesis unfolding Suc r first by (simp add: e x cell_char_def)
  qed (simp add: r cell_char_def)
qed

lemma canvas_clear_shows:
  assumes "canvas_width ac = int n" and "canvas_height ac = int m" and "length (grid ac) = m * n" and "int (m * n) \<le> INT_MAX"
  shows "\<exists>ac'. canvas_clear ch ac = Inr ac' \<and> shows_picture n m (scale ac) (\<lambda>x y. ch) ac'"
proof -
  have set: "(replicate i ch @ drop i (grid ac))[i := ch] = replicate (Suc i) ch @ drop (Suc i) (grid ac)" if "i < length (grid ac)" for i
  proof -
    have "drop i (grid ac) = grid ac ! i # drop (Suc i) (grid ac)" using that by (simp add: Cons_nth_drop_Suc)
    then show ?thesis by (simp add: list_update_append flip: replicate_append_same)
  qed
  have "rfold (\<lambda>i ac. rbind (arr_set (grid ac) (int i) ch) (\<lambda>g. Inr (ac\<lparr>grid := g\<rparr>))) [0..<i] ac
      = Inr (ac\<lparr>grid := replicate i ch @ drop i (grid ac)\<rparr>)" if "i \<le> length (grid ac)" for i
    using that by (induction i) (simp_all add: rfold_append set del: replicate_Suc drop_Suc)
  from this [of "m * n"] have "canvas_clear ch ac = Inr (ac\<lparr>grid := replicate (m * n) ch\<rparr>)"
    using assms by (simp add: canvas_clear_def mult.commute nat_mult_distrib flip: of_nat_mult)
  then show ?thesis using assms by (simp add: shows_picture_def cell_index)
qed

text \<open>The places of the bases and of the emergencies.\<close>

definition bases :: "server \<Rightarrow> (int \<times> int) list" where
  "bases s = [(base_x r, base_y r). Some r \<leftarrow> take (nat (rescuer_types_count s)) (rescuer_types s)]"

definition seen_emergencies :: "server \<Rightarrow> emg_ptr list" where
  "seen_emergencies s = [e. Some e \<leftarrow> take WORKER_THREADS_NUMBER (slots s)]
     @ concat (lq_levels (completed_emergencies s)) @ concat (lq_levels (canceled_emergencies s))"

definition emergency_place :: "server \<Rightarrow> emg_ptr \<Rightarrow> int \<times> int" where
  "emergency_place s e = (emg_x (emg_at s e), emg_y (emg_at s e))"

lemma plot_points_append: "plot_points ch (ps @ qs) = (\<lambda>ac. rbind (plot_points ch ps ac) (plot_points ch qs))"
  by (simp add: plot_points_def rfold_append fun_eq_iff)

lemma plot_bases:
  assumes "arrays_fit s"
  shows "canvas_plot_rescuer_bases s ac = plot_points POS_RESCUER_CHAR (bases s) ac"
proof -
  have "rfold plot_base rs ac = plot_points POS_RESCUER_CHAR [(base_x r, base_y r). Some r \<leftarrow> rs] ac" for rs
    by (induction rs arbitrary: ac)
      (auto simp: plot_points_def plot_base_def rbind_def split: option.split sum.split)
  then show ?thesis using assms by (simp add: canvas_plot_rescuer_bases_def bases_def arrays_fit_def rfold_cells)
qed

lemma plot_emergencies:
  "rfold (canvas_plot_emergency_cb s) es = plot_points POS_EMERGENCY_CHAR (map (emergency_place s) es)"
  unfolding plot_points_def fun_eq_iff rfold_map by (intro allI rfold_cong) (simp add: canvas_plot_emergency_cb_def emergency_place_def)

lemma plot_slots:
  assumes "arrays_fit s"
  shows "canvas_plot_active_emergencies s ac
    = plot_points POS_EMERGENCY_CHAR (map (emergency_place s) [e. Some e \<leftarrow> take WORKER_THREADS_NUMBER (slots s)]) ac"
proof -
  have "rfold (plot_active s) es ac = plot_points POS_EMERGENCY_CHAR (map (emergency_place s) [e. Some e \<leftarrow> es]) ac" for es
    by (induction es arbitrary: ac)
      (auto simp: plot_points_def plot_active_def emergency_place_def rbind_def split: option.split sum.split)
  then show ?thesis using assms by (simp add: canvas_plot_active_emergencies_def arrays_fit_def rfold_cells)
qed

definition places_small :: "server \<Rightarrow> bool" where
  "places_small s \<longleftrightarrow> (\<forall>(X, Y)\<in>set (bases s @ map (emergency_place s) (seen_emergencies s)). \<bar>X\<bar> < INT_MAX \<and> \<bar>Y\<bar> < INT_MAX)"

definition map_picture :: "server \<Rightarrow> rat \<Rightarrow> nat \<Rightarrow> nat \<Rightarrow> int \<Rightarrow> int \<Rightarrow> char" where
  "map_picture s k n m x y = cell_char (points_at k n m (bases s) x y)
     (points_at k n m (map (emergency_place s) (seen_emergencies s)) x y)"

lemma draw_map_shows:
  assumes "canvas_width ac = int n" and "canvas_height ac = int m" and "length (grid ac) = m * n" and "int (m * n) \<le> INT_MAX"
    and "0 < n" and "0 < m" and "0 \<le> scale ac" and "scale ac \<le> 1" and "arrays_fit s" and "places_small s"
  shows "\<exists>ac'. draw_map s ac = Inr ac' \<and> shows_picture n m (scale ac) (map_picture s (scale ac) n m) ac'"
proof -
  let ?E = "\<lambda>es ac. plot_points POS_EMERGENCY_CHAR (map (emergency_place s) es) ac"
  obtain a1 where a1: "canvas_clear (CHR '' '') ac = Inr a1" "shows_picture n m (scale ac) (\<lambda>x y. CHR '' '') a1"
    using canvas_clear_shows [OF assms(1-4)] by blast
  have small: "\<forall>(X, Y)\<in>set (bases s). \<bar>X\<bar> < INT_MAX \<and> \<bar>Y\<bar> < INT_MAX"
    "\<forall>(X, Y)\<in>set (map (emergency_place s) (seen_emergencies s)). \<bar>X\<bar> < INT_MAX \<and> \<bar>Y\<bar> < INT_MAX"
    using assms(10) by (auto simp: places_small_def)
  obtain a2 where a2: "plot_points POS_RESCUER_CHAR (bases s) a1 = Inr a2"
      "shows_picture n m (scale ac) (\<lambda>x y. ((\<lambda>c. plot_char c POS_RESCUER_CHAR) ^^ points_at (scale ac) n m (bases s) x y) (CHR '' '')) a2"
    using plot_points_shows [OF a1(2) assms(5-8) small(1)] by blast
  obtain a3 where a3: "?E (seen_emergencies s) a2 = Inr a3" "shows_picture n m (scale ac) (map_picture s (scale ac) n m) a3"
    using plot_points_shows [OF a2(2) assms(5-8) small(2), of POS_EMERGENCY_CHAR]
    unfolding map_picture_def [abs_def] cell_char_plots by blast
  have "draw_map s ac = rbind (?E [e. Some e \<leftarrow> take WORKER_THREADS_NUMBER (slots s)] a2) (\<lambda>a3.
      rbind (?E (concat (lq_levels (completed_emergencies s))) a3) (?E (concat (lq_levels (canceled_emergencies s)))))"
    using a1(1) a2(1) by (simp add: draw_map_def plot_bases [OF assms(9)] plot_slots [OF assms(9)] plot_emergencies)
  also have "\<dots> = ?E (seen_emergencies s) a2"
    by (simp add: seen_emergencies_def plot_points_append)
  finally show ?thesis using a3 by auto
qed

section \<open>What is written\<close>

definition bordered :: "nat \<Rightarrow> nat \<Rightarrow> (int \<Rightarrow> int \<Rightarrow> char) \<Rightarrow> string" where
  "bordered n m f =
    (let border = replicate (n + 2) POS_MAP_BORDER_CHAR @ newline in
     border @ concat (map (\<lambda>y. [POS_MAP_BORDER_CHAR] @ map (\<lambda>x. f (int x) (int y)) [0..<n] @ [POS_MAP_BORDER_CHAR] @ newline) [0..<m]) @ border)"

lemma rfold_text:
  assumes "\<And>x. x \<in> set xs \<Longrightarrow> h x = Inr (g x)"
  shows "rfold (\<lambda>x t. rbind (h x) (\<lambda>c. Inr (t @ [c]))) xs t = Inr (t @ map g xs)"
  using assms by (induction xs arbitrary: t) auto

lemma canvas_row_shows:
  assumes "shows_picture n m k f ac" and "y < m"
  shows "canvas_row ac y = Inr ([POS_MAP_BORDER_CHAR] @ map (\<lambda>x. f (int x) (int y)) [0..<n] @ [POS_MAP_BORDER_CHAR] @ newline)"
proof -
  have "arr_get (grid ac) (int y * int n + int x) = Inr (f (int x) (int y))" if "x < n" for x
  proof -
    have "y * n + x < length (grid ac)" "grid ac ! (y * n + x) = f (int x) (int y)"
      using assms that cell_index [OF that assms(2)] by (simp_all add: shows_picture_def)
    moreover have "int y * int n + int x = int (y * n + x)" by simp
    ultimately show ?thesis by (simp only: arr_nth)
  qed
  then have "rfold (\<lambda>x t. rbind (arr_get (grid ac) (int y * int n + int x)) (\<lambda>c. Inr (t @ [c]))) [0..<n] [POS_MAP_BORDER_CHAR]
      = Inr ([POS_MAP_BORDER_CHAR] @ map (\<lambda>x. f (int x) (int y)) [0..<n])"
    by (intro rfold_text) simp
  then show ?thesis using assms(1) by (simp add: canvas_row_def shows_picture_def)
qed

lemma rfold_fprintf:
  assumes "\<And>y. y \<in> set ys \<Longrightarrow> h y = Inr (g y)"
  shows "rfold (\<lambda>y v. rbind (h y) (\<lambda>t. Inr (fprintf out t v))) ys v = Inr (fprintf out (concat (map g ys)) v)"
  using assms by (induction ys arbitrary: v) auto

lemma ascii_write_shows:
  assumes "shows_picture n m k f ac"
  shows "ascii_write_with_borders out ac v = Inr (fprintf out (bordered n m f) v)"
proof -
  have size: "nat (canvas_height ac) = m" "nat (canvas_width ac + 2) = n + 2" using assms by (simp_all add: shows_picture_def)
  have "rfold (\<lambda>y v. rbind (canvas_row ac y) (\<lambda>t. Inr (fprintf out t v))) [0..<m] u = Inr (fprintf out
      (concat (map (\<lambda>y. [POS_MAP_BORDER_CHAR] @ map (\<lambda>x. f (int x) (int y)) [0..<n] @ [POS_MAP_BORDER_CHAR] @ newline) [0..<m])) u)" for u
    by (rule rfold_fprintf) (simp add: canvas_row_shows [OF assms])
  then show ?thesis by (simp add: ascii_write_with_borders_def size border_line_def bordered_def Let_def)
qed

lemma new_canvas_fits:
  assumes "0 < w" and "w \<le> 1024" and "0 < h" and "h \<le> 1024"
  shows "\<exists>n m k. new_canvas w h = Inr \<lparr>grid = [], canvas_width = int n, canvas_height = int m, map_w = w, map_h = h, scale = k\<rparr>
    \<and> 0 < n \<and> n \<le> 70 \<and> 0 < m \<and> m \<le> 1025 \<and> 0 \<le> k \<and> k \<le> 1 \<and> (w \<le> 70 \<longrightarrow> int n = w \<and> int m = h \<and> k = 1)"
proof -
  define n where "n = nat (min w 70)"
  define k where "k = double (of_int (int n) / of_int w)"
  have n: "0 < n" "n \<le> 70" "int n \<le> w" using assms(1) by (auto simp: n_def)
  have big: "\<bar>0 :: int\<bar> < 2 ^ 51" "\<bar>1 :: int\<bar> < 2 ^ 51" by simp_all
  have nw: "(of_int (int n) :: rat) \<le> of_int w" using n(3) by (simp only: of_int_le_iff)
  have w: "0 < (of_int w :: rat)" using assms(1) by simp
  have "of_int 0 \<le> (of_int (int n) / of_int w :: rat)" "(of_int (int n) / of_int w :: rat) \<le> of_int 1"
    using nw w by (simp_all add: divide_le_eq)
  from double_bounds [OF this big] have k: "0 \<le> k" "k \<le> 1" by (simp_all add: k_def)
  let ?H = "\<lfloor>double (double (of_int h * k) + 1/2)\<rfloor>"
  have H: "int_of_double (double (double (of_int h * k) + 1/2)) = Inr ?H" "?H \<le> h + 1"
    using scaled [OF k, of h] assms(3,4) by (simp_all add: INT_MAX_def)
  define m where "m = nat (if ?H \<le> 0 then 1 else ?H)"
  have "?H \<le> 1025" using H(2) assms(4) by linarith
  then have m: "0 < m" "m \<le> 1025" unfolding m_def by (cases "?H \<le> 0"; simp only: if_True if_False; linarith)+
  have W: "(let W = if w > POS_MAX_WIDTH then POS_MAX_WIDTH else w in if W \<le> 0 then 1 else W) = int n"
    using assms(1) by (simp add: n_def POS_MAX_WIDTH_def Let_def)
  have "new_canvas w h = Inr \<lparr>grid = [], canvas_width = int n, canvas_height = int m, map_w = w, map_h = h, scale = k\<rparr>"
    using H(1) unfolding new_canvas_def k_def m_def by (simp add: W [unfolded Let_def] Let_def)
  moreover have "int n = w \<and> int m = h \<and> k = 1" if "w \<le> 70"
  proof -
    have nw: "int n = w" using that assms(1) by (simp add: n_def)
    then have k1: "k = 1" using assms(1) double_int [of 1] by (simp only: k_def) simp
    have "?H = h" unfolding k1 using assms(3,4) by (intro rounded_exact) (simp add: INT_MAX_def)
    then show ?thesis using nw k1 assms(3) by (simp add: m_def)
  qed
  ultimately show ?thesis using n m k by blast
qed

lemma map_is_drawn:
  assumes "opens path" and "0 < env_width s" and "env_width s \<le> 1024" and "0 < env_height s" and "env_height s \<le> 1024"
    and "arrays_fit s" and "places_small s"
  shows "\<exists>n m k v1. positions_dump_txt opens closes True junk s path v = Inr (Some (closes path), v1)
    \<and> file_text v1 = (file_text v)(path := Some (bordered n m (map_picture s k n m)))
    \<and> 0 < n \<and> n \<le> 70 \<and> 0 < m
    \<and> (env_width s \<le> 70 \<longrightarrow> int n = env_width s \<and> int m = env_height s
        \<and> (\<forall>X. \<bar>X\<bar> < INT_MAX \<longrightarrow> cell_of k n X = clampi X 0 (env_width s - 1) \<and> cell_of k m X = clampi X 0 (env_height s - 1)))"
proof -
  obtain n m k where c: "new_canvas (env_width s) (env_height s)
      = Inr \<lparr>grid = [], canvas_width = int n, canvas_height = int m, map_w = env_width s, map_h = env_height s, scale = k\<rparr>"
    and n: "0 < n" "n \<le> 70" "0 < m" "m \<le> 1025" "0 \<le> k" "k \<le> 1"
    and exact: "env_width s \<le> 70 \<longrightarrow> int n = env_width s \<and> int m = env_height s \<and> k = 1"
    using new_canvas_fits [OF assms(2-5)] by blast
  let ?ac = "\<lparr>grid = map junk [0..<n * m], canvas_width = int n, canvas_height = int m, map_w = env_width s, map_h = env_height s, scale = k\<rparr>"
  have "m * n \<le> 1025 * 70" using n by (intro mult_le_mono)
  then have "int (m * n) \<le> int (1025 * 70)" by (simp only: of_nat_le_iff)
  then have size: "int (m * n) \<le> INT_MAX" unfolding INT_MAX_def by linarith
  obtain ac' where d: "draw_map s ?ac = Inr ac'" "shows_picture n m k (map_picture s k n m) ac'"
    using draw_map_shows [of ?ac n m s] size n(1,3,5,6) assms(6,7) by (auto simp: mult.commute)
  let ?v1 = "v\<lparr>file_text := (file_text v)(path := Some [])\<rparr>"
  have "positions_dump_txt opens closes True junk s path v
      = Inr (Some (closes path), fprintf path (bordered n m (map_picture s k n m)) ?v1)"
    using assms(1,2,4) d(1) ascii_write_shows [OF d(2)] by (simp add: positions_dump_txt_def fopen_def c)
  moreover have "file_text (fprintf path (bordered n m (map_picture s k n m)) ?v1)
      = (file_text v)(path := Some (bordered n m (map_picture s k n m)))" by (simp add: fprintf_def)
  ultimately show ?thesis using n(1-3) exact cell_of_exact by metis
qed

lemma sample_places_small: "places_small sample_server"
  by (simp add: places_small_def bases_def seen_emergencies_def emergency_place_def sample_server_def sample_emg_def
    van_def WORKER_THREADS_NUMBER_def lq_create_def INT_MAX_def)



text \<open>
  Both files of the positions: given two paths the function writes the document of the
  positions to the first and the map to the second, and returns whether both were closed; if the
  first cannot be opened it writes nothing at all, not even the map, and returns false; if only the
  second cannot be opened, the result is that of the first.
\<close>

theorem positions_dump_writes_both:
  assumes "0 < env_width s" and "env_width s \<le> 1024" and "0 < env_height s" and "env_height s \<le> 1024"
    and "arrays_fit s" and "places_small s" and "j \<noteq> []" and "t \<noteq> []" and "j \<noteq> t"
  shows "\<exists>v1. json_visualizer_positions_dump opens closes True junk s (Some j) (Some t) v
      = Inr (if \<not> opens j then False else closes j \<and> (opens t \<longrightarrow> closes t), v1)
    \<and> (\<not> opens j \<longrightarrow> file_text v1 = file_text v)
    \<and> (opens j \<longrightarrow> file_text v1 j = Some (positions_document s))
    \<and> (opens j \<and> opens t \<longrightarrow> (\<exists>n m k. file_text v1 t = Some (bordered n m (map_picture s k n m))))"
proof (cases "opens j")
  case False
  then show ?thesis using assms(7)
    by (simp add: json_visualizer_positions_dump_def given_def positions_dump_json_def fopen_def)
next
  case True
  obtain v1 where j: "positions_dump_json opens closes s j v = Inr (Some (closes j), v1)" "file_text v1 j = Some (positions_document s)"
    using positions_file_is_document [of opens j s closes v] True assms(5) by auto
  have given: "given (Some j)" "given (Some t)" using assms(7,8) by (simp_all add: given_def)
  show ?thesis
  proof (cases "opens t")
    case False
    then have "positions_dump_txt opens closes True junk s t v1 = Inr (None, v1)" by (simp add: positions_dump_txt_def fopen_def)
    then show ?thesis using True False j given by (simp add: json_visualizer_positions_dump_def)
  next
    case t: True
    obtain n m k v2 where "positions_dump_txt opens closes True junk s t v1 = Inr (Some (closes t), v2)"
        "file_text v2 = (file_text v1)(t := Some (bordered n m (map_picture s k n m)))"
      using map_is_drawn [of opens t s closes junk v1] t assms(1-6) by blast
    then show ?thesis using True t j given assms(9) by (auto simp: json_visualizer_positions_dump_def)
  qed
qed

theorem positions_dump_writes_both_witness:
  "\<exists>v1. json_visualizer_positions_dump (\<lambda>p. True) (\<lambda>p. True) True (\<lambda>i. CHR ''?'') sample_server (Some ''out/positions.json'') (Some ''out/positions.txt'') no_files
      = Inr (True, v1) \<and> file_text v1 ''out/positions.json'' = Some (positions_document sample_server)"
proof -
  have "env_width sample_server = 20" "env_height sample_server = 20" by (simp_all add: sample_server_def)
  then show ?thesis
    using positions_dump_writes_both [of sample_server "''out/positions.json''" "''out/positions.txt''" "\<lambda>p. True" "\<lambda>p. True" "\<lambda>i. CHR ''?''" no_files]
      sample_arrays_fit sample_places_small by auto
qed

end
