(* ===== verification/Spec2Isabelle.thy ===== *)
theory Spec2Isabelle
  imports Bresenham Linked_List Priority_Queue Dispatch_Correct Updater_Tick Worker Parse_Env Client_Main Clock
    System_Shutdown Server_Main Log Positions_Map
begin

text \<open>
  A verification library for the emergency dispatch server and its client.

  \<^bold>\<open>The program.\<close> A client (\<^verbatim>\<open>src/client/client.c\<close>) sends requests for emergencies through a POSIX message
  queue. The server (\<^verbatim>\<open>src/server\<close>) reads three configuration files
  (\<^verbatim>\<open>src/core/parsers\<close>), then runs a receiver, a clock, an updater and ten workers on one context
  \<^verbatim>\<open>ctx\<close>: the receiver queues an emergency for each legal request, a worker takes it, searches
  rescuers for it, if need be from less important emergencies, and waits until it is completed,
  timed out or canceled; at each tick of the clock the updater moves the rescuers along lines of
  Bresenham, times what they do, and promotes or expires what waits. A signal or an error in a thread
  shuts it down. Both processes log through a second queue (\<^verbatim>\<open>src/log.c\<close>), and the server
  writes what happens to files (\<^verbatim>\<open>json_visualizer.c\<close>).

  \<^bold>\<open>How C is modelled.\<close> Theory \<^verbatim>\<open>Prelude\<close> has the type \<open>'a res\<close> of results: \<open>Inl\<close> of
  a failure of the C machine (a \<open>NULL\<close> dereference, an index out of bounds, an uninitialised read, a
  signed overflow, a mutex locked twice, the end of the process) or \<open>Inr\<close> of a value. So every
  theorem that shows \<open>Inr\<close> shows that the code meets no undefined behaviour there. Where an
  operation may wait for another thread, \<open>None\<close> says that it has no result yet. Structures are
  records, \<^verbatim>\<open>int\<close> is \<open>int\<close> with the overflow test written out where
  values from outside are read or scaled (\<^verbatim>\<open>my_atoi\<close>, \<^verbatim>\<open>sscanf\<close>, the walk, the canvas), strings are lists of
  bytes, shared objects are numbers into heaps that are part of the state. Loops are structural
  recursion, folds over their index, or carry a measure; where fuel is used (the walk, the loops
  that extract from a queue, the search, the thread that writes the log) the theorems show that the
  fuel given is enough: the distance left, the length of the queue, the number of places missing, the
  messages in the queue.

  \<^bold>\<open>The theories.\<close>
  \<^item> \<^verbatim>\<open>Prelude\<close>, \<^verbatim>\<open>C_Strings\<close> (\<^verbatim>\<open>utils.c\<close>), \<^verbatim>\<open>Sscanf\<close>, \<^verbatim>\<open>Doubles\<close>: results, macros, string functions,
    the formats of \<^verbatim>\<open>parsers.h\<close>, numbers of type \<^verbatim>\<open>double\<close>.
  \<^item> \<^verbatim>\<open>Bresenham\<close> (\<^verbatim>\<open>bresenham.c\<close>): the walk, against a reference line of the same steps; it
    arrives within the distance divided by the speed, and its numbers stay in the range of \<^verbatim>\<open>int\<close>.
  \<^item> \<^verbatim>\<open>Queue_Interface\<close>, \<^verbatim>\<open>Linked_List\<close>, \<^verbatim>\<open>Priority_Queue\<close> (\<^verbatim>\<open>priority_queue.c\<close>): the queue on an
    explicit heap of nodes. The locales \<open>prio_queue\<close> and \<open>prio_queue_pop\<close> state what clients rely on,
    one list per level; the heap queue and the queue of lists that the server model uses both
    interpret them, so the server's theorems hold for either.
  \<^item> \<^verbatim>\<open>Parse_Lines\<close>, \<^verbatim>\<open>Parse_Env\<close>, \<^verbatim>\<open>Parse_Rescuers\<close>, \<^verbatim>\<open>Parse_Emergencies\<close>, \<^verbatim>\<open>Emergencies_File\<close>: the three
    parsers; on any file they end, with data that is well formed, and a file
    that states a configuration is read back as stated.
  \<^item> \<^verbatim>\<open>Priority_Rules\<close> (\<^verbatim>\<open>main.c\<close>), \<^verbatim>\<open>Server_State\<close> (\<^verbatim>\<open>structs.h\<close>, \<^verbatim>\<open>server.h\<close>, \<^verbatim>\<open>server_helpers.c\<close>),
    \<^verbatim>\<open>Server_Invariant\<close>, \<^verbatim>\<open>Samples\<close>: the context as one record, the links between types, twins and
    emergencies that every operation keeps, and a small concrete server.
  \<^item> \<^verbatim>\<open>Dispatch\<close>, \<^verbatim>\<open>Dispatch_Correct\<close>, \<^verbatim>\<open>Worker\<close> (\<^verbatim>\<open>thread_worker.c\<close>): the choice of the best twin, the search
    with preemption (found exactly when there are enough, nothing taken from what is as important,
    the state untouched when it fails), and the worker's body as a state machine.
  \<^item> \<^verbatim>\<open>Updater\<close>, \<^verbatim>\<open>Updater_Waiting\<close>, \<^verbatim>\<open>Updater_Twins\<close>, \<^verbatim>\<open>Updater_Tick\<close> (\<^verbatim>\<open>thread_updater.c\<close>): the passes
    over waiting emergencies, rescuers and active emergencies, and a whole tick.
  \<^item> \<^verbatim>\<open>Receiver\<close> (\<^verbatim>\<open>thread_reciever.c\<close>), \<^verbatim>\<open>Clock\<close> (\<^verbatim>\<open>thread_clock.c\<close> and the wait of the updater), \<^verbatim>\<open>Shutdown\<close>,
    \<^verbatim>\<open>Server_Main\<close> (\<^verbatim>\<open>main.c\<close>, the memory functions of \<^verbatim>\<open>structs.c\<close>).
  \<^item> \<^verbatim>\<open>System_Frames\<close>, \<^verbatim>\<open>System\<close>, \<^verbatim>\<open>System_Properties\<close>, \<^verbatim>\<open>System_Shutdown\<close>: all threads on one state,
    in any order; no emergency is lost or in two places, what preemption does to an emergency, the tick
    as the single steps of the updater, and how the workers come to rest after a signal.
  \<^item> \<^verbatim>\<open>Client\<close>, \<^verbatim>\<open>Ipc\<close>, \<^verbatim>\<open>Client_Main\<close>: what the client sends, how client and server find each other through
    shared memory and semaphore (\<^verbatim>\<open>server_ipc_setup\<close> and the first half of the client's \<^verbatim>\<open>main\<close>), and
    the client's modes.
  \<^item> \<^verbatim>\<open>Log\<close> (\<^verbatim>\<open>log.c\<close>, \<^verbatim>\<open>config_log.h\<close>): the table of events, the lines, the thread that writes the file, the
    end of the log.
  \<^item> \<^verbatim>\<open>Json_Visualizer\<close>, \<^verbatim>\<open>Positions_Map\<close> (\<^verbatim>\<open>json_visualizer.c\<close>): the files of the simulation and of the
    positions against reference documents, and the map in characters.

  \<^bold>\<open>How the parts meet.\<close> The parsers' results satisfy the invariant from which the threads start
  (\<^verbatim>\<open>Server_Main\<close>); every step of every thread keeps the invariant of the system (\<^verbatim>\<open>System\<close>), whose
  proofs use those of receiver, search, updater and shutdown; a message of the client is what the
  receiver reads (\<^verbatim>\<open>Client\<close>); a course given by the search is walked by the updater without
  leaving the map (\<^verbatim>\<open>Updater_Twins\<close>); the search and the walk that the server runs are the ones whose
  queue and line are verified.

  \<^bold>\<open>Assumptions.\<close> Between two points where a thread takes or gives back a lock, waits, or uses a
  queue, its code is one step. The worker reads the status of its own emergency once when it wakes,
  where the code reads it several times. Allocation succeeds, except where a test for it is
  part of what is modelled (the grid of the map, the queue). Creating a mutex or condition variable
  succeeds. Server components leave out their messages to the log, which change none of their state;
  that a full log queue can hold them up is a theorem of \<^verbatim>\<open>Log\<close>. Doubles are computed without
  extra precision and without a fused multiplication. A pointer field that the configuration never
  leaves \<open>NULL\<close> is its value.

  \<^bold>\<open>Not modelled.\<close> The macros of \<^verbatim>\<open>errors.h\<close> and \<^verbatim>\<open>debug.h\<close>, which print and end the process (their
  effect is the failure \<open>ProcessExit\<close>), closing and unlinking of queue, shared memory and semaphore when
  the server ends, and the wait of the clock and of the client for time to pass: system calls
  without a result that the code uses. The text of \<^verbatim>\<open>printf\<close> formats in log messages is an argument of
  \<^verbatim>\<open>log_event\<close>. The build does not contain \<^verbatim>\<open>old_code\<close>, an earlier version of the workers.
\<close>

end
